(* ===== verification/C_Lib.thy ===== *)
theory C_Lib
  imports Main "HOL-Library.Word"
begin

text \<open>
  Prelude of the development: the machine types, the bytes of C strings, the parts of the C
  standard library the program calls (\<open>ctype.h\<close> in the C locale, \<open>strtol\<close>,
  \<open>strtoul\<close>, the integer conversions of \<open>printf\<close> and of the C++ streams), the
  collections of rewrite rules the component theories share, and the generic list and word
  lemmas about them. Nothing here is specific to the program.
\<close>

unbundle bit_operations_syntax

type_synonym u8 = "8 word"
type_synonym u16 = "16 word"
type_synonym u32 = "32 word"
type_synonym u64 = "64 word"
type_synonym bytes = "u8 list"

named_theorems ctype_defs \<open>definitions of the character classes\<close>
named_theorems byte_simps \<open>conversions between characters and bytes\<close>

section \<open>Characters, bytes and C strings\<close>

definition to_u8 :: "char \<Rightarrow> u8" where
  "to_u8 c = word_of_nat (of_char c)"

definition of_u8 :: "u8 \<Rightarrow> char" where
  "of_u8 w = char_of (unat w)"

text \<open>The C string that starts at a buffer: everything before the first NUL.\<close>

definition c_str :: "string \<Rightarrow> string" where
  "c_str s = takeWhile (\<lambda>c. c \<noteq> CHR 0x00) s"

abbreviation nul_free :: "string \<Rightarrow> bool" where
  "nul_free s \<equiv> CHR 0x00 \<notin> set s"

lemma unat_to_u8 [byte_simps]: "unat (to_u8 c) = of_char c"
  by (simp add: to_u8_def unat_of_nat take_bit_nat_eq_self)

lemma of_u8_to_u8 [simp, byte_simps]: "of_u8 (to_u8 c) = c"
  by (simp add: of_u8_def byte_simps)

lemma to_u8_of_u8 [simp, byte_simps]: "to_u8 (of_u8 w) = w"
proof -
  have "unat w < 256" using unsigned_less [of w] by simp
  then show ?thesis by (simp add: to_u8_def of_u8_def)
qed

lemma of_u8_inj: "of_u8 v = of_u8 w \<longleftrightarrow> v = w"
  by (metis to_u8_of_u8)

lemma of_char_less_256 [simp]: "(of_char c :: nat) < 256"
  using of_char_mod_256 [of c] by (metis mod_less_divisor zero_less_numeral)

text \<open>Bit positions of a byte, for case analysis.\<close>

lemma less_8_cases: "n < LENGTH(8) \<Longrightarrow> n \<in> {0, 1, 2, 3, 4, 5, 6, 7}"
  by auto

lemma c_str_id: "nul_free s \<Longrightarrow> c_str s = s"
  by (auto simp: c_str_def takeWhile_eq_all_conv)

lemma nul_free_c_str: "nul_free (c_str s)"
  by (auto simp: c_str_def dest: set_takeWhileD)

lemma c_str_idem [simp]: "c_str (c_str s) = c_str s"
  by (rule c_str_id) (rule nul_free_c_str)

lemma length_c_str: "length (c_str s) \<le> length s"
  by (simp add: c_str_def length_takeWhile_le)

section \<open>The character classes of the C locale\<close>

text \<open>Characters outside ASCII belong to no class and are left alone by \<open>tolower\<close>.\<close>

definition isdigit :: "char \<Rightarrow> bool" where
  [ctype_defs]: "isdigit c \<longleftrightarrow> 48 \<le> (of_char c :: nat) \<and> (of_char c :: nat) \<le> 57"

definition isupper :: "char \<Rightarrow> bool" where
  [ctype_defs]: "isupper c \<longleftrightarrow> 65 \<le> (of_char c :: nat) \<and> (of_char c :: nat) \<le> 90"

definition islower :: "char \<Rightarrow> bool" where
  [ctype_defs]: "islower c \<longleftrightarrow> 97 \<le> (of_char c :: nat) \<and> (of_char c :: nat) \<le> 122"

definition isalnum :: "char \<Rightarrow> bool" where
  [ctype_defs]: "isalnum c \<longleftrightarrow> isdigit c \<or> isupper c \<or> islower c"

definition isxdigit :: "char \<Rightarrow> bool" where
  [ctype_defs]: "isxdigit c \<longleftrightarrow> isdigit c
     \<or> (65 \<le> (of_char c :: nat) \<and> (of_char c :: nat) \<le> 70)
     \<or> (97 \<le> (of_char c :: nat) \<and> (of_char c :: nat) \<le> 102)"

definition isspace :: "char \<Rightarrow> bool" where
  [ctype_defs]: "isspace c \<longleftrightarrow> (of_char c :: nat) = 32
     \<or> (9 \<le> (of_char c :: nat) \<and> (of_char c :: nat) \<le> 13)"

definition tolower :: "char \<Rightarrow> char" where
  [ctype_defs]: "tolower c = (if isupper c then char_of ((of_char c :: nat) + 32) else c)"

section \<open>Hexadecimal digits\<close>

text \<open>The digit \<open>%x\<close> prints for a nibble, and the value \<open>strtoul\<close> gives to a digit.\<close>

definition hexdig :: "nat \<Rightarrow> char" where
  "hexdig n = (if n < 10 then char_of (48 + n) else char_of (87 + n))"

definition xdigit_val :: "char \<Rightarrow> nat" where
  "xdigit_val c = (if isdigit c then of_char c - 48
     else if isupper c then of_char c - 55 else of_char c - 87)"

lemma of_char_hexdig: "n < 16 \<Longrightarrow> (of_char (hexdig n) :: nat) = (if n < 10 then 48 + n else 87 + n)"
  by (simp add: hexdig_def)

lemma isxdigit_hexdig [simp]: "n < 16 \<Longrightarrow> isxdigit (hexdig n)"
  by (simp add: ctype_defs of_char_hexdig)

lemma xdigit_val_hexdig [simp]: "n < 16 \<Longrightarrow> xdigit_val (hexdig n) = n"
  by (simp add: xdigit_val_def ctype_defs of_char_hexdig)

lemma xdigit_val_less: "isxdigit c \<Longrightarrow> xdigit_val c < 16"
  by (auto simp: xdigit_val_def ctype_defs)

lemma hexdig_xdigit_val: "isxdigit c \<Longrightarrow> hexdig (xdigit_val c) = tolower c"
  by (auto simp: hexdig_def xdigit_val_def ctype_defs)

lemma isxdigit_not_dash [simp]: "\<not> isxdigit CHR ''-''"
  by (simp add: ctype_defs)

lemma isxdigit_not_nul [simp]: "\<not> isxdigit CHR 0x00"
  by (simp add: ctype_defs)

section \<open>printf conversions\<close>

fun hex_digits :: "nat \<Rightarrow> string" where
  "hex_digits n = (if n < 16 then [hexdig n] else hex_digits (n div 16) @ [hexdig (n mod 16)])"

declare hex_digits.simps [simp del]

text \<open>\<open>%0wx\<close>: at least \<open>w\<close> digits, padded with zeros on the left.\<close>

definition fmt_x :: "nat \<Rightarrow> nat \<Rightarrow> string" where
  "fmt_x w n = replicate (w - length (hex_digits n)) CHR ''0'' @ hex_digits n"

text \<open>Exactly the \<open>w\<close> low digits.\<close>

fun hex_fixed :: "nat \<Rightarrow> nat \<Rightarrow> string" where
  "hex_fixed 0 n = []"
| "hex_fixed (Suc w) n = hex_fixed w (n div 16) @ [hexdig (n mod 16)]"

fun dec_of_nat :: "nat \<Rightarrow> string" where
  "dec_of_nat n = (if n < 10 then [char_of (48 + n)]
     else dec_of_nat (n div 10) @ [char_of (48 + n mod 10)])"

declare dec_of_nat.simps [simp del]

text \<open>\<open>%0wd\<close> of a number that is not negative.\<close>

definition fmt_d :: "nat \<Rightarrow> nat \<Rightarrow> string" where
  "fmt_d w n = replicate (w - length (dec_of_nat n)) CHR ''0'' @ dec_of_nat n"

lemma length_hex_fixed [simp]: "length (hex_fixed w n) = w"
  by (induction w arbitrary: n) auto

lemma hexdig_0: "hexdig 0 = CHR ''0''"
  by code_simp

lemma hex_fixed_zero: "hex_fixed w 0 = replicate w CHR ''0''"
  by (induction w) (simp_all add: hexdig_0 replicate_append_same)

lemma hex_fixed_xdigits: "c \<in> set (hex_fixed w n) \<Longrightarrow> isxdigit c"
  by (induction w arbitrary: n) auto

lemma hex_digits_fixed: "n < 16 ^ w \<Longrightarrow> 0 < w \<Longrightarrow> fmt_x w n = hex_fixed w n"
proof (induction w arbitrary: n)
  case (Suc w)
  show ?case
  proof (cases "n < 16")
    case True
    then show ?thesis
      by (simp add: fmt_x_def hex_digits.simps [of n] hex_fixed_zero)
  next
    case False
    with Suc.prems have "n div 16 < 16 ^ w" "0 < w"
      by (auto simp: less_mult_imp_div_less mult.commute) (cases w; simp)
    then have "fmt_x w (n div 16) = hex_fixed w (n div 16)" by (rule Suc.IH)
    with False show ?thesis
      by (simp add: fmt_x_def hex_digits.simps [of n])
  qed
qed simp

lemma dec_of_nat_digits: "c \<in> set (dec_of_nat n) \<Longrightarrow> isdigit c"
proof (induction n rule: dec_of_nat.induct)
  case (1 n)
  then show ?case
    by (cases "n < 10") (auto simp: dec_of_nat.simps [of n] ctype_defs)
qed

lemma dec_of_nat_nonempty [simp]: "dec_of_nat n \<noteq> []"
  by (subst dec_of_nat.simps) simp

section \<open>Reading numbers\<close>

definition hex_value :: "string \<Rightarrow> nat" where
  "hex_value s = foldl (\<lambda>v c. v * 16 + xdigit_val c) 0 s"

definition dec_value :: "string \<Rightarrow> nat" where
  "dec_value s = foldl (\<lambda>v c. v * 10 + (of_char c - 48)) 0 s"

text \<open>
  The optional sign of \<open>strtol\<close> and \<open>strtoul\<close>, after leading white space, and the
  optional \<open>0x\<close> prefix of base 16 (taken only when a hexadecimal digit follows).
\<close>

fun split_sign :: "string \<Rightarrow> bool \<times> string" where
  "split_sign (c # cs) = (if c = CHR ''-'' then (True, cs) else if c = CHR ''+'' then (False, cs) else (False, c # cs))"
| "split_sign [] = (False, [])"

fun strip_0x :: "string \<Rightarrow> string" where
  "strip_0x (z # x # d # cs) =
     (if z = CHR ''0'' \<and> (x = CHR ''x'' \<or> x = CHR ''X'') \<and> isxdigit d then d # cs else z # x # d # cs)"
| "strip_0x s = s"

text \<open>\<open>strtoul(s, NULL, 16)\<close> with a 64-bit \<open>unsigned long\<close>, saturating on overflow.\<close>

definition strtoul16 :: "string \<Rightarrow> u64" where
  "strtoul16 s =
     (let (neg, t) = split_sign (dropWhile isspace s);
          v = hex_value (takeWhile isxdigit (strip_0x t))
      in if 2 ^ 64 \<le> v then -1 else if neg then - of_nat v else of_nat v)"

text \<open>
  \<open>strtol(s, NULL, 10)\<close> with a 64-bit \<open>long\<close>: the value, and whether \<open>errno\<close> is
  set to \<open>ERANGE\<close> (the library never clears \<open>errno\<close>).
\<close>

definition strtol10 :: "string \<Rightarrow> int \<times> bool" where
  "strtol10 s =
     (let (neg, t) = split_sign (dropWhile isspace s);
          m = int (dec_value (takeWhile isdigit t));
          v = (if neg then - m else m)
      in if v < - (2 ^ 63) then (- (2 ^ 63), True)
         else if 2 ^ 63 \<le> v then (2 ^ 63 - 1, True) else (v, False))"

lemma hex_value_snoc [simp]: "hex_value (s @ [c]) = hex_value s * 16 + xdigit_val c"
  by (simp add: hex_value_def)

lemma hex_value_Nil [simp]: "hex_value [] = 0"
  by (simp add: hex_value_def)

lemma hex_value_fixed: "hex_value (hex_fixed w n) = n mod 16 ^ w"
proof (induction w arbitrary: n)
  case (Suc w)
  show ?case by (simp add: Suc.IH mod_mult2_eq)
qed simp

lemma hex_value_less: "list_all isxdigit s \<Longrightarrow> hex_value s < 16 ^ length s"
proof (induction s rule: rev_induct)
  case (snoc c s)
  then have "hex_value s + 1 \<le> 16 ^ length s" "xdigit_val c < 16"
    by (auto intro: xdigit_val_less)
  then have "hex_value s * 16 + xdigit_val c < (16 ^ length s) * 16" by linarith
  then show ?case by simp
qed simp

lemma hex_fixed_value: "list_all isxdigit s \<Longrightarrow> hex_fixed (length s) (hex_value s) = map tolower s"
proof (induction s rule: rev_induct)
  case (snoc c s)
  then have "(hex_value s * 16 + xdigit_val c) div 16 = hex_value s"
    and "(hex_value s * 16 + xdigit_val c) mod 16 = xdigit_val c"
    by (auto dest: xdigit_val_less)
  with snoc show ?case by (simp add: hexdig_xdigit_val)
qed simp

lemma dec_value_snoc [simp]: "dec_value (s @ [c]) = dec_value s * 10 + (of_char c - 48)"
  by (simp add: dec_value_def)

lemma dec_value_of_nat [simp]: "dec_value (dec_of_nat n) = n"
proof (induction n rule: dec_of_nat.induct)
  case (1 n)
  then show ?case
    by (cases "n < 10") (simp_all add: dec_of_nat.simps [of n] dec_value_def)
qed

text \<open>On a run of hexadecimal digits the sign, the blanks and the prefix play no part.\<close>

lemma isxdigit_neq_x:
  assumes "isxdigit c"
  shows "c \<noteq> CHR ''x''" "c \<noteq> CHR ''X''" "c \<noteq> CHR ''-''" "c \<noteq> CHR ''+''" "\<not> isspace c"
  using assms by (auto simp: ctype_defs)

lemma strip_0x_id: "c \<noteq> CHR ''x'' \<Longrightarrow> c \<noteq> CHR ''X'' \<Longrightarrow> strip_0x (d # c # cs) = d # c # cs"
  by (cases cs) simp_all

lemma strip_0x_no_zero: "z \<noteq> CHR ''0'' \<Longrightarrow> strip_0x (z # s) = z # s"
  by (cases s; cases "tl s") simp_all

lemma strip_0x_xdigits:
  assumes "list_all isxdigit s" and "t = [] \<or> t = CHR ''-'' # t'"
  shows "strip_0x (s @ t) = s @ t"
proof (cases s)
  case Nil
  with assms(2) show ?thesis by (auto intro: strip_0x_no_zero)
next
  case s: (Cons d s1)
  show ?thesis
  proof (cases s1)
    case Nil
    with s assms show ?thesis by (auto intro: strip_0x_id)
  next
    case (Cons c s2)
    with s assms have "c \<noteq> CHR ''x''" "c \<noteq> CHR ''X''" using isxdigit_neq_x by auto
    then show ?thesis by (simp add: s Cons strip_0x_id)
  qed
qed

lemma strtoul16_xdigits:
  assumes xs: "list_all isxdigit s" "s \<noteq> []" "length s \<le> 16" and t: "t = [] \<or> t = CHR ''-'' # t'"
  shows "strtoul16 (s @ t) = of_nat (hex_value s)"
proof -
  obtain d s1 where s: "s = d # s1" using xs(2) by (cases s) auto
  have d: "isxdigit d" using xs(1) s by simp
  have 1: "split_sign (dropWhile isspace (s @ t)) = (False, s @ t)"
    using isxdigit_neq_x [OF d] by (simp add: s)
  have 2: "takeWhile isxdigit (s @ t) = s"
    using xs(1) t by (auto simp: takeWhile_append list_all_iff)
  have "hex_value s < 16 ^ length s" using xs(1) by (rule hex_value_less)
  also have "\<dots> \<le> (16::nat) ^ 16" using xs(3) by (intro power_increasing) auto
  finally have 3: "hex_value s < 2 ^ 64" by simp
  show ?thesis
    unfolding strtoul16_def Let_def 1 prod.case strip_0x_xdigits [OF xs(1) t] 2
    using 3 by simp
qed

end
