(* ===== verification/Url_Codec.thy ===== *)
theory Url_Codec
  imports C_Lib
begin

text \<open>
  URL encoding, \<open>src/src/urlendecode.c\<close>. The result of \<open>malloc\<close> is the first argument of
  the two entry points (\<open>False\<close>: it returned \<open>NULL\<close>), a C string is the text before its
  terminator, and what the functions store in their buffer is the value they return. The lemmas give
  the round trip, the alphabet of an encoded string, the two buffer bounds, and what the decoder does
  with an incomplete escape.
\<close>

section \<open>The code\<close>

definition from_hex :: "char \<Rightarrow> u8" where
  "from_hex ch = (if isdigit ch then to_u8 ch - 48 else to_u8 (tolower ch) - 97 + 10)"

definition to_hex :: "u8 \<Rightarrow> char" where
  "to_hex code = ''0123456789abcdef'' ! unat (code AND 15)"

text \<open>The characters \<open>url_encode\<close> copies as they are.\<close>

definition unreserved :: "char \<Rightarrow> bool" where
  "unreserved c \<longleftrightarrow> isalnum c \<or> c = CHR ''-'' \<or> c = CHR ''_'' \<or> c = CHR ''.''"

fun encode_loop :: "string \<Rightarrow> string" where
  "encode_loop [] = []"
| "encode_loop (c # cs) =
     (if unreserved c then [c]
      else if c = CHR '' '' then ''+''
      else [CHR ''%'', to_hex (signed_drop_bit 4 (to_u8 c)), to_hex (to_u8 c AND 15)])
     @ encode_loop cs"

text \<open>The size \<open>url_encode\<close> asks \<open>malloc\<close> for, and the function.\<close>

definition encode_size :: "string \<Rightarrow> nat" where
  "encode_size str = length (c_str str) * 3 + 1"

definition url_encode :: "bool \<Rightarrow> string \<Rightarrow> string option" where
  "url_encode malloc_ok str = (if malloc_ok then Some (encode_loop (c_str str)) else None)"

text \<open>
  \<open>pstr[1] \<and> pstr[2]\<close> holds exactly when two more characters precede the terminator; when it
  fails the percent sign alone is skipped.
\<close>

fun decode_loop :: "string \<Rightarrow> string" where
  "decode_loop [] = []"
| "decode_loop (c # cs) =
     (if c = CHR ''%'' then
        (case cs of
           a # b # rest \<Rightarrow> of_u8 (push_bit 4 (from_hex a) OR from_hex b) # decode_loop rest
         | _ \<Rightarrow> decode_loop cs)
      else if c = CHR ''+'' then CHR '' '' # decode_loop cs
      else c # decode_loop cs)"

definition decode_size :: "string \<Rightarrow> nat" where
  "decode_size str = length (c_str str) + 1"

definition url_decode :: "bool \<Rightarrow> string \<Rightarrow> string option" where
  "url_decode malloc_ok str = (if malloc_ok then Some (decode_loop (c_str str)) else None)"

section \<open>Hexadecimal escapes\<close>

lemma nibble_less: "unat (x AND 15 :: u8) < 16"
proof -
  have "x AND 15 \<le> 15" by (rule word_and_le1)
  then show ?thesis by (simp add: word_le_nat_alt)
qed

lemma hex_table: "n < 16 \<Longrightarrow> ''0123456789abcdef'' ! n = hexdig n"
proof -
  have "\<forall>n \<in> set [0..<16]. ''0123456789abcdef'' ! n = hexdig n" by code_simp
  then show "n < 16 \<Longrightarrow> ''0123456789abcdef'' ! n = hexdig n" by simp
qed

lemma to_hex_hexdig: "to_hex x = hexdig (unat (x AND 15))"
  by (simp add: to_hex_def hex_table nibble_less)

lemma from_hex_hexdig: "n < 16 \<Longrightarrow> from_hex (hexdig n) = of_nat n"
  by (auto simp: from_hex_def ctype_defs of_char_hexdig to_u8_def)

lemma from_hex_to_hex: "from_hex (to_hex x) = x AND 15"
  by (simp add: to_hex_hexdig from_hex_hexdig nibble_less)

lemma escape_bits: "push_bit 4 (signed_drop_bit 4 w AND 15) OR (w AND 15) = (w :: u8)"
  by (rule bit_word_eqI, drule less_8_cases, elim insertE) (simp_all add: bit_simps)

lemma escape_roundtrip:
  "of_u8 (push_bit 4 (from_hex (to_hex (signed_drop_bit 4 (to_u8 c))))
     OR from_hex (to_hex (to_u8 c AND 15))) = c"
  unfolding from_hex_to_hex and.right_idem escape_bits by (rule of_u8_to_u8)

text \<open>Both cases of a hexadecimal digit decode to the same value.\<close>

lemma from_hex_xdigit: "isxdigit c \<Longrightarrow> from_hex c = of_nat (xdigit_val c)"
  by (auto simp: from_hex_def xdigit_val_def ctype_defs to_u8_def of_nat_diff)

lemma to_hex_alnum: "isalnum (to_hex x)"
  using nibble_less [of x] by (auto simp: to_hex_hexdig ctype_defs of_char_hexdig)

lemma to_hex_unreserved: "unreserved (to_hex x)"
  by (simp add: unreserved_def to_hex_alnum)

section \<open>Correctness of the two loops\<close>

lemma unreserved_plain:
  assumes "unreserved c"
  shows "c \<noteq> CHR ''%''" "c \<noteq> CHR ''+''" "c \<noteq> CHR 0x00" "c \<noteq> CHR '' ''"
  using assms by (auto simp: unreserved_def ctype_defs)

lemma decode_encode_loop: "decode_loop (encode_loop s) = s"
proof (induction s)
  case (Cons c s)
  consider "unreserved c" | "c = CHR '' ''" | "\<not> unreserved c" "c \<noteq> CHR '' ''" by blast
  then show ?case
  proof cases
    case 1
    with Cons show ?thesis by (simp add: unreserved_plain)
  next
    case 2
    then have "\<not> unreserved c" using unreserved_plain(4) by blast
    with 2 Cons show ?thesis by simp
  next
    case 3
    with Cons show ?thesis by (simp add: escape_roundtrip)
  qed
qed simp

lemma encode_loop_alphabet:
  "c \<in> set (encode_loop s) \<Longrightarrow> unreserved c \<or> c = CHR ''+'' \<or> c = CHR ''%''"
  by (induction s) (auto simp: to_hex_unreserved split: if_splits)

lemma nul_free_encode_loop: "nul_free (encode_loop s)"
proof
  assume "CHR 0x00 \<in> set (encode_loop s)"
  then have "unreserved CHR 0x00" using encode_loop_alphabet by fastforce
  then show False using unreserved_plain(3) by blast
qed

lemma length_encode_loop: "length (encode_loop s) \<le> 3 * length s"
  by (induction s) auto

lemma length_decode_loop: "length (decode_loop s) \<le> length s"
proof (induction s rule: length_induct)
  case (1 s)
  then have IH: "length (decode_loop t) \<le> length t" if "length t < length s" for t
    using that by blast
  show ?case
  proof (cases s)
    case s: (Cons c cs)
    show ?thesis
    proof (cases "c = CHR ''%'' \<and> 2 \<le> length cs")
      case True
      then obtain a b r where "cs = a # b # r" by (cases cs; cases "tl cs") auto
      with s True IH [of r] show ?thesis by simp
    next
      case False
      then have "decode_loop s = decode_loop cs \<or> (\<exists>d. decode_loop s = d # decode_loop cs)"
        unfolding s by (cases cs; cases "tl cs") simp_all
      with s IH [of cs] show ?thesis by auto
    qed
  qed simp
qed

lemma decode_loop_plain:
  "CHR ''%'' \<notin> set s \<Longrightarrow> CHR ''+'' \<notin> set s \<Longrightarrow> decode_loop s = s"
  by (induction s) auto

lemma decode_loop_append_plain:
  "CHR ''%'' \<notin> set s \<Longrightarrow> CHR ''+'' \<notin> set s \<Longrightarrow> decode_loop (s @ t) = s @ decode_loop t"
  by (induction s) auto

lemma nibbles_join:
  "\<forall>a \<in> set [0..<16]. \<forall>b \<in> set [0..<16]. push_bit 4 (of_nat a) OR of_nat b = (of_nat (16 * a + b) :: u8)"
  by code_simp

lemma decode_loop_escape:
  "isxdigit a \<Longrightarrow> isxdigit b \<Longrightarrow>
   decode_loop (CHR ''%'' # a # b # t) = char_of (16 * xdigit_val a + xdigit_val b) # decode_loop t"
proof -
  assume ab: "isxdigit a" "isxdigit b"
  then have lt: "xdigit_val a < 16" "xdigit_val b < 16" by (auto intro: xdigit_val_less)
  have "push_bit 4 (of_nat (xdigit_val a)) OR of_nat (xdigit_val b)
      = (of_nat (16 * xdigit_val a + xdigit_val b) :: u8)"
    using nibbles_join lt by simp
  moreover have "of_u8 (of_nat (16 * xdigit_val a + xdigit_val b))
      = char_of (16 * xdigit_val a + xdigit_val b)"
    using lt unfolding of_u8_def by (simp add: unat_of_nat take_bit_nat_eq_self del: of_nat_add of_nat_mult)
  ultimately show ?thesis
    using ab by (simp add: from_hex_xdigit del: of_nat_add of_nat_mult)
qed

lemma url_codec_inverse: "url_encode True s = Some e \<Longrightarrow> url_decode True e = Some (c_str s)"
  by (auto simp: url_encode_def url_decode_def c_str_id nul_free_encode_loop decode_encode_loop)

section \<open>Properties\<close>

text \<open>
  C37. Decoding what \<open>url_encode\<close> returned gives the C string back, for every input string
  (its part before the first NUL), provided both allocations succeed.
\<close>

theorem url_decode_encode:
  "url_encode True s = Some e \<Longrightarrow> url_decode True e = Some (c_str s)"
  by (rule url_codec_inverse)

theorem url_decode_encode_witness:
  "url_encode True ''a b/c'' = Some ''a+b%2fc'' \<and> url_decode True ''a+b%2fc'' = Some (c_str ''a b/c'')"
proof -
  have e: "url_encode True ''a b/c'' = Some ''a+b%2fc''" by code_simp
  show ?thesis using e url_decode_encode [OF e] by blast
qed

text \<open>
  Neither function writes past the buffer it allocates: with its terminator, the encoded text
  fits into \<open>strlen(str) * 3 + 1\<close> bytes and the decoded text into \<open>strlen(str) + 1\<close> bytes.
\<close>

theorem url_codec_buffers:
  "length (encode_loop (c_str s)) + 1 \<le> encode_size s \<and> length (decode_loop (c_str s)) + 1 \<le> decode_size s"
  using length_encode_loop [of "c_str s"] length_decode_loop [of "c_str s"]
  by (simp add: encode_size_def decode_size_def)

end
