(* ===== verification/Uuid_Impl.thy ===== *)
theory Uuid_Impl
  imports C_Lib
begin

text \<open>
  The representation of UUIDs, \<open>src/src/uuid/_uuid_impl.c\<close> without its generator: the struct
  \<open>_uuid_t\<close>, its packed form \<open>uuid_t\<close> (16 bytes), its text \<open>uuid_string_t\<close>, and
  comparison. C names that begin with an underscore have the prefix \<open>impl\<close> instead. Reads of a
  C string past its terminator are the value \<open>OutOfBounds\<close>. The lemmas give both round trips, the
  exact set of accepted texts, and that comparison is byte-wise comparison of the packed forms.
\<close>

section \<open>The code\<close>

record uuid_rec =
  time_low :: u32
  time_mid :: u16
  time_hi_and_version :: u16
  clock_seq_hi_and_reserved :: u8
  clock_seq_low :: u8
  node :: bytes

text \<open>\<open>sizeof(uuid_node_t)\<close> is 6 and \<open>sizeof(uuid_t)\<close> is 16.\<close>

definition wf_uuid :: "uuid_rec \<Rightarrow> bool" where
  "wf_uuid u \<longleftrightarrow> length (node u) = 6"

definition impl_uuid_pack :: "uuid_rec \<Rightarrow> bytes" where
  "impl_uuid_pack src =
     [ucast (drop_bit 24 (time_low src) AND 0xff), ucast (drop_bit 16 (time_low src) AND 0xff),
      ucast (drop_bit 8 (time_low src) AND 0xff), ucast (time_low src AND 0xff),
      ucast (drop_bit 8 (time_mid src) AND 0xff), ucast (time_mid src AND 0xff),
      ucast (drop_bit 8 (time_hi_and_version src) AND 0xff), ucast (time_hi_and_version src AND 0xff),
      clock_seq_hi_and_reserved src, clock_seq_low src] @ node src"

text \<open>One iteration of the loops of \<open>_uuid_unpack\<close>, and a loop from 0 over some bytes.\<close>

definition shift_in :: "'a::len word \<Rightarrow> u8 \<Rightarrow> 'a word" where
  "shift_in v b = push_bit 8 v + ucast b"

definition unpack_bytes :: "bytes \<Rightarrow> 'a::len word" where
  "unpack_bytes bs = foldl shift_in 0 bs"

definition impl_uuid_unpack :: "bytes \<Rightarrow> uuid_rec" where
  "impl_uuid_unpack src =
     \<lparr>time_low = unpack_bytes (take 4 src),
      time_mid = unpack_bytes (take 2 (drop 4 src)),
      time_hi_and_version = unpack_bytes (take 2 (drop 6 src)),
      clock_seq_hi_and_reserved = src ! 8,
      clock_seq_low = src ! 9,
      node = take 6 (drop 10 src)\<rparr>"

text \<open>\<open>memcmp\<close>; the C standard fixes the sign of its result only, here it is \<open>-1\<close>, 0 or 1.\<close>

fun memcmp :: "bytes \<Rightarrow> bytes \<Rightarrow> int" where
  "memcmp (x # xs) (y # ys) = (if x < y then -1 else if y < x then 1 else memcmp xs ys)"
| "memcmp _ _ = 0"

definition impl_uuid_compare :: "uuid_rec \<Rightarrow> uuid_rec \<Rightarrow> int" where
  "impl_uuid_compare u1 u2 =
     (if time_low u1 \<noteq> time_low u2 then (if time_low u1 < time_low u2 then -1 else 1)
      else if time_mid u1 \<noteq> time_mid u2 then (if time_mid u1 < time_mid u2 then -1 else 1)
      else if time_hi_and_version u1 \<noteq> time_hi_and_version u2 then
        (if time_hi_and_version u1 < time_hi_and_version u2 then -1 else 1)
      else if clock_seq_hi_and_reserved u1 \<noteq> clock_seq_hi_and_reserved u2 then
        (if clock_seq_hi_and_reserved u1 < clock_seq_hi_and_reserved u2 then -1 else 1)
      else if clock_seq_low u1 \<noteq> clock_seq_low u2 then
        (if clock_seq_low u1 < clock_seq_low u2 then -1 else 1)
      else memcmp (node u1) (node u2))"

datatype parse_error = Rejected | OutOfBounds

text \<open>Reading a C string at an index: its characters, its terminator, and nothing after that.\<close>

definition char_at :: "string \<Rightarrow> nat \<Rightarrow> char option" where
  "char_at s i = (if i < length s then Some (s ! i) else if i = length s then Some CHR 0x00 else None)"

function parse_check :: "string \<Rightarrow> nat \<Rightarrow> parse_error + unit" where
  "parse_check s i =
     (if i < 36 then
        (case char_at s i of
           None \<Rightarrow> Inl OutOfBounds
         | Some c \<Rightarrow>
             if i = 8 \<or> i = 13 \<or> i = 18 \<or> i = 23 then
               (if c = CHR ''-'' then parse_check s (Suc i) else Inl Rejected)
             else if \<not> isxdigit c then Inl Rejected
             else parse_check s (Suc i))
      else Inr ())"
  by pat_completeness auto
termination by (relation "measure (\<lambda>(s, i). 36 - i)") auto

declare parse_check.simps [simp del]

definition impl_uuid_parse :: "string \<Rightarrow> parse_error + uuid_rec" where
  "impl_uuid_parse s =
     (case parse_check s 0 of
        Inl e \<Rightarrow> Inl e
      | Inr _ \<Rightarrow> Inr
         \<lparr>time_low = ucast (strtoul16 s),
          time_mid = ucast (strtoul16 (drop 9 s)),
          time_hi_and_version = ucast (strtoul16 (drop 14 s)),
          clock_seq_hi_and_reserved = ucast (drop_bit 8 (strtoul16 (drop 19 s) AND 0xff00)),
          clock_seq_low = ucast (strtoul16 (drop 19 s) AND 0x0ff),
          node = map (\<lambda>i. ucast (strtoul16 [s ! (24 + 2 * i), s ! (25 + 2 * i)])) [0..<6]\<rparr>)"

text \<open>\<open>snprintf\<close> keeps at most \<open>sizeof(uuid_string_t) - 1\<close> characters.\<close>

definition impl_uuid_unparse :: "uuid_rec \<Rightarrow> string" where
  "impl_uuid_unparse uu = take 36
     (fmt_x 8 (unat (time_low uu)) @ ''-'' @ fmt_x 4 (unat (time_mid uu)) @ ''-''
      @ fmt_x 4 (unat (time_hi_and_version uu)) @ ''-''
      @ fmt_x 2 (unat (clock_seq_hi_and_reserved uu)) @ fmt_x 2 (unat (clock_seq_low uu)) @ ''-''
      @ fmt_x 2 (unat (node uu ! 0)) @ fmt_x 2 (unat (node uu ! 1)) @ fmt_x 2 (unat (node uu ! 2))
      @ fmt_x 2 (unat (node uu ! 3)) @ fmt_x 2 (unat (node uu ! 4)) @ fmt_x 2 (unat (node uu ! 5)))"

section \<open>Big-endian values\<close>

definition be_value :: "bytes \<Rightarrow> nat" where
  "be_value bs = foldl (\<lambda>v b. v * 256 + unat b) 0 bs"

lemma be_value_Nil [simp]: "be_value [] = 0"
  by (simp add: be_value_def)

lemma be_value_snoc [simp]: "be_value (bs @ [b]) = be_value bs * 256 + unat b"
  by (simp add: be_value_def)

lemma unat_u8_less [simp]: "unat (b :: u8) < 256"
  using unsigned_less [of b] by simp

lemma be_value_less: "be_value bs < 256 ^ length bs"
proof (induction bs rule: rev_induct)
  case (snoc b bs)
  have "be_value bs * 256 + unat b < (be_value bs + 1) * 256" by simp
  also have "\<dots> \<le> 256 ^ length bs * 256" using snoc by (intro mult_le_mono1) simp
  finally show ?case by simp
qed simp

lemma be_value_append: "be_value (xs @ ys) = be_value xs * 256 ^ length ys + be_value ys"
  by (induction ys rule: rev_induct) (simp_all add: append_assoc [symmetric] algebra_simps del: append_assoc)

lemma be_value_Cons: "be_value (x # xs) = unat x * 256 ^ length xs + be_value xs"
  using be_value_append [of "[x]" xs] by (simp add: be_value_def)

text \<open>Unpacking is the big-endian value while it fits the word.\<close>

lemma unpack_bytes_snoc: "unpack_bytes (bs @ [b]) = shift_in (unpack_bytes bs) b"
  by (simp add: unpack_bytes_def)

lemma unpack_bytes_value: "unpack_bytes bs = (of_nat (be_value bs) :: 'a::len word)"
proof (induction bs rule: rev_induct)
  case Nil
  then show ?case by (simp add: unpack_bytes_def)
next
  case (snoc b bs)
  then show ?case
    by (simp add: unpack_bytes_snoc shift_in_def push_bit_eq_mult)
qed

lemma unat_unpack_bytes:
  assumes "8 * length bs \<le> LENGTH('a)"
  shows "unat (unpack_bytes bs :: 'a::len word) = be_value bs"
proof -
  have "be_value bs < 256 ^ length bs" by (rule be_value_less)
  also have "(256::nat) ^ length bs = 2 ^ (8 * length bs)" by (simp add: power_mult)
  also have "\<dots> \<le> 2 ^ LENGTH('a)" using assms by (intro power_increasing) auto
  finally show ?thesis
    by (simp add: unpack_bytes_value unat_of_nat take_bit_nat_eq_self)
qed

lemma unat_low_byte: "unat (ucast (w AND 0xff) :: u8) = unat (w :: 'a::len word) mod 256"
proof -
  have "(0xff :: 'a word) = mask 8" by (simp add: mask_eq_exp_minus_1)
  then have "w AND 0xff = take_bit 8 w" by (simp add: take_bit_eq_mask)
  then have "unat (ucast (w AND 0xff) :: u8) = take_bit 8 (unat (take_bit 8 w))"
    by (simp add: unsigned_ucast_eq del: take_bit_eq_mask)
  also have "\<dots> = take_bit 8 (unat w)"
    by (simp add: unsigned_take_bit_eq)
  finally show ?thesis by (simp add: take_bit_eq_mod)
qed

lemma unat_drop_bit: "unat (drop_bit k w) = unat (w :: 'a::len word) div 2 ^ k"
proof -
  have "unat (drop_bit k w) = drop_bit k (unat w)"
    by (simp add: unsigned_drop_bit_eq take_bit_nat_eq_self)
  also have "\<dots> = unat w div 2 ^ k" by (rule drop_bit_eq_div)
  finally show ?thesis .
qed

lemmas pack_byte_simps = unat_low_byte unat_drop_bit

section \<open>Packing and unpacking\<close>

lemma list_of_length:
  "length xs = Suc n \<longleftrightarrow> (\<exists>y ys. xs = y # ys \<and> length ys = n)"
  by (rule length_Suc_conv)

lemma take_nth_2: "Suc i < length xs \<Longrightarrow> take 2 (drop i xs) = [xs ! i, xs ! Suc i]"
  by (simp add: numeral_2_eq_2 take_Suc_conv_app_nth)

lemma length_impl_uuid_pack [simp]: "wf_uuid u \<Longrightarrow> length (impl_uuid_pack u) = 16"
  by (simp add: impl_uuid_pack_def wf_uuid_def)

lemma wf_impl_uuid_unpack [simp]: "length b = 16 \<Longrightarrow> wf_uuid (impl_uuid_unpack b)"
  by (simp add: impl_uuid_unpack_def wf_uuid_def)

lemma be_value_4: "be_value [a, b, c, d] = ((unat a * 256 + unat b) * 256 + unat c) * 256 + unat d"
  and be_value_2: "be_value [a, b] = unat a * 256 + unat b"
  by (simp_all add: be_value_def)

lemma split_bytes_2: "x < 65536 \<Longrightarrow> x div 2 ^ 8 mod 256 * 256 + x mod 256 = (x :: nat)"
proof -
  assume "x < 65536"
  then have "x div 256 < 256" by (simp add: less_mult_imp_div_less)
  then show ?thesis by simp
qed

lemma split_bytes_4:
  assumes "x < 4294967296"
  shows "((x div 2 ^ 24 mod 256 * 256 + x div 2 ^ 16 mod 256) * 256 + x div 2 ^ 8 mod 256) * 256 + x mod 256 = (x :: nat)"
proof -
  let ?y = "x div 256 div 256"
  have e: "x div 2 ^ 24 = ?y div 2 ^ 8" "x div 2 ^ 16 = ?y" "x div 2 ^ 8 = x div 256"
    by (simp_all flip: div_mult2_eq)
  have "?y < 65536" using assms by (simp add: less_mult_imp_div_less)
  then have "?y div 2 ^ 8 mod 256 * 256 + ?y mod 256 = ?y" by (rule split_bytes_2)
  then show ?thesis unfolding e by simp
qed

lemma unpack_pack_32:
  "unpack_bytes [ucast (drop_bit 24 x AND 0xff), ucast (drop_bit 16 x AND 0xff),
     ucast (drop_bit 8 x AND 0xff), ucast (x AND 0xff)] = (x :: u32)"
proof -
  have "unat x < 4294967296" using unsigned_less [of x] by simp
  then show ?thesis
    by (simp only: unpack_bytes_value be_value_4 pack_byte_simps split_bytes_4) simp
qed

lemma unpack_pack_16:
  "unpack_bytes [ucast (drop_bit 8 x AND 0xff), ucast (x AND 0xff)] = (x :: u16)"
proof -
  have "unat x < 65536" using unsigned_less [of x] by simp
  then show ?thesis
    by (simp only: unpack_bytes_value be_value_2 pack_byte_simps split_bytes_2) simp
qed

lemma impl_uuid_unpack_pack: "wf_uuid u \<Longrightarrow> impl_uuid_unpack (impl_uuid_pack u) = u"
  by (simp add: impl_uuid_unpack_def impl_uuid_pack_def wf_uuid_def unpack_pack_32 unpack_pack_16
      numeral_2_eq_2 del: One_nat_def)

text \<open>A packed UUID is the concatenation of the bytes of its fields, so unpacking loses nothing.\<close>

lemma packed_fields:
  assumes "length b = 16"
  shows "b = take 4 b @ take 2 (drop 4 b) @ take 2 (drop 6 b) @ [b ! 8] @ [b ! 9] @ take 6 (drop 10 b)"
proof -
  have "drop 8 b = b ! 8 # b ! 9 # drop 10 b"
    using assms by (simp flip: Cons_nth_drop_Suc)
  moreover have "take 6 b = take 4 b @ take 2 (drop 4 b)" "take 8 b = take 6 b @ take 2 (drop 6 b)"
    using take_add [of 4 2 b] take_add [of 6 2 b] by simp_all
  moreover have "b = take 8 b @ drop 8 b" by simp
  moreover have "take 6 (drop 10 b) = drop 10 b" using assms by simp
  ultimately show ?thesis by (metis append_assoc append_Cons append_Nil)
qed

lemma be_value_inj: "length xs = length ys \<Longrightarrow> be_value xs = be_value ys \<Longrightarrow> xs = ys"
proof (induction xs arbitrary: ys rule: rev_induct)
  case (snoc x xs)
  then obtain y ys' where ys: "ys = ys' @ [y]" by (cases ys rule: rev_cases) auto
  with snoc.prems have eq: "be_value xs * 256 + unat x = be_value ys' * 256 + unat y" by simp
  have "be_value xs = (be_value xs * 256 + unat x) div 256" by simp
  also have "\<dots> = be_value ys'" unfolding eq by simp
  finally have "be_value xs = be_value ys'" .
  with eq snoc ys show ?case by (simp add: word_unat_eq_iff)
qed simp

lemma unpack_bytes_eq_iff:
  assumes "length bs = length cs" "8 * length bs \<le> LENGTH('a)"
  shows "unpack_bytes bs = (unpack_bytes cs :: 'a::len word) \<longleftrightarrow> bs = cs"
  by (metis assms be_value_inj unat_unpack_bytes)

lemma impl_uuid_unpack_inj:
  assumes "length a = 16" "length b = 16" "impl_uuid_unpack a = impl_uuid_unpack b"
  shows "a = b"
proof -
  have "take 4 a = take 4 b" "take 2 (drop 4 a) = take 2 (drop 4 b)"
    "take 2 (drop 6 a) = take 2 (drop 6 b)" "a ! 8 = b ! 8" "a ! 9 = b ! 9"
    "take 6 (drop 10 a) = take 6 (drop 10 b)"
    using assms by (simp_all add: impl_uuid_unpack_def unpack_bytes_eq_iff)
  then show ?thesis
    using packed_fields [OF assms(1)] packed_fields [OF assms(2)] by simp
qed

lemma impl_uuid_pack_unpack:
  assumes "length b = 16"
  shows "impl_uuid_pack (impl_uuid_unpack b) = b"
  using assms by (intro impl_uuid_unpack_inj) (simp_all add: impl_uuid_unpack_pack)

section \<open>Comparison\<close>

lemma memcmp_be_value:
  "length xs = length ys \<Longrightarrow>
   memcmp xs ys = (if be_value xs = be_value ys then 0 else if be_value xs < be_value ys then -1 else 1)"
proof (induction xs ys rule: list_induct2)
  case (Cons x xs y ys)
  have b: "be_value xs < 256 ^ length xs" "be_value ys < 256 ^ length xs"
    using be_value_less [of xs] be_value_less [of ys] Cons.hyps by simp_all
  have lt: "u * 256 ^ length xs + v < u' * 256 ^ length xs + v'"
    if "u < u'" "v < 256 ^ length xs" for u v u' v' :: nat
  proof -
    have "u * 256 ^ length xs + v < (u + 1) * 256 ^ length xs" using that(2) by simp
    also have "\<dots> \<le> u' * 256 ^ length xs" using that(1) by (intro mult_le_mono1) simp
    finally show ?thesis by simp
  qed
  consider "x < y" | "y < x" | "x = y" by fastforce
  then show ?case
  proof cases
    case 1
    with b lt [of "unat x" "unat y" "be_value xs" "be_value ys"] Cons.hyps show ?thesis
      by (simp add: be_value_Cons word_less_nat_alt)
  next
    case 2
    with b lt [of "unat y" "unat x" "be_value ys" "be_value xs"] Cons.hyps show ?thesis
      by (auto simp: be_value_Cons word_less_nat_alt)
  next
    case 3
    with Cons show ?thesis by (simp add: be_value_Cons)
  qed
qed simp

lemma memcmp_append:
  "length xs = length ys \<Longrightarrow>
   memcmp (xs @ xs') (ys @ ys') = (if xs = ys then memcmp xs' ys' else memcmp xs ys)"
  by (induction xs ys rule: list_induct2) auto

lemma memcmp_word:
  assumes "length bs = length cs" "8 * length bs \<le> LENGTH('a)"
  shows "memcmp bs cs = (if unpack_bytes bs = (unpack_bytes cs :: 'a::len word) then 0
     else if unpack_bytes bs < (unpack_bytes cs :: 'a word) then -1 else 1)"
  using assms
  by (simp add: memcmp_be_value unpack_bytes_eq_iff word_less_nat_alt unat_unpack_bytes)
    (auto dest: be_value_inj)

lemma impl_uuid_compare_memcmp:
  assumes "length a = 16" "length b = 16"
  shows "impl_uuid_compare (impl_uuid_unpack a) (impl_uuid_unpack b) = memcmp a b"
proof -
  have "memcmp a b = memcmp
      (take 4 a @ take 2 (drop 4 a) @ take 2 (drop 6 a) @ [a ! 8] @ [a ! 9] @ take 6 (drop 10 a))
      (take 4 b @ take 2 (drop 4 b) @ take 2 (drop 6 b) @ [b ! 8] @ [b ! 9] @ take 6 (drop 10 b))"
    using packed_fields [OF assms(1)] packed_fields [OF assms(2)] by simp
  moreover have "memcmp (take 4 a) (take 4 b) = (if time_low (impl_uuid_unpack a) = time_low (impl_uuid_unpack b) then 0
      else if time_low (impl_uuid_unpack a) < time_low (impl_uuid_unpack b) then -1 else 1)"
    using assms by (simp add: impl_uuid_unpack_def memcmp_word [where 'a = 32])
  moreover have "memcmp (take 2 (drop 4 a)) (take 2 (drop 4 b)) = (if time_mid (impl_uuid_unpack a) = time_mid (impl_uuid_unpack b) then 0
      else if time_mid (impl_uuid_unpack a) < time_mid (impl_uuid_unpack b) then -1 else 1)"
    using assms by (simp add: impl_uuid_unpack_def memcmp_word [where 'a = 16])
  moreover have "memcmp (take 2 (drop 6 a)) (take 2 (drop 6 b)) = (if time_hi_and_version (impl_uuid_unpack a) = time_hi_and_version (impl_uuid_unpack b) then 0
      else if time_hi_and_version (impl_uuid_unpack a) < time_hi_and_version (impl_uuid_unpack b) then -1 else 1)"
    using assms by (simp add: impl_uuid_unpack_def memcmp_word [where 'a = 16])
  ultimately show ?thesis
    using assms
    by (auto simp: impl_uuid_compare_def impl_uuid_unpack_def memcmp_append unpack_bytes_eq_iff)
qed

lemma memcmp_0_iff: "length a = length b \<Longrightarrow> memcmp a b = 0 \<longleftrightarrow> a = b"
  by (induction a b rule: list_induct2) auto

lemma memcmp_swap: "memcmp b a = - memcmp a b"
  by (induction a b rule: memcmp.induct) auto

section \<open>The text form\<close>

definition uuid_char_ok :: "nat \<Rightarrow> char \<Rightarrow> bool" where
  "uuid_char_ok i c \<longleftrightarrow> (if i = 8 \<or> i = 13 \<or> i = 18 \<or> i = 23 then c = CHR ''-'' else isxdigit c)"

text \<open>The texts \<open>%08x-%04x-%04x-%04x-%012x\<close> describes, in either case, with anything behind them.\<close>

definition uuid_text :: "string \<Rightarrow> bool" where
  "uuid_text s \<longleftrightarrow> 36 \<le> length s \<and> (\<forall>i < 36. uuid_char_ok i (s ! i))"

lemma uuid_char_ok_nul [simp]: "\<not> uuid_char_ok i CHR 0x00"
  by (simp add: uuid_char_ok_def)

lemma parse_check_step:
  "i < 36 \<Longrightarrow> parse_check s i = (case char_at s i of None \<Rightarrow> Inl OutOfBounds
     | Some c \<Rightarrow> if uuid_char_ok i c then parse_check s (Suc i) else Inl Rejected)"
  by (subst parse_check.simps) (auto simp: uuid_char_ok_def split: option.split)

lemma parse_check_done [simp]: "36 \<le> i \<Longrightarrow> parse_check s i = Inr ()"
  by (subst parse_check.simps) simp

lemma parse_check_result:
  "i \<le> length s \<Longrightarrow> parse_check s i =
     (if \<forall>j. i \<le> j \<and> j < 36 \<longrightarrow> j < length s \<and> uuid_char_ok j (s ! j) then Inr () else Inl Rejected)"
proof (induction s i rule: parse_check.induct)
  case (1 s i)
  show ?case
  proof (cases "i < 36 \<and> i < length s \<and> uuid_char_ok i (s ! i)")
    case True
    have "parse_check s (Suc i) = (if \<forall>j. Suc i \<le> j \<and> j < 36 \<longrightarrow> j < length s \<and> uuid_char_ok j (s ! j)
        then Inr () else Inl Rejected)"
      using 1 True by (cases "i = 8 \<or> i = 13 \<or> i = 18 \<or> i = 23") (auto simp: char_at_def uuid_char_ok_def)
    moreover have "parse_check s i = parse_check s (Suc i)"
      using True by (simp add: parse_check_step char_at_def)
    moreover have "(\<forall>j. i \<le> j \<and> j < 36 \<longrightarrow> j < length s \<and> uuid_char_ok j (s ! j))
        \<longleftrightarrow> (\<forall>j. Suc i \<le> j \<and> j < 36 \<longrightarrow> j < length s \<and> uuid_char_ok j (s ! j))"
      using True by (metis Suc_leD le_antisym not_less_eq_eq)
    ultimately show ?thesis by simp
  next
    case False
    show ?thesis
    proof (cases "i < 36")
      case True
      with False 1(3) have "parse_check s i = Inl Rejected"
        by (auto simp: parse_check_step char_at_def)
      moreover have "\<not> (i < length s \<and> uuid_char_ok i (s ! i))" using False True by blast
      ultimately show ?thesis using True by auto
    qed auto
  qed
qed

lemma parse_check_text: "parse_check s 0 = (if uuid_text s then Inr () else Inl Rejected)"
proof -
  have "(\<forall>j<36. j < length s \<and> uuid_char_ok j (s ! j)) \<longleftrightarrow> uuid_text s"
  proof
    assume *: "\<forall>j<36. j < length s \<and> uuid_char_ok j (s ! j)"
    then have "35 < length s" by simp
    with * show "uuid_text s" by (simp add: uuid_text_def)
  qed (auto simp: uuid_text_def)
  then show ?thesis by (simp add: parse_check_result)
qed

text \<open>The pieces of a text: \<open>m\<close> characters from position \<open>k\<close>.\<close>

definition seg :: "string \<Rightarrow> nat \<Rightarrow> nat \<Rightarrow> string" where
  "seg s k m = take m (drop k s)"

lemma length_seg: "k + m \<le> length s \<Longrightarrow> length (seg s k m) = m"
  by (simp add: seg_def)

lemma seg_split: "seg s k (m + n) = seg s k m @ seg s (k + m) n"
  by (simp add: seg_def take_add add.commute)

lemma seg_xdigits:
  assumes "uuid_text s" "k + m \<le> 36" "\<forall>i. k \<le> i \<and> i < k + m \<longrightarrow> i \<noteq> 8 \<and> i \<noteq> 13 \<and> i \<noteq> 18 \<and> i \<noteq> 23"
  shows "list_all isxdigit (seg s k m)"
proof -
  have "isxdigit (s ! (k + i))" if "i < m" for i
    using assms that by (auto simp: uuid_text_def uuid_char_ok_def)
  then show ?thesis using assms(1,2) by (simp add: seg_def uuid_text_def list_all_length)
qed

lemma seg_dash:
  assumes "uuid_text s" "k = 8 \<or> k = 13 \<or> k = 18 \<or> k = 23"
  shows "drop k s = CHR ''-'' # drop (Suc k) s"
proof -
  have "k < length s" "s ! k = CHR ''-''" using assms by (auto simp: uuid_text_def uuid_char_ok_def)
  then show ?thesis using Cons_nth_drop_Suc [of k s] by simp
qed

lemma strtoul16_seg:
  assumes s: "uuid_text s" and k: "(k, m) \<in> {(0, 8), (9, 4), (14, 4), (19, 4)}"
  shows "strtoul16 (drop k s) = of_nat (hex_value (seg s k m))"
proof -
  have "drop k s = seg s k m @ drop (k + m) s"
    unfolding seg_def by (metis append_take_drop_id drop_drop add.commute)
  moreover have "drop (k + m) s = CHR ''-'' # drop (Suc (k + m)) s"
    using k by (intro seg_dash [OF s]) auto
  moreover have "list_all isxdigit (seg s k m)" using k by (intro seg_xdigits [OF s]) auto
  moreover have "length (seg s k m) = m" using s k by (intro length_seg) (auto simp: uuid_text_def)
  moreover from this have "seg s k m \<noteq> []" using k by auto
  ultimately show ?thesis
    using k strtoul16_xdigits [of "seg s k m" "drop (k + m) s" "drop (Suc (k + m)) s"] by auto
qed

lemma seg_pair:
  assumes "Suc k < length s"
  shows "seg s k 2 = [s ! k, s ! Suc k]"
  using assms by (simp add: seg_def take_nth_2)

lemma hex_value_append: "hex_value (s @ t) = hex_value s * 16 ^ length t + hex_value t"
  by (induction t rule: rev_induct) (simp_all add: append_assoc [symmetric] algebra_simps del: append_assoc)

lemma clock_halves:
  fixes v :: nat
  assumes "v < 65536"
  shows "ucast (drop_bit 8 ((of_nat v :: u64) AND 0xff00)) = (of_nat (v div 256) :: u8)"
    and "ucast ((of_nat v :: u64) AND 0x0ff) = (of_nat (v mod 256) :: u8)"
proof -
  have v: "unat (of_nat v :: u64) = v" using assms by (simp add: unat_of_nat take_bit_nat_eq_self)
  have "drop_bit 8 ((of_nat v :: u64) AND 0xff00) = drop_bit 8 (of_nat v) AND 0xff"
    by (simp add: drop_bit_and)
  then have "unat (ucast (drop_bit 8 ((of_nat v :: u64) AND 0xff00)) :: u8) = v div 256 mod 256"
    by (simp add: pack_byte_simps v del: drop_bit_of_nat)
  also have "\<dots> = v div 256" using assms by (simp add: less_mult_imp_div_less)
  finally show "ucast (drop_bit 8 ((of_nat v :: u64) AND 0xff00)) = (of_nat (v div 256) :: u8)"
    by (metis of_nat_unat ucast_id)
  have "unat (ucast ((of_nat v :: u64) AND 0x0ff) :: u8) = v mod 256"
    using unat_low_byte [of "of_nat v :: u64"] v by simp
  then show "ucast ((of_nat v :: u64) AND 0x0ff) = (of_nat (v mod 256) :: u8)"
    by (metis of_nat_unat ucast_id)
qed

lemma ucast_of_nat_down: "LENGTH('b) \<le> LENGTH('a) \<Longrightarrow> ucast (of_nat v :: 'a::len word) = (of_nat v :: 'b::len word)"
  by (rule bit_word_eqI) (simp add: bit_simps)

lemma impl_uuid_parse_text:
  assumes "uuid_text s"
  shows "impl_uuid_parse s = Inr
    \<lparr>time_low = of_nat (hex_value (seg s 0 8)), time_mid = of_nat (hex_value (seg s 9 4)),
     time_hi_and_version = of_nat (hex_value (seg s 14 4)),
     clock_seq_hi_and_reserved = of_nat (hex_value (seg s 19 2)),
     clock_seq_low = of_nat (hex_value (seg s 21 2)),
     node = map (\<lambda>i. of_nat (hex_value (seg s (24 + 2 * i) 2))) [0..<6]\<rparr>"
proof -
  have len: "36 \<le> length s" using assms by (simp add: uuid_text_def)
  have c: "seg s 19 4 = seg s 19 2 @ seg s 21 2" using seg_split [of s 19 2 2] by simp
  have x: "list_all isxdigit (seg s 19 4)" by (rule seg_xdigits [OF assms]) auto
  then have "hex_value (seg s 19 4) < 16 ^ length (seg s 19 4)" by (rule hex_value_less)
  then have v: "hex_value (seg s 19 4) < 65536" using len by (simp add: length_seg)
  have "list_all isxdigit (seg s 21 2)" using x by (simp add: c)
  then have "hex_value (seg s 21 2) < 16 ^ length (seg s 21 2)" by (rule hex_value_less)
  then have "hex_value (seg s 21 2) < 256" using len by (simp add: length_seg)
  moreover have "hex_value (seg s 19 4) = hex_value (seg s 19 2) * 256 + hex_value (seg s 21 2)"
    using len by (simp add: c hex_value_append length_seg)
  ultimately have h: "hex_value (seg s 19 4) div 256 = hex_value (seg s 19 2)"
    "hex_value (seg s 19 4) mod 256 = hex_value (seg s 21 2)" by auto
  have n: "strtoul16 [s ! (24 + 2 * i), s ! (25 + 2 * i)] = of_nat (hex_value (seg s (24 + 2 * i) 2))"
    if "i < 6" for i
  proof -
    have "seg s (24 + 2 * i) 2 = [s ! (24 + 2 * i), s ! (25 + 2 * i)]"
      using that len by (subst seg_pair) auto
    moreover have "list_all isxdigit (seg s (24 + 2 * i) 2)"
      using that by (intro seg_xdigits [OF assms]) auto
    ultimately show ?thesis using strtoul16_xdigits [of "seg s (24 + 2 * i) 2" "[]"] by simp
  qed
  then have nodes: "map (\<lambda>i. ucast (strtoul16 [s ! (24 + 2 * i), s ! (25 + 2 * i)]) :: u8) [0..<6]
      = map (\<lambda>i. of_nat (hex_value (seg s (24 + 2 * i) 2))) [0..<6]"
    by (intro map_cong) (auto simp: n ucast_of_nat_down)
  have low: "(ucast (strtoul16 s) :: u32) = of_nat (hex_value (seg s 0 8))"
    using strtoul16_seg [OF assms, of 0 8] by (simp add: ucast_of_nat_down)
  have mid: "(ucast (strtoul16 (drop 9 s)) :: u16) = of_nat (hex_value (seg s 9 4))"
    "(ucast (strtoul16 (drop 14 s)) :: u16) = of_nat (hex_value (seg s 14 4))"
    using strtoul16_seg [OF assms, of 9 4] strtoul16_seg [OF assms, of 14 4]
    by (simp_all add: ucast_of_nat_down)
  have clock: "strtoul16 (drop 19 s) = of_nat (hex_value (seg s 19 4))"
    by (rule strtoul16_seg [OF assms]) simp
  show ?thesis
    unfolding impl_uuid_parse_def parse_check_text clock clock_halves [OF v] h nodes low mid
    using assms by simp
qed

text \<open>The text \<open>snprintf\<close> produces, before truncation: exactly 36 characters.\<close>

lemma fmt_x_word:
  assumes "LENGTH('a) = 4 * w" "0 < w"
  shows "fmt_x w (unat (x :: 'a::len word)) = hex_fixed w (unat x)"
proof -
  have "unat x < 2 ^ LENGTH('a)" by (rule unsigned_less)
  also have "(2::nat) ^ LENGTH('a) = 16 ^ w" by (simp add: assms(1) power_mult)
  finally show ?thesis using assms(2) by (rule hex_digits_fixed)
qed

lemma impl_uuid_unparse_hex:
  "impl_uuid_unparse u =
     hex_fixed 8 (unat (time_low u)) @ ''-'' @ hex_fixed 4 (unat (time_mid u)) @ ''-''
     @ hex_fixed 4 (unat (time_hi_and_version u)) @ ''-''
     @ hex_fixed 2 (unat (clock_seq_hi_and_reserved u)) @ hex_fixed 2 (unat (clock_seq_low u)) @ ''-''
     @ hex_fixed 2 (unat (node u ! 0)) @ hex_fixed 2 (unat (node u ! 1)) @ hex_fixed 2 (unat (node u ! 2))
     @ hex_fixed 2 (unat (node u ! 3)) @ hex_fixed 2 (unat (node u ! 4)) @ hex_fixed 2 (unat (node u ! 5))"
  unfolding impl_uuid_unparse_def by (simp add: fmt_x_word)

lemma length_impl_uuid_unparse: "length (impl_uuid_unparse u) = 36"
  by (simp add: impl_uuid_unparse_hex)

lemma hex_word_roundtrip:
  assumes "LENGTH('a) = 4 * w"
  shows "of_nat (hex_value (hex_fixed w (unat x))) = (x :: 'a::len word)"
proof -
  have "unat x < 2 ^ LENGTH('a)" by (rule unsigned_less)
  also have "(2::nat) ^ LENGTH('a) = 16 ^ w" by (simp add: assms power_mult)
  finally show ?thesis by (simp add: hex_value_fixed)
qed

lemma hex_text_roundtrip:
  assumes "list_all isxdigit s" "LENGTH('a) = 4 * length s"
  shows "hex_fixed (length s) (unat (of_nat (hex_value s) :: 'a::len word)) = map tolower s"
proof -
  have "hex_value s < 16 ^ length s" by (rule hex_value_less [OF assms(1)])
  also have "(16::nat) ^ length s = 2 ^ LENGTH('a)" by (simp add: assms(2) power_mult)
  finally have "unat (of_nat (hex_value s) :: 'a word) = hex_value s"
    by (simp add: unat_of_nat take_bit_nat_eq_self)
  then show ?thesis using hex_fixed_value [OF assms(1)] by simp
qed

lemma seg_dash1: "uuid_text s \<Longrightarrow> k = 8 \<or> k = 13 \<or> k = 18 \<or> k = 23 \<Longrightarrow> seg s k 1 = ''-''"
  using seg_dash [of s k] by (simp add: seg_def)

lemma uuid_text_pieces:
  assumes "uuid_text s"
  shows "take 36 s = seg s 0 8 @ ''-'' @ seg s 9 4 @ ''-'' @ seg s 14 4 @ ''-'' @ seg s 19 2 @ seg s 21 2
     @ ''-'' @ seg s 24 2 @ seg s 26 2 @ seg s 28 2 @ seg s 30 2 @ seg s 32 2 @ seg s 34 2"
proof -
  have 1: "take 36 s = seg s 0 8 @ seg s 8 1 @ seg s 9 4 @ seg s 13 1 @ seg s 14 22"
    using seg_split [of s 0 8 28] seg_split [of s 8 1 27] seg_split [of s 9 4 23] seg_split [of s 13 1 22]
    by (simp add: seg_def)
  have 2: "seg s 14 22 = seg s 14 4 @ seg s 18 1 @ seg s 19 2 @ seg s 21 2 @ seg s 23 1 @ seg s 24 12"
    using seg_split [of s 14 4 18] seg_split [of s 18 1 17] seg_split [of s 19 2 15]
      seg_split [of s 21 2 13] seg_split [of s 23 1 12] by simp
  have 3: "seg s 24 12 = seg s 24 2 @ seg s 26 2 @ seg s 28 2 @ seg s 30 2 @ seg s 32 2 @ seg s 34 2"
    using seg_split [of s 24 2 10] seg_split [of s 26 2 8] seg_split [of s 28 2 6]
      seg_split [of s 30 2 4] seg_split [of s 32 2 2] by simp
  have d: "seg s 8 1 = ''-''" "seg s 13 1 = ''-''" "seg s 18 1 = ''-''" "seg s 23 1 = ''-''"
    by (rule seg_dash1 [OF assms], simp)+
  show ?thesis unfolding 1 2 3 d by simp
qed

lemma seg_text_roundtrip:
  assumes "uuid_text s" "k + m \<le> 36" "LENGTH('a) = 4 * m"
    "\<forall>i. k \<le> i \<and> i < k + m \<longrightarrow> i \<noteq> 8 \<and> i \<noteq> 13 \<and> i \<noteq> 18 \<and> i \<noteq> 23"
  shows "hex_fixed m (unat (of_nat (hex_value (seg s k m)) :: 'a::len word)) = map tolower (seg s k m)"
proof -
  have "length (seg s k m) = m" using assms(1,2) by (intro length_seg) (simp add: uuid_text_def)
  moreover have "list_all isxdigit (seg s k m)" using assms by (intro seg_xdigits)
  ultimately show ?thesis using hex_text_roundtrip [of "seg s k m", where 'a = 'a] assms(3) by simp
qed

lemma impl_uuid_unparse_parse:
  assumes "impl_uuid_parse s = Inr u"
  shows "impl_uuid_unparse u = map tolower (take 36 s)"
proof -
  have s: "uuid_text s"
    using assms by (simp add: impl_uuid_parse_def parse_check_text split: if_splits)
  note r = seg_text_roundtrip [OF s]
  have "tolower CHR ''-'' = CHR ''-''" by (simp add: ctype_defs)
  moreover have "time_low u = of_nat (hex_value (seg s 0 8))"
    "time_mid u = of_nat (hex_value (seg s 9 4))" "time_hi_and_version u = of_nat (hex_value (seg s 14 4))"
    "clock_seq_hi_and_reserved u = of_nat (hex_value (seg s 19 2))"
    "clock_seq_low u = of_nat (hex_value (seg s 21 2))"
    using assms by (auto simp: impl_uuid_parse_text [OF s])
  moreover have "node u ! i = of_nat (hex_value (seg s (24 + 2 * i) 2))" if "i < 6" for i
    using assms that by (auto simp: impl_uuid_parse_text [OF s])
  ultimately show ?thesis
    by (simp add: impl_uuid_unparse_hex uuid_text_pieces [OF s] r)
qed

lemma parse_check_digits:
  assumes "list_all isxdigit h" "i = length pre" "i + length h \<le> 36"
    "\<forall>j. i \<le> j \<and> j < i + length h \<longrightarrow> j \<noteq> 8 \<and> j \<noteq> 13 \<and> j \<noteq> 18 \<and> j \<noteq> 23"
  shows "parse_check (pre @ h @ t) i = parse_check (pre @ h @ t) (i + length h)"
  using assms
proof (induction h arbitrary: pre i)
  case (Cons c h)
  have "parse_check (pre @ (c # h) @ t) i = parse_check (pre @ (c # h) @ t) (Suc i)"
    using Cons.prems by (auto simp: parse_check_step char_at_def uuid_char_ok_def nth_append)
  also have "\<dots> = parse_check ((pre @ [c]) @ h @ t) (Suc i)" by simp
  also have "\<dots> = parse_check ((pre @ [c]) @ h @ t) (Suc i + length h)"
    using Cons.prems by (intro Cons.IH) auto
  finally show ?case by simp
qed simp

lemma parse_check_dash:
  assumes "i = length pre" "i = 8 \<or> i = 13 \<or> i = 18 \<or> i = 23"
  shows "parse_check (pre @ CHR ''-'' # t) i = parse_check (pre @ CHR ''-'' # t) (Suc i)"
  using assms by (auto simp: parse_check_step char_at_def uuid_char_ok_def nth_append)

lemma uuid_text_concat:
  assumes "length a = 8" "length b = 4" "length c = 4" "length d = 4" "length e = 12"
    and "list_all isxdigit a" "list_all isxdigit b" "list_all isxdigit c" "list_all isxdigit d" "list_all isxdigit e"
  shows "uuid_text (a @ CHR ''-'' # b @ CHR ''-'' # c @ CHR ''-'' # d @ CHR ''-'' # e)" (is "uuid_text ?s")
proof -
  have "parse_check ?s 0 = parse_check ?s 8"
    using parse_check_digits [of a 0 "[]"] assms by simp
  also have "\<dots> = parse_check ?s 9"
    using parse_check_dash [of 8 a] assms by simp
  also have "\<dots> = parse_check ?s 13"
    using parse_check_digits [of b 9 "a @ ''-''" "CHR ''-'' # c @ CHR ''-'' # d @ CHR ''-'' # e"] assms by simp
  also have "\<dots> = parse_check ?s 14"
    using parse_check_dash [of 13 "a @ ''-'' @ b"] assms by simp
  also have "\<dots> = parse_check ?s 18"
    using parse_check_digits [of c 14 "a @ ''-'' @ b @ ''-''" "CHR ''-'' # d @ CHR ''-'' # e"] assms by simp
  also have "\<dots> = parse_check ?s 19"
    using parse_check_dash [of 18 "a @ ''-'' @ b @ ''-'' @ c"] assms by simp
  also have "\<dots> = parse_check ?s 23"
    using parse_check_digits [of d 19 "a @ ''-'' @ b @ ''-'' @ c @ ''-''" "CHR ''-'' # e"] assms by simp
  also have "\<dots> = parse_check ?s 24"
    using parse_check_dash [of 23 "a @ ''-'' @ b @ ''-'' @ c @ ''-'' @ d"] assms by simp
  also have "\<dots> = parse_check ?s 36"
    using parse_check_digits [of e 24 "a @ ''-'' @ b @ ''-'' @ c @ ''-'' @ d @ ''-''" "[]"] assms by simp
  finally show ?thesis by (simp add: parse_check_text split: if_splits)
qed

lemma list_all_hex_fixed [simp]: "list_all isxdigit (hex_fixed w n)"
  by (simp add: list_all_iff hex_fixed_xdigits)

lemma uuid_text_unparse: "uuid_text (impl_uuid_unparse u)"
  using uuid_text_concat [of "hex_fixed 8 (unat (time_low u))" "hex_fixed 4 (unat (time_mid u))"
      "hex_fixed 4 (unat (time_hi_and_version u))"
      "hex_fixed 2 (unat (clock_seq_hi_and_reserved u)) @ hex_fixed 2 (unat (clock_seq_low u))"
      "hex_fixed 2 (unat (node u ! 0)) @ hex_fixed 2 (unat (node u ! 1)) @ hex_fixed 2 (unat (node u ! 2))
       @ hex_fixed 2 (unat (node u ! 3)) @ hex_fixed 2 (unat (node u ! 4)) @ hex_fixed 2 (unat (node u ! 5))"]
  by (simp add: impl_uuid_unparse_hex)

lemma impl_uuid_parse_unparse:
  assumes "wf_uuid u"
  shows "impl_uuid_parse (impl_uuid_unparse u) = Inr u"
proof -
  obtain n0 n1 n2 n3 n4 n5 where "node u = [n0, n1, n2, n3, n4, n5]"
    using assms by (auto simp: wf_uuid_def length_Suc_conv eval_nat_numeral)
  then show ?thesis
    unfolding impl_uuid_parse_text [OF uuid_text_unparse]
    by (simp add: seg_def impl_uuid_unparse_hex hex_word_roundtrip upt_rec)
qed

end
