(* ===== verification/Uuid.thy ===== *)
theory Uuid
  imports Uuid_Impl
begin

text \<open>
  The UUID generator and the interface of the library: \<open>_uuid_time.c\<close>, \<open>_uuid_clock.c\<close>,
  \<open>_uuid_node.c\<close> (the branch for systems other than macOS), \<open>_uuid_generate\<close> of
  \<open>_uuid_impl.c\<close>, and \<open>uuid.c\<close>, all under \<open>src/src/uuid\<close>. What the operating system
  answers (time of day, \<open>/dev/urandom\<close>, process id, the interface list) is an argument of the
  definitions. The static variables of \<open>_uuid_get_clock\<close> are the record \<open>clock_state\<close>. A failed
  \<open>assert\<close> is the value \<open>None\<close>.
\<close>

section \<open>Time\<close>

definition time_offset :: u64 where
  "time_offset = 0x01b21dd213814000"

text \<open>\<open>gettimeofday\<close> gives seconds and microseconds, or fails (\<open>None\<close>).\<close>

definition uutime_of :: "u64 \<Rightarrow> u64 \<Rightarrow> u64" where
  "uutime_of tv_sec tv_usec = time_offset + (tv_usec * 10 + tv_sec * 10000000)"

definition impl_uuid_get_time :: "(u64 \<times> u64) option \<Rightarrow> (u32 \<times> u16 \<times> u16) option" where
  "impl_uuid_get_time tod =
     (case tod of None \<Rightarrow> None
      | Some (tv_sec, tv_usec) \<Rightarrow>
         (let t0 = uutime_of tv_sec tv_usec; t1 = drop_bit 32 t0; t2 = drop_bit 16 t1
          in Some (ucast (t0 AND 0xffffffff), ucast (t1 AND 0xffff), ucast (t2 AND 0x0fff))))"

section \<open>Clock sequence\<close>

record clock_state =
  is_initialized :: bool
  seq :: u64

definition clock_init :: clock_state where
  "clock_init = \<lparr>is_initialized = False, seq = 0\<rparr>"

text \<open>
  The two bytes of \<open>/dev/urandom\<close>, when it opens and gives two; otherwise the seed of
  \<open>srandom\<close> is made of the process id and the time, and \<open>rnd\<close> is what \<open>random\<close> answers
  first after that seed. The bytes are read through \<open>char\<close>, which is signed.
\<close>

record clock_env =
  urandom :: "(u8 \<times> u8) option"
  getpid :: u32
  time_now :: u32

definition clock_seed :: "clock_env \<Rightarrow> u32" where
  "clock_seed e = push_bit 16 (getpid e) XOR getpid e XOR time_now e"

definition impl_uuid_get_clock :: "(u32 \<Rightarrow> u64) \<Rightarrow> clock_env \<Rightarrow> clock_state \<Rightarrow> clock_state \<times> u8 \<times> u8" where
  "impl_uuid_get_clock rnd e st =
     (let sq = (if \<not> is_initialized st then
                  (case urandom e of
                     None \<Rightarrow> rnd (clock_seed e)
                   | Some (b0, b1) \<Rightarrow> push_bit 8 (scast b0) + scast b1)
                else seq st + 1)
      in (\<lparr>is_initialized = True, seq = sq\<rparr>, ucast (sq AND 0xff), ucast (drop_bit 8 sq AND 0x3f)))"

section \<open>Node\<close>

text \<open>
  The answer of \<open>SIOCGIFCONF\<close> is a list of interface names with their address family (at most
  \<open>MAX_IFS\<close> of them), that of \<open>SIOCGIFHWADDR\<close> the 14 bytes of \<open>sa_data\<close> for a name.
\<close>

record node_env =
  socket_ok :: bool
  ifconf :: "(string \<times> nat) list option"
  hwaddr :: "string \<Rightarrow> bytes option"

definition af_inet :: nat where
  "af_inet = 2"

definition is_loopback_name :: "string \<Rightarrow> bool" where
  "is_loopback_name name \<longleftrightarrow> map tolower (take 2 name) = ''lo''"

fun find_node :: "(string \<Rightarrow> bytes option) \<Rightarrow> (string \<times> nat) list \<Rightarrow> bytes option" where
  "find_node hw [] = None"
| "find_node hw ((name, family) # ifs) =
     (if family = af_inet \<and> \<not> is_loopback_name name then map_option (take 6) (hw name)
      else find_node hw ifs)"

definition impl_uuid_get_node :: "node_env \<Rightarrow> bytes option" where
  "impl_uuid_get_node e =
     (if \<not> socket_ok e then None
      else case ifconf e of None \<Rightarrow> None | Some ifs \<Rightarrow> find_node (hwaddr e) ifs)"

section \<open>Generation\<close>

record gen_env =
  nodes :: node_env
  tod :: "(u64 \<times> u64) option"
  clock :: clock_env
  lock_ok :: bool

datatype gen_result = Aborted | Failed | Generated uuid_rec

definition impl_uuid_generate :: "(u32 \<Rightarrow> u64) \<Rightarrow> gen_env \<Rightarrow> clock_state \<Rightarrow> clock_state \<times> gen_result" where
  "impl_uuid_generate rnd e st =
     (case impl_uuid_get_node (nodes e) of
        None \<Rightarrow> (st, Failed)
      | Some nd \<Rightarrow>
         (case impl_uuid_get_time (tod e) of
            None \<Rightarrow> (st, Aborted)
          | Some (lo, mid, hi) \<Rightarrow>
             (case impl_uuid_get_clock rnd (clock e) st of
                (st', sl, sh) \<Rightarrow>
                  (st', Generated \<lparr>time_low = lo, time_mid = mid, time_hi_and_version = hi OR 0x1000,
                          clock_seq_hi_and_reserved = sh OR 0x80, clock_seq_low = sl, node = nd\<rparr>))))"

definition uuid_clear :: bytes where
  "uuid_clear = replicate 16 0"

definition uuid_compare :: "bytes \<Rightarrow> bytes \<Rightarrow> int" where
  "uuid_compare uu1 uu2 = impl_uuid_compare (impl_uuid_unpack uu1) (impl_uuid_unpack uu2)"

definition uuid_copy :: "bytes \<Rightarrow> bytes" where
  "uuid_copy src = take 16 src"

definition uuid_generate :: "(u32 \<Rightarrow> u64) \<Rightarrow> gen_env \<Rightarrow> clock_state \<Rightarrow> (clock_state \<times> bytes) option" where
  "uuid_generate rnd e st =
     (if \<not> lock_ok e then Some (st, uuid_clear)
      else case impl_uuid_generate rnd e st of
             (st', Aborted) \<Rightarrow> None
           | (st', Failed) \<Rightarrow> Some (st', uuid_clear)
           | (st', Generated u) \<Rightarrow> Some (st', impl_uuid_pack u))"

fun all_zero :: "bytes \<Rightarrow> bool" where
  "all_zero [] = True"
| "all_zero (b # bs) = (if b \<noteq> 0 then False else all_zero bs)"

definition uuid_is_null :: "bytes \<Rightarrow> bool" where
  "uuid_is_null uu = all_zero (take 16 uu)"

definition uuid_parse :: "string \<Rightarrow> parse_error + bytes" where
  "uuid_parse s = (case impl_uuid_parse s of Inl e \<Rightarrow> Inl e | Inr u \<Rightarrow> Inr (impl_uuid_pack u))"

definition uuid_unparse :: "bytes \<Rightarrow> string" where
  "uuid_unparse uu = impl_uuid_unparse (impl_uuid_unpack uu)"

text \<open>A program that generates one UUID after the other; it stops where an assertion fails.\<close>

fun generate_all :: "(u32 \<Rightarrow> u64) \<Rightarrow> gen_env list \<Rightarrow> clock_state \<Rightarrow> bytes list" where
  "generate_all rnd [] st = []"
| "generate_all rnd (e # es) st =
     (case uuid_generate rnd e st of None \<Rightarrow> [] | Some (st', uu) \<Rightarrow> uu # generate_all rnd es st')"

text \<open>The kernel's answer to \<open>SIOCGIFHWADDR\<close> is a \<open>struct sockaddr\<close>: 14 bytes of data.\<close>

definition hw_ok :: "gen_env \<Rightarrow> bool" where
  "hw_ok e \<longleftrightarrow> (\<forall>name b. hwaddr (nodes e) name = Some b \<longrightarrow> length b = 14)"

section \<open>Lemmas\<close>

lemma all_zero_iff: "all_zero bs \<longleftrightarrow> (\<forall>b \<in> set bs. b = 0)"
  by (induction bs) auto

lemma uuid_is_null_clear [simp]: "uuid_is_null uuid_clear"
  by (simp add: uuid_is_null_def uuid_clear_def all_zero_iff)

lemma impl_uuid_get_node_length:
  assumes "hw_ok e" "impl_uuid_get_node (nodes e) = Some nd"
  shows "length nd = 6"
proof -
  have "find_node hw ifs = Some nd \<Longrightarrow> \<forall>name b. hw name = Some b \<longrightarrow> length b = 14 \<Longrightarrow> length nd = 6"
    for hw ifs by (induction hw ifs rule: find_node.induct) (auto split: if_splits)
  then show ?thesis
    using assms by (auto simp: impl_uuid_get_node_def hw_ok_def split: if_splits option.splits)
qed

text \<open>The bits the generator sets, read from the packed bytes.\<close>

lemma and_0x3f_or_0x80: "((h AND 0x3f) OR 0x80) AND 0x3f = (h AND 0x3f :: u8)"
  by (rule bit_word_eqI, drule less_8_cases, elim insertE) (simp_all add: bit_simps)

lemma variant_bits: "drop_bit 6 ((h AND 0x3f) OR 0x80 :: u8) = 2"
  by (rule bit_word_eqI, drule less_8_cases, elim insertE) (simp_all add: bit_simps)

lemma version_bits: "drop_bit 4 (ucast (drop_bit 8 ((t AND 0x0fff) OR 0x1000 :: u16) AND 0xff) :: u8) = 1"
  by (rule bit_word_eqI, drule less_8_cases, elim insertE) (simp_all add: bit_simps)

lemma ucast_mask: "(ucast (w AND 0x3f) :: u8) AND 0x3f = ucast (w AND 0x3f :: u64)"
  "(ucast (v AND 0x0fff) :: u16) AND 0x0fff = ucast (v AND 0x0fff :: u64)"
  by (rule bit_word_eqI; simp add: bit_simps; blast)+

lemma unat_six_bits: "unat (ucast (w AND 0x3f) :: u8) = unat (w :: u64) mod 64"
proof -
  have "(0x3f :: u64) = mask 6" by (simp add: mask_eq_exp_minus_1)
  then have "w AND 0x3f = take_bit 6 w" by (simp add: take_bit_eq_mask)
  then have "unat (ucast (w AND 0x3f) :: u8) = take_bit 8 (unat (take_bit 6 w))"
    by (simp add: unsigned_ucast_eq)
  also have "\<dots> = take_bit 6 (unat w)"
    by (simp add: unsigned_take_bit_eq)
  finally show ?thesis by (simp add: take_bit_eq_mod)
qed

text \<open>The 14 bits of the clock sequence in a packed UUID.\<close>

definition clock_of :: "bytes \<Rightarrow> nat" where
  "clock_of b = unat (b ! 9) + 256 * unat (b ! 8 AND 0x3f)"

text \<open>What a successful generation returns.\<close>

definition generated_ok :: "bytes \<Rightarrow> bool" where
  "generated_ok b \<longleftrightarrow> length b = 16 \<and> drop_bit 4 (b ! 6) = 1 \<and> drop_bit 6 (b ! 8) = 2"

lemma generated_ok_not_null:
  assumes "generated_ok b"
  shows "\<not> uuid_is_null b"
proof
  assume "uuid_is_null b"
  with assms have "b ! 6 = 0" by (auto simp: generated_ok_def uuid_is_null_def all_zero_iff)
  with assms show False by (simp add: generated_ok_def)
qed

lemma split_clock: "n mod 256 + 256 * (n div 256 mod 64) = n mod (16384 :: nat)"
  using mod_mult2_eq [of n 256 64] by simp

lemma impl_uuid_generate_Generated:
  assumes "hw_ok e" "impl_uuid_generate rnd e st = (st', Generated u)"
  shows "generated_ok (impl_uuid_pack u) \<and> clock_of (impl_uuid_pack u) = unat (seq st') mod 16384
     \<and> is_initialized st' \<and> (is_initialized st \<longrightarrow> seq st' = seq st + 1)"
proof -
  from assms(2) obtain nd lo mid hi sl sh where
    nd: "impl_uuid_get_node (nodes e) = Some nd" and
    tm: "impl_uuid_get_time (tod e) = Some (lo, mid, hi)" and
    ck: "impl_uuid_get_clock rnd (clock e) st = (st', sl, sh)" and
    u: "u = \<lparr>time_low = lo, time_mid = mid, time_hi_and_version = hi OR 0x1000,
       clock_seq_hi_and_reserved = sh OR 0x80, clock_seq_low = sl, node = nd\<rparr>"
    by (auto simp: impl_uuid_generate_def split: option.splits prod.splits)
  have len: "length nd = 6" using impl_uuid_get_node_length [OF assms(1) nd] .
  have sl: "sl = ucast (seq st' AND 0xff)" and sh: "sh = ucast (drop_bit 8 (seq st') AND 0x3f)"
    and init: "is_initialized st'" "is_initialized st \<longrightarrow> seq st' = seq st + 1"
    using ck by (auto simp: impl_uuid_get_clock_def Let_def)
  obtain t where "hi = ucast (t AND 0x0fff :: u64)"
    using tm by (auto simp: impl_uuid_get_time_def Let_def split: option.splits)
  then have hi: "hi = hi AND 0x0fff" by (simp only: ucast_mask)
  have sh6: "sh = sh AND 0x3f" using sh by (simp only: ucast_mask)
  have "drop_bit 4 (impl_uuid_pack u ! 6) = 1"
    using version_bits [of hi] hi by (simp add: u impl_uuid_pack_def del: drop_bit_and drop_bit_or)
  moreover have "drop_bit 6 (impl_uuid_pack u ! 8) = 2"
    using variant_bits [of sh] sh6 by (simp add: u impl_uuid_pack_def del: drop_bit_and drop_bit_or)
  moreover have "clock_of (impl_uuid_pack u) = unat sl + 256 * unat (sh AND 0x3f)"
    using and_0x3f_or_0x80 [of sh] sh6 by (simp add: u impl_uuid_pack_def clock_of_def)
  moreover have "unat (sh AND 0x3f) = unat (seq st') div 256 mod 64"
    unfolding sh6 [symmetric] unfolding sh unat_six_bits unat_drop_bit by simp
  ultimately show ?thesis
    using init len split_clock [of "unat (seq st')"]
    by (simp add: generated_ok_def u impl_uuid_pack_def sl pack_byte_simps)
qed

lemma uuid_generate_cases:
  assumes "hw_ok e" "uuid_generate rnd e st = Some (st', b)"
  shows "(b = uuid_clear \<and> st' = st) \<or>
    (generated_ok b \<and> clock_of b = unat (seq st') mod 16384 \<and> is_initialized st'
      \<and> (is_initialized st \<longrightarrow> seq st' = seq st + 1))"
proof (cases "lock_ok e")
  case True
  obtain s r where g: "impl_uuid_generate rnd e st = (s, r)" by fastforce
  show ?thesis
  proof (cases r)
    case Failed
    with g have "s = st" by (auto simp: impl_uuid_generate_def split: option.splits prod.splits)
    with assms(2) True g Failed show ?thesis by (simp add: uuid_generate_def)
  next
    case (Generated u)
    with assms(2) True g impl_uuid_generate_Generated [OF assms(1), of rnd st s u]
    show ?thesis by (simp add: uuid_generate_def)
  qed (use assms(2) True g in \<open>simp add: uuid_generate_def\<close>)
qed (use assms(2) in \<open>simp add: uuid_generate_def\<close>)

text \<open>The UUIDs of a run that were really generated.\<close>

definition generated :: "bytes list \<Rightarrow> bytes list" where
  "generated bs = filter (\<lambda>b. \<not> uuid_is_null b) bs"

lemma seq_add_mod: "unat (w + of_nat k :: u64) mod 16384 = (unat w + k) mod 16384"
proof -
  have "unat (w + of_nat k) = (unat w + k) mod 2 ^ 64"
    by (simp add: unat_word_ariths unat_of_nat take_bit_eq_mod mod_add_right_eq)
  then show ?thesis by (simp add: mod_mod_cancel)
qed

lemma seq_step_mod: "(unat (w + 1 :: u64) + n) mod 16384 = (unat w + (n + 1)) mod 16384"
proof -
  have "(unat (w + 1) + n) mod 16384 = (unat (w + 1) mod 16384 + n) mod 16384"
    by (simp add: mod_add_left_eq)
  also have "unat (w + 1) mod 16384 = (unat w + 1) mod 16384" using seq_add_mod [of w 1] by simp
  also have "((unat w + 1) mod 16384 + n) mod 16384 = (unat w + 1 + n) mod 16384"
    by (simp add: mod_add_left_eq)
  finally show ?thesis by (simp add: ac_simps)
qed

lemma upt_shift: "0 # map Suc [0..<n] = [0..<Suc n]"
  by (simp add: map_Suc_upt upt_conv_Cons del: upt_Suc)

lemma generate_all_clock:
  "\<forall>e \<in> set es. hw_ok e \<Longrightarrow> is_initialized st \<Longrightarrow>
   map clock_of (generated (generate_all rnd es st)) =
     map (\<lambda>k. (unat (seq st) + 1 + k) mod 16384) [0..<length (generated (generate_all rnd es st))]"
proof (induction es arbitrary: st)
  case (Cons e es)
  show ?case
  proof (cases "uuid_generate rnd e st")
    case (Some r)
    obtain st' b where r: "r = (st', b)" by (cases r)
    consider "b = uuid_clear" "st' = st"
      | "generated_ok b" "clock_of b = unat (seq st') mod 16384" "is_initialized st'" "seq st' = seq st + 1"
      using uuid_generate_cases [of e rnd st st' b] Cons.prems Some r by auto
    then show ?thesis
    proof cases
      case 1
      then show ?thesis using Cons Some r by (simp add: generated_def)
    next
      case 2
      let ?n = "length (generated (generate_all rnd es st'))"
      have "map clock_of (generated (generate_all rnd (e # es) st))
          = clock_of b # map (\<lambda>k. (unat (seq st') + 1 + k) mod 16384) [0..<?n]"
        using Cons.IH [of st'] Cons.prems 2 Some r generated_ok_not_null [OF 2(1)]
        by (simp add: generated_def)
      also have "\<dots> = map (\<lambda>k. (unat (seq st) + 1 + k) mod 16384) (0 # map Suc [0..<?n])"
        using seq_step_mod [of "seq st" 0] seq_step_mod [of "seq st" "Suc k" for k] by (simp add: 2)
      also have "0 # map Suc [0..<?n] = [0..<Suc ?n]" by (rule upt_shift)
      finally show ?thesis
        using Some r generated_ok_not_null [OF 2(1)] by (simp add: generated_def)
    qed
  qed (simp add: generated_def)
qed (simp add: generated_def)

lemma generate_all_clock_any:
  "\<forall>e \<in> set es. hw_ok e \<Longrightarrow>
   \<exists>c. map clock_of (generated (generate_all rnd es st)) =
     map (\<lambda>k. (c + k) mod 16384) [0..<length (generated (generate_all rnd es st))]"
proof (induction es arbitrary: st)
  case (Cons e es)
  show ?case
  proof (cases "is_initialized st")
    case True
    then show ?thesis using generate_all_clock [OF Cons.prems] by blast
  next
    case False
    show ?thesis
    proof (cases "uuid_generate rnd e st")
      case (Some r)
      obtain st' b where r: "r = (st', b)" by (cases r)
      consider "b = uuid_clear" "st' = st"
        | "generated_ok b" "clock_of b = unat (seq st') mod 16384" "is_initialized st'"
        using uuid_generate_cases [of e rnd st st' b] Cons.prems Some r by auto
      then show ?thesis
      proof cases
        case 1
        then show ?thesis using Cons Some r by (simp add: generated_def)
      next
        case 2
        let ?n = "length (generated (generate_all rnd es st'))"
        have "map clock_of (generated (generate_all rnd (e # es) st))
            = map (\<lambda>k. (unat (seq st') + k) mod 16384) (0 # map Suc [0..<?n])"
          using generate_all_clock [of es st' rnd] Cons.prems 2 Some r generated_ok_not_null [OF 2(1)]
          by (simp add: generated_def)
        also have "0 # map Suc [0..<?n] = [0..<Suc ?n]" by (rule upt_shift)
        finally show ?thesis
          using Some r generated_ok_not_null [OF 2(1)]
          by (intro exI [of _ "unat (seq st')"]) (simp add: generated_def)
      qed
    qed (simp add: generated_def)
  qed
qed (simp add: generated_def)

lemma mod_window:
  assumes "(c + i) mod m = (c + j) mod m" "i \<le> j" "j < (m :: nat)"
  shows "i = j"
proof -
  have "m dvd (c + j) - (c + i)" using assms by (metis mod_eq_dvd_iff_nat add_le_mono1 add.commute)
  then have "m dvd j - i" by simp
  moreover have "j - i < m" using assms(3) by simp
  ultimately show ?thesis using assms(2) by (metis diff_is_0_eq dvd_imp_le le_antisym not_le neq0_conv)
qed

lemma inj_on_mod_window: "inj_on (\<lambda>k. (c + k) mod m) {0..<m :: nat}"
  by (rule inj_onI) (metis atLeastLessThan_iff linorder_le_cases mod_window)

lemma generated_distinct:
  assumes "\<forall>e \<in> set es. hw_ok e" "length (generated (generate_all rnd es st)) \<le> 16384"
  shows "distinct (generated (generate_all rnd es st))"
proof -
  let ?n = "length (generated (generate_all rnd es st))"
  obtain c where "map clock_of (generated (generate_all rnd es st)) = map (\<lambda>k. (c + k) mod 16384) [0..<?n]"
    using generate_all_clock_any [OF assms(1)] by blast
  moreover have "inj_on (\<lambda>k. (c + k) mod 16384) (set [0..<?n])"
    using inj_on_mod_window [of c 16384] assms(2) by (auto intro: inj_on_subset)
  then have "distinct (map (\<lambda>k. (c + k) mod 16384) [0..<?n])" by (simp add: distinct_map)
  ultimately have "distinct (map clock_of (generated (generate_all rnd es st)))" by simp
  then show ?thesis by (simp add: distinct_map)
qed

section \<open>Properties\<close>

text \<open>An environment for the witnesses: one Ethernet interface behind the loopback device.\<close>

definition example_env :: gen_env where
  "example_env = \<lparr>nodes = \<lparr>socket_ok = True, ifconf = Some [(''lo'', 2), (''eth0'', 2)],
       hwaddr = (\<lambda>n. if n = ''eth0'' then Some [1, 2, 3, 4, 5, 6, 0, 0, 0, 0, 0, 0, 0, 0] else None)\<rparr>,
     tod = Some (1425168000, 250000), clock = \<lparr>urandom = Some (0xff, 0x80), getpid = 7, time_now = 9\<rparr>,
     lock_ok = True\<rparr>"

lemma hw_ok_example: "hw_ok example_env"
  by (simp add: hw_ok_def example_env_def)

text \<open>
  Packing and unpacking are inverse to each other: a struct with a 6-byte node survives
  \<open>_uuid_pack\<close> and \<open>_uuid_unpack\<close>, and so do 16 packed bytes the other way round.
\<close>

theorem uuid_pack_roundtrip:
  "(wf_uuid u \<longrightarrow> impl_uuid_unpack (impl_uuid_pack u) = u)
   \<and> (length b = 16 \<longrightarrow> impl_uuid_pack (impl_uuid_unpack b) = b)"
  using impl_uuid_unpack_pack impl_uuid_pack_unpack by blast

theorem uuid_pack_roundtrip_witness:
  "impl_uuid_pack (impl_uuid_unpack (replicate 16 7)) = replicate 16 7"
  using uuid_pack_roundtrip [of undefined "replicate 16 7"] by simp

text \<open>
  C38. Text round trip. Every UUID of 16 bytes is printed as a text \<open>uuid_parse\<close> reads back to
  the same bytes; and a text \<open>uuid_parse\<close> accepts is printed again as its first 36 characters in
  lower case (whatever follows them is ignored).
\<close>

theorem uuid_text_roundtrip:
  "(length b = 16 \<longrightarrow> uuid_parse (uuid_unparse b) = Inr b)
   \<and> (uuid_parse s = Inr b \<longrightarrow> uuid_unparse b = map tolower (take 36 s))"
proof (intro conjI impI)
  show "uuid_parse (uuid_unparse b) = Inr b" if "length b = 16"
    using that by (simp add: uuid_parse_def uuid_unparse_def impl_uuid_parse_unparse impl_uuid_pack_unpack)
  show "uuid_unparse b = map tolower (take 36 s)" if s: "uuid_parse s = Inr b"
  proof -
    obtain u where u: "impl_uuid_parse s = Inr u" "b = impl_uuid_pack u"
      using s by (auto simp: uuid_parse_def split: sum.splits)
    have "wf_uuid u"
      using u(1) by (auto simp: impl_uuid_parse_def wf_uuid_def split: sum.splits)
    with u show ?thesis
      by (simp add: uuid_unparse_def impl_uuid_unpack_pack impl_uuid_unparse_parse)
  qed
qed

theorem uuid_text_roundtrip_witness:
  "uuid_parse (uuid_unparse (replicate 16 171)) = Inr (replicate 16 171)"
  using uuid_text_roundtrip [of "replicate 16 171" "[]"] by simp

text \<open>
  \<open>uuid_parse\<close> accepts exactly the strings whose first 36 characters are hexadecimal digits
  with dashes at positions 8, 13, 18 and 23; on every other string it returns \<open>-1\<close>, and it never
  reads past the terminator of a shorter one.
\<close>

theorem uuid_parse_accepts:
  "(\<exists>b. uuid_parse s = Inr b) = uuid_text s \<and> (\<not> uuid_text s \<longrightarrow> uuid_parse s = Inl Rejected)"
  by (simp add: uuid_parse_def impl_uuid_parse_def parse_check_text)

theorem uuid_parse_accepts_witness:
  "uuid_parse ''01234567-89ab'' = Inl Rejected"
proof -
  have "\<not> uuid_text ''01234567-89ab''" by (simp add: uuid_text_def)
  then show ?thesis using uuid_parse_accepts by blast
qed

text \<open>
  \<open>uuid_compare\<close> orders UUIDs as byte-wise comparison of their packed forms does, hence it
  is antisymmetric and gives zero exactly on equal UUIDs.
\<close>

theorem uuid_compare_bytewise:
  assumes "length a = 16" "length b = 16"
  shows "uuid_compare a b = memcmp a b \<and> uuid_compare b a = - uuid_compare a b
    \<and> (uuid_compare a b = 0 \<longleftrightarrow> a = b)"
  using assms by (simp add: uuid_compare_def impl_uuid_compare_memcmp memcmp_0_iff memcmp_swap [of b a])

theorem uuid_compare_bytewise_witness:
  "uuid_compare (replicate 16 3) (replicate 16 200) = memcmp (replicate 16 3) (replicate 16 200)"
  using uuid_compare_bytewise [of "replicate 16 3" "replicate 16 200"] by simp

text \<open>
  What \<open>uuid_generate\<close> leaves in its output is either the cleared UUID, with the clock
  sequence untouched (the lock or the node address failed), or 16 bytes with version 1 in the high
  nibble of byte 6 and variant \<open>10\<close> in the two high bits of byte 8. So \<open>uuid_is_null\<close> tells
  exactly whether generation failed.
\<close>

theorem uuid_generate_version:
  assumes "hw_ok e" "uuid_generate rnd e st = Some (st', b)"
  shows "length b = 16 \<and>
    (if uuid_is_null b then b = uuid_clear \<and> st' = st
     else drop_bit 4 (b ! 6) = 1 \<and> drop_bit 6 (b ! 8) = 2)"
  using uuid_generate_cases [OF assms]
proof (elim disjE conjE)
  assume "b = uuid_clear" "st' = st"
  moreover have "length uuid_clear = 16" by (simp add: uuid_clear_def)
  ultimately show ?thesis by simp
next
  assume "generated_ok b"
  then show ?thesis using generated_ok_not_null [of b] by (simp add: generated_ok_def)
qed

theorem uuid_generate_version_witness:
  "\<exists>st' b. uuid_generate (\<lambda>_. 0) example_env clock_init = Some (st', b) \<and> length b = 16"
proof -
  have "\<exists>st' b. uuid_generate (\<lambda>_. 0) example_env clock_init = Some (st', b)"
    by (simp add: uuid_generate_def impl_uuid_generate_def example_env_def impl_uuid_get_node_def
        is_loopback_name_def af_inet_def ctype_defs impl_uuid_get_time_def Let_def
        impl_uuid_get_clock_def)
  then show ?thesis using uuid_generate_version [OF hw_ok_example] by blast
qed

text \<open>
  C39. Uniqueness within a process. In any run of at most 16384 successful generations, with any
  times of day (equal or going backwards) and any interleaved failures, no UUID occurs twice: the
  14-bit clock sequence alone tells them apart.
\<close>

theorem uuid_generate_unique:
  assumes "\<forall>e \<in> set es. hw_ok e"
    and "length (filter (\<lambda>b. \<not> uuid_is_null b) (generate_all rnd es st)) \<le> 16384"
  shows "distinct (filter (\<lambda>b. \<not> uuid_is_null b) (generate_all rnd es st))"
  using generated_distinct [OF assms(1)] assms(2) by (simp add: generated_def)

lemma length_generate_all: "length (generate_all rnd es st) \<le> length es"
  by (induction rnd es st rule: generate_all.induct) (auto split: option.splits prod.splits)

theorem uuid_generate_unique_witness:
  "distinct (filter (\<lambda>b. \<not> uuid_is_null b) (generate_all (\<lambda>_. 0) (replicate 1000 example_env) clock_init))"
proof (rule uuid_generate_unique)
  show "\<forall>e \<in> set (replicate 1000 example_env). hw_ok e" by (simp add: hw_ok_example)
  have "length (generate_all (\<lambda>_. 0) (replicate 1000 example_env) clock_init) \<le> 1000"
    using length_generate_all [of "\<lambda>_. 0" "replicate 1000 example_env" clock_init] by simp
  then show "length (filter (\<lambda>b. \<not> uuid_is_null b)
      (generate_all (\<lambda>_. 0) (replicate 1000 example_env) clock_init)) \<le> 16384"
    using length_filter_le [of "\<lambda>b. \<not> uuid_is_null b"
      "generate_all (\<lambda>_. 0) (replicate 1000 example_env) clock_init"] by linarith
qed

end
