(* ===== verification/Uuidgen.thy ===== *)
theory Uuidgen
  imports Uuid
begin

text \<open>
  The sample program \<open>uuid/samples/uuidgen.c\<close>, and the branch of \<open>_uuid_node.c\<close> for macOS. The
  program prints one UUID; the lemmas show that what it prints is read back by \<open>uuid_parse\<close>, and which
  lists of interfaces make the branch for macOS follow a null pointer.
\<close>

section \<open>The program\<close>

datatype uuidgen_result = UuidgenAborted | UuidgenExit int string string

text \<open>The exit status and what is written to the standard output and to the standard error.\<close>

definition uuidgen_main :: "(u32 \<Rightarrow> u64) \<Rightarrow> gen_env \<Rightarrow> uuidgen_result" where
  "uuidgen_main rnd e =
     (case uuid_generate rnd e clock_init of
        None \<Rightarrow> UuidgenAborted
      | Some (st, uu) \<Rightarrow>
          if uuid_is_null uu then UuidgenExit (- 1) [] (''fail to create uuid'' @ [CHR 0x0A])
          else UuidgenExit 0 (uuid_unparse uu @ [CHR 0x0A]) [])"

lemma uuidgen_prints:
  assumes "hw_ok e" "uuidgen_main rnd e = UuidgenExit code out err"
  shows "if code = 0 then \<exists>line uu. out = line @ [CHR 0x0A] \<and> uuid_parse line = Inr uu \<and> \<not> uuid_is_null uu \<and> err = []
    else code = - 1 \<and> out = [] \<and> err \<noteq> []"
proof -
  obtain st uu where r: "uuid_generate rnd e clock_init = Some (st, uu)"
    using assms(2) by (auto simp: uuidgen_main_def split: option.splits)
  show ?thesis
  proof (cases "uuid_is_null uu")
    case False
    then have "length uu = 16" using uuid_generate_cases [OF assms(1) r] by (auto simp: generated_ok_def)
    then have "uuid_parse (uuid_unparse uu) = Inr uu"
      by (simp add: uuid_parse_def uuid_unparse_def impl_uuid_parse_unparse impl_uuid_pack_unpack)
    then show ?thesis using assms(2) r False by (auto simp: uuidgen_main_def)
  qed (use assms(2) r in \<open>auto simp: uuidgen_main_def\<close>)
qed

section \<open>The node on macOS\<close>

text \<open>
  An interface of \<open>getifaddrs\<close>: the family, the type and the address of its \<open>ifa_addr\<close>, which is null
  for an interface without an address. The result \<open>None\<close> is a null pointer that is followed.
\<close>

type_synonym interface = "(nat \<times> nat \<times> bytes) option"

definition af_link :: nat where
  "af_link = 18"

definition ift_ether :: nat where
  "ift_ether = 6"

fun find_ether :: "interface list \<Rightarrow> bytes option option" where
  "find_ether [] = Some None"
| "find_ether (None # ifs) = None"
| "find_ether (Some (family, ty, addr) # ifs) =
     (if family = af_link \<and> ty = ift_ether then Some (Some (take 6 addr)) else find_ether ifs)"

definition macos_get_node :: "interface list option \<Rightarrow> bytes option option" where
  "macos_get_node ifaddrs = (case ifaddrs of None \<Rightarrow> Some None | Some ifs \<Rightarrow> find_ether ifs)"

definition is_ether :: "interface \<Rightarrow> bool" where
  "is_ether i \<longleftrightarrow> (case i of None \<Rightarrow> False | Some (family, ty, addr) \<Rightarrow> family = af_link \<and> ty = ift_ether)"

lemma find_ether_null:
  "find_ether ifs = None \<longleftrightarrow> None \<in> set (takeWhile (\<lambda>i. \<not> is_ether i) ifs)"
  by (induction ifs rule: find_ether.induct) (auto simp: is_ether_def)

lemma macos_node_length:
  assumes "macos_get_node ifaddrs = Some (Some nd)" "\<forall>ifs family ty addr. ifaddrs = Some ifs \<and> Some (family, ty, addr) \<in> set ifs \<longrightarrow> 6 \<le> length addr"
  shows "length nd = 6"
proof -
  have "find_ether ifs = Some (Some nd) \<Longrightarrow> \<forall>family ty addr. Some (family, ty, addr) \<in> set ifs \<longrightarrow> 6 \<le> length addr \<Longrightarrow> length nd = 6" for ifs
    by (induction ifs rule: find_ether.induct) (auto split: if_splits)
  then show ?thesis using assms by (cases ifaddrs) (auto simp: macos_get_node_def)
qed

end
