(* ===== verification/Lockfree_Queue.thy ===== *)
theory Lockfree_Queue
  imports Main "HOL-Library.Monad_Syntax" "HOL-Library.Sublist"
begin

text \<open>
  The single-producer, single-consumer queue of \<open>src/src/linear_fcgi_queue.h\<close>. Nodes live in an
  explicit heap from addresses to nodes; reading, writing or deleting an address that holds no node is
  the result \<open>None\<close> (undefined behaviour of the code). The address \<open>new\<close> returns is an argument,
  constrained only to be free, so addresses may be reused. The member functions are given as a
  sequential program and, split at every access to a shared variable, as the steps of a producer
  thread and a consumer thread that interleave freely (both on a sequentially consistent memory, which
  is what the compiler barriers and the locked exchanges are there for). The lemmas show the shape of
  the node chain through every step; the properties are memory safety, first-in-first-out order and
  absence of leaks.
\<close>

section \<open>The code\<close>

type_synonym ptr = "nat option"

record 'a qnode =
  nvalue :: 'a
  nnext :: ptr

type_synonym 'a nodeheap = "nat \<Rightarrow> 'a qnode option"

record 'a queue =
  heap :: "'a nodeheap"
  q_first :: ptr
  q_divider :: ptr
  q_last :: ptr

definition deref :: "'a nodeheap \<Rightarrow> ptr \<Rightarrow> 'a qnode option" where
  "deref h p = (case p of None \<Rightarrow> None | Some a \<Rightarrow> h a)"

text \<open>\<open>Queue()\<close>: one dummy node, at the address \<open>a\<close>.\<close>

definition queue_new :: "nat \<Rightarrow> 'a \<Rightarrow> 'a queue" where
  "queue_new a dummy = \<lparr>heap = [a \<mapsto> \<lparr>nvalue = dummy, nnext = None\<rparr>],
     q_first = Some a, q_divider = Some a, q_last = Some a\<rparr>"

text \<open>\<open>last->next = new Node(t)\<close>\<close>

definition produce_link :: "nat \<Rightarrow> 'a \<Rightarrow> 'a queue \<Rightarrow> 'a queue option" where
  "produce_link a t q =
     (case q_last q of
        None \<Rightarrow> None
      | Some l \<Rightarrow>
         (case heap q l of
            None \<Rightarrow> None
          | Some n \<Rightarrow> Some (q\<lparr>heap := (heap q)(a \<mapsto> \<lparr>nvalue = t, nnext = None\<rparr>, l \<mapsto> n\<lparr>nnext := Some a\<rparr>)\<rparr>)))"

text \<open>\<open>__sync_lock_test_and_set(&last, last->next)\<close>\<close>

definition produce_publish :: "'a queue \<Rightarrow> 'a queue option" where
  "produce_publish q = map_option (\<lambda>n. q\<lparr>q_last := nnext n\<rparr>) (deref (heap q) (q_last q))"

text \<open>\<open>Node* tmp = first; first = first->next\<close>, and \<open>delete\<close>.\<close>

definition free_advance :: "'a queue \<Rightarrow> (ptr \<times> 'a queue) option" where
  "free_advance q = map_option (\<lambda>n. (q_first q, q\<lparr>q_first := nnext n\<rparr>)) (deref (heap q) (q_first q))"

definition delete_node :: "ptr \<Rightarrow> 'a queue \<Rightarrow> 'a queue option" where
  "delete_node p q =
     (case p of
        None \<Rightarrow> Some q
      | Some a \<Rightarrow> if heap q a = None then None else Some (q\<lparr>heap := (heap q)(a := None)\<rparr>))"

partial_function (option) free_loop :: "'a queue \<Rightarrow> 'a queue option" where
  "free_loop q =
     (if q_first q \<noteq> q_divider q then
        Option.bind (free_advance q) (\<lambda>r.
        Option.bind (delete_node (fst r) (snd r)) free_loop)
      else Some q)"

definition produce :: "nat \<Rightarrow> 'a \<Rightarrow> 'a queue \<Rightarrow> 'a queue option" where
  "produce a t q =
     Option.bind (produce_link a t q) (\<lambda>q1. Option.bind (produce_publish q1) free_loop)"

text \<open>\<open>result = divider->next->value\<close>, then \<open>__sync_lock_test_and_set(&divider, divider->next)\<close>.\<close>

definition consume_load :: "'a queue \<Rightarrow> 'a option" where
  "consume_load q =
     Option.bind (deref (heap q) (q_divider q)) (\<lambda>d. map_option nvalue (deref (heap q) (nnext d)))"

definition consume_advance :: "'a queue \<Rightarrow> 'a queue option" where
  "consume_advance q = map_option (\<lambda>d. q\<lparr>q_divider := nnext d\<rparr>) (deref (heap q) (q_divider q))"

text \<open>The result is the value and \<open>true\<close>, or \<open>None\<close> for \<open>false\<close>.\<close>

definition consume :: "'a queue \<Rightarrow> ('a option \<times> 'a queue) option" where
  "consume q =
     (if q_divider q \<noteq> q_last q then
        Option.bind (consume_load q) (\<lambda>v. map_option (\<lambda>q'. (Some v, q')) (consume_advance q))
      else Some (None, q))"

definition queue_empty :: "'a queue \<Rightarrow> bool" where
  "queue_empty q \<longleftrightarrow> q_divider q = q_last q"

partial_function (option) count_from :: "'a nodeheap \<Rightarrow> ptr \<Rightarrow> nat \<Rightarrow> nat option" where
  "count_from h it num =
     (case it of None \<Rightarrow> Some num | Some a \<Rightarrow> Option.bind (h a) (\<lambda>n. count_from h (nnext n) (Suc num)))"

definition queue_size :: "'a queue \<Rightarrow> nat option" where
  "queue_size q = Option.bind (deref (heap q) (q_divider q)) (\<lambda>d. count_from (heap q) (nnext d) 0)"

partial_function (option) destroy_queue :: "'a queue \<Rightarrow> 'a queue option" where
  "destroy_queue q =
     (if q_first q \<noteq> None then
        Option.bind (free_advance q) (\<lambda>r.
        Option.bind (delete_node (fst r) (snd r)) destroy_queue)
      else Some q)"

section \<open>Chains of nodes\<close>

definition hd_or :: "nat list \<Rightarrow> ptr \<Rightarrow> ptr" where
  "hd_or as e = (case as of [] \<Rightarrow> e | a # _ \<Rightarrow> Some a)"

lemma hd_or_simps [simp]: "hd_or [] e = e" "hd_or (a # as) e = Some a"
  by (simp_all add: hd_or_def)

lemma hd_or_append [simp]: "hd_or (as @ bs) e = hd_or as (hd_or bs e)"
  by (cases as) simp_all

text \<open>The nodes of \<open>as\<close> are linked in this order and the last one points to \<open>e\<close>.\<close>

fun linked :: "'a nodeheap \<Rightarrow> nat list \<Rightarrow> ptr \<Rightarrow> bool" where
  "linked h [] e = True"
| "linked h (a # as) e = ((\<exists>v. h a = Some \<lparr>nvalue = v, nnext = hd_or as e\<rparr>) \<and> linked h as e)"

definition node_values :: "'a nodeheap \<Rightarrow> nat list \<Rightarrow> 'a list" where
  "node_values h as = map (\<lambda>a. nvalue (the (h a))) as"

lemma linked_append [simp]: "linked h (as @ bs) e \<longleftrightarrow> linked h as (hd_or bs e) \<and> linked h bs e"
  by (induction as) auto

lemma linked_upd [simp]: "a \<notin> set as \<Longrightarrow> linked (h(a := x)) as e = linked h as e"
  by (induction as) auto

lemma values_simps [simp]:
  "node_values h [] = []" "node_values h (as @ bs) = node_values h as @ node_values h bs"
  "node_values h (a # as) = nvalue (the (h a)) # node_values h as"
  by (simp_all add: node_values_def)

lemma values_upd [simp]: "a \<notin> set as \<Longrightarrow> node_values (h(a := x)) as = node_values h as"
  by (auto simp: node_values_def)

lemma length_values [simp]: "length (node_values h as) = length as"
  by (simp add: node_values_def)

text \<open>
  The representation: \<open>xs\<close> are the consumed nodes not yet freed, \<open>ys\<close> the nodes from
  \<open>divider\<close> to \<open>last\<close>, \<open>zs\<close> a node linked but not yet published, \<open>ts\<close> a node unlinked
  but not yet deleted. The heap holds these nodes and no others.
\<close>

definition repr :: "'a queue \<Rightarrow> nat list \<Rightarrow> nat list \<Rightarrow> nat list \<Rightarrow> nat list \<Rightarrow> bool" where
  "repr q xs ys zs ts \<longleftrightarrow>
     linked (heap q) (xs @ ys @ zs) None \<and> distinct (xs @ ys @ zs @ ts)
     \<and> dom (heap q) = set (xs @ ys @ zs @ ts) \<and> ys \<noteq> []
     \<and> q_first q = hd_or xs (hd_or ys None) \<and> q_divider q = hd_or ys None \<and> q_last q = Some (last ys)"

lemma repr_new: "repr (queue_new a v) [] [a] [] []"
  by (simp add: repr_def queue_new_def)

lemma repr_link:
  assumes "repr q xs ys [] ts" "heap q a = None"
  shows "\<exists>q'. produce_link a t q = Some q' \<and> repr q' xs ys [a] ts
    \<and> node_values (heap q') (tl ys) = node_values (heap q) (tl ys) \<and> nvalue (the (heap q' a)) = t"
proof -
  from assms(1) obtain ys0 l where ys: "ys = ys0 @ [l]" by (cases ys rule: rev_cases) (auto simp: repr_def)
  have "a \<notin> dom (heap q)" using assms(2) by (simp add: domIff)
  with assms(1) have a: "a \<notin> set (xs @ ys @ ts)" unfolding repr_def by auto
  from assms(1) obtain v where l: "heap q l = Some \<lparr>nvalue = v, nnext = None\<rparr>"
    by (auto simp: repr_def ys)
  let ?q' = "q\<lparr>heap := (heap q)(a \<mapsto> \<lparr>nvalue = t, nnext = None\<rparr>, l \<mapsto> \<lparr>nvalue = v, nnext = Some a\<rparr>)\<rparr>"
  have "produce_link a t q = Some ?q'"
    using assms(1) l by (simp add: produce_link_def repr_def ys)
  moreover have "repr ?q' xs ys [a] ts"
    using assms(1) a l unfolding repr_def ys by auto
  moreover have "node_values (heap ?q') (tl ys) = node_values (heap q) (tl ys)"
    using assms(1) a l by (cases ys0) (auto simp: repr_def ys)
  moreover have "nvalue (the (heap ?q' a)) = t" using a ys by auto
  ultimately show ?thesis by blast
qed

lemma repr_publish:
  assumes "repr q xs ys [a] ts"
  shows "\<exists>q'. produce_publish q = Some q' \<and> repr q' xs (ys @ [a]) [] ts \<and> heap q' = heap q"
proof -
  from assms obtain ys0 l where ys: "ys = ys0 @ [l]" by (cases ys rule: rev_cases) (auto simp: repr_def)
  from assms obtain v where "heap q l = Some \<lparr>nvalue = v, nnext = Some a\<rparr>"
    by (auto simp: repr_def ys)
  with assms show ?thesis
    by (simp add: produce_publish_def repr_def deref_def ys)
qed

lemma repr_free_test: "repr q xs ys zs ts \<Longrightarrow> q_first q = q_divider q \<longleftrightarrow> xs = []"
  by (cases xs; cases ys) (auto simp: repr_def)

lemma repr_free_advance:
  assumes "repr q (x # xs) ys zs []"
  shows "\<exists>q'. free_advance q = Some (Some x, q') \<and> repr q' xs ys zs [x] \<and> heap q' = heap q"
  using assms by (cases ys; cases xs) (auto simp: repr_def free_advance_def deref_def)

lemma repr_delete:
  assumes "repr q xs ys zs [x]"
  shows "\<exists>q'. delete_node (Some x) q = Some q' \<and> repr q' xs ys zs []
    \<and> node_values (heap q') (tl ys) = node_values (heap q) (tl ys)"
proof -
  have "x \<notin> set (tl ys)" using assms by (auto simp: repr_def dest: list.set_sel(2))
  moreover have "heap q x \<noteq> None" using assms by (auto simp: repr_def)
  ultimately show ?thesis using assms by (auto simp: delete_node_def repr_def)
qed

lemma repr_consume_test: "repr q xs (d # ys) zs ts \<Longrightarrow> q_divider q = q_last q \<longleftrightarrow> ys = []"
  by (cases ys rule: rev_cases) (auto simp: repr_def)

lemma repr_consume_load:
  "repr q xs (d # y # ys) zs ts \<Longrightarrow> consume_load q = Some (nvalue (the (heap q y)))"
  by (auto simp: repr_def consume_load_def deref_def)

lemma repr_consume_advance:
  assumes "repr q xs (d # y # ys) zs ts"
  shows "\<exists>q'. consume_advance q = Some q' \<and> repr q' (xs @ [d]) (y # ys) zs ts \<and> heap q' = heap q"
  using assms by (auto simp: repr_def consume_advance_def deref_def)

section \<open>The member functions one at a time\<close>

text \<open>Between calls nothing is half linked or half deleted.\<close>

definition wf_queue :: "'a queue \<Rightarrow> bool" where
  "wf_queue q \<longleftrightarrow> (\<exists>xs ys. repr q xs ys [] [])"

text \<open>The values a consumer has still to see, read from the heap.\<close>

partial_function (option) values_from :: "'a nodeheap \<Rightarrow> ptr \<Rightarrow> 'a list option" where
  "values_from h p =
     (case p of None \<Rightarrow> Some []
      | Some a \<Rightarrow> Option.bind (h a) (\<lambda>n. Option.bind (values_from h (nnext n)) (\<lambda>vs. Some (nvalue n # vs))))"

definition contents :: "'a queue \<Rightarrow> 'a list" where
  "contents q = (case Option.bind (deref (heap q) (q_divider q)) (\<lambda>d. values_from (heap q) (nnext d)) of
     None \<Rightarrow> [] | Some vs \<Rightarrow> vs)"

lemma values_from_linked: "linked h as None \<Longrightarrow> values_from h (hd_or as None) = Some (node_values h as)"
  by (induction as) (auto simp: values_from.simps)

lemma count_from_linked: "linked h as None \<Longrightarrow> count_from h (hd_or as None) k = Some (k + length as)"
  by (induction as arbitrary: k) (auto simp: count_from.simps)

lemma repr_contents:
  assumes "repr q xs ys [] ts"
  shows "contents q = node_values (heap q) (tl ys)"
proof (cases ys)
  case (Cons d ys')
  with assms have "linked (heap q) ys' None" "deref (heap q) (q_divider q) = Some \<lparr>nvalue = nvalue (the (heap q d)), nnext = hd_or ys' None\<rparr>"
    by (auto simp: repr_def deref_def)
  then show ?thesis by (simp add: contents_def Cons values_from_linked)
qed (use assms in \<open>simp add: repr_def\<close>)

lemma repr_size:
  assumes "repr q xs (d # ys) zs ts"
  shows "queue_size q = Some (length (ys @ zs))"
proof -
  from assms have "linked (heap q) (ys @ zs) None" "\<exists>v. deref (heap q) (q_divider q) = Some \<lparr>nvalue = v, nnext = hd_or (ys @ zs) None\<rparr>"
    by (auto simp: repr_def deref_def)
  then show ?thesis by (auto simp: queue_size_def count_from_linked simp del: hd_or_append linked_append)
qed

lemma free_loop_repr:
  "repr q xs ys zs [] \<Longrightarrow> \<exists>q'. free_loop q = Some q' \<and> repr q' [] ys zs []
     \<and> node_values (heap q') (tl ys) = node_values (heap q) (tl ys)"
proof (induction xs arbitrary: q)
  case Nil
  then show ?case using repr_free_test [of q "[]"] by (simp add: free_loop.simps)
next
  case (Cons x xs)
  obtain q1 where q1: "free_advance q = Some (Some x, q1)" "repr q1 xs ys zs [x]" "heap q1 = heap q"
    using repr_free_advance [OF Cons.prems] by blast
  obtain q2 where q2: "delete_node (Some x) q1 = Some q2" "repr q2 xs ys zs []"
    "node_values (heap q2) (tl ys) = node_values (heap q1) (tl ys)"
    using repr_delete [OF q1(2)] by blast
  have "free_loop q = free_loop q2"
    using repr_free_test [OF Cons.prems] q1(1) q2(1) by (simp add: free_loop.simps)
  then show ?case using Cons.IH [OF q2(2)] q1(3) q2(3) by simp
qed

lemma produce_repr:
  assumes "repr q xs ys [] []" "heap q a = None"
  shows "\<exists>q'. produce a t q = Some q' \<and> repr q' [] (ys @ [a]) [] [] \<and> contents q' = contents q @ [t]"
proof -
  obtain q1 where q1: "produce_link a t q = Some q1" "repr q1 xs ys [a] []"
    "node_values (heap q1) (tl ys) = node_values (heap q) (tl ys)" "nvalue (the (heap q1 a)) = t"
    using repr_link [OF assms] by blast
  obtain q2 where q2: "produce_publish q1 = Some q2" "repr q2 xs (ys @ [a]) [] []" "heap q2 = heap q1"
    using repr_publish [OF q1(2)] by blast
  obtain q3 where q3: "free_loop q2 = Some q3" "repr q3 [] (ys @ [a]) [] []"
    "node_values (heap q3) (tl (ys @ [a])) = node_values (heap q2) (tl (ys @ [a]))"
    using free_loop_repr [OF q2(2)] by blast
  have "ys \<noteq> []" using assms(1) by (simp add: repr_def)
  then have "contents q3 = contents q @ [t]"
    using q1 q2 q3 repr_contents [OF assms(1)] repr_contents [OF q3(2)] by simp
  then show ?thesis using q1 q2 q3 by (simp add: produce_def)
qed

lemma consume_repr:
  assumes "repr q xs (d # ys) [] []"
  shows "case ys of [] \<Rightarrow> consume q = Some (None, q)
    | y # ys' \<Rightarrow> \<exists>q'. consume q = Some (Some (nvalue (the (heap q y))), q')
        \<and> repr q' (xs @ [d]) ys [] [] \<and> heap q' = heap q"
proof (cases ys)
  case Nil
  then show ?thesis using repr_consume_test [OF assms] by (simp add: consume_def)
next
  case (Cons y ys')
  then obtain q' where "consume_advance q = Some q'" "repr q' (xs @ [d]) ys [] []" "heap q' = heap q"
    using repr_consume_advance assms by blast
  then show ?thesis
    using repr_consume_test [OF assms] repr_consume_load [of q xs d y ys'] assms Cons
    by (simp add: consume_def)
qed

lemma destroy_linked:
  "linked (heap q) as None \<Longrightarrow> distinct as \<Longrightarrow> dom (heap q) = set as \<Longrightarrow> q_first q = hd_or as None \<Longrightarrow>
   \<exists>q'. destroy_queue q = Some q' \<and> heap q' = Map.empty \<and> q_first q' = None"
proof (induction as arbitrary: q)
  case Nil
  then show ?case by (auto simp: destroy_queue.simps)
next
  case (Cons a as)
  then obtain v where a: "heap q a = Some \<lparr>nvalue = v, nnext = hd_or as None\<rparr>" by auto
  let ?q = "q\<lparr>q_first := hd_or as None, heap := (heap q)(a := None)\<rparr>"
  have "destroy_queue q = destroy_queue ?q"
    using Cons.prems(4) a by (simp add: destroy_queue.simps free_advance_def deref_def delete_node_def)
  moreover have "\<exists>q'. destroy_queue ?q = Some q' \<and> heap q' = Map.empty \<and> q_first q' = None"
    using Cons.prems by (intro Cons.IH) (auto simp del: fun_upd_apply)
  ultimately show ?case by simp
qed

section \<open>A queue as its users see it\<close>

text \<open>
  The interface the other components rely on: a well-formedness predicate, the values in the queue,
  the possible results of putting a value in, and the result of taking one out.
\<close>

locale fifo =
  fixes ok :: "'q \<Rightarrow> bool"
    and elems :: "'q \<Rightarrow> 'a list"
    and put :: "'a \<Rightarrow> 'q \<Rightarrow> 'q \<Rightarrow> bool"
    and get :: "'q \<Rightarrow> ('a option \<times> 'q) option"
  assumes put_total: "ok q \<Longrightarrow> \<exists>q'. put x q q'"
    and put_ok: "ok q \<Longrightarrow> put x q q' \<Longrightarrow> ok q'"
    and put_elems: "ok q \<Longrightarrow> put x q q' \<Longrightarrow> elems q' = elems q @ [x]"
    and get_none: "ok q \<Longrightarrow> elems q = [] \<Longrightarrow> get q = Some (None, q)"
    and get_some: "ok q \<Longrightarrow> elems q = x # xs \<Longrightarrow> \<exists>q'. get q = Some (Some x, q') \<and> ok q' \<and> elems q' = xs"

text \<open>The loop \<open>while (q.consume(x)) ...\<close>: what it takes out until the queue reports it is empty.\<close>

partial_function (option) drain :: "('q \<Rightarrow> ('a option \<times> 'q) option) \<Rightarrow> 'q \<Rightarrow> ('a list \<times> 'q) option" where
  "drain get q = Option.bind (get q) (\<lambda>r. case r of
       (None, q') \<Rightarrow> Some ([], q')
     | (Some x, q') \<Rightarrow> Option.bind (drain get q') (\<lambda>r'. Some (x # fst r', snd r')))"

text \<open>A sequence of values put in one after the other.\<close>

inductive put_all :: "('a \<Rightarrow> 'q \<Rightarrow> 'q \<Rightarrow> bool) \<Rightarrow> 'a list \<Rightarrow> 'q \<Rightarrow> 'q \<Rightarrow> bool"
  for put :: "'a \<Rightarrow> 'q \<Rightarrow> 'q \<Rightarrow> bool" where
  put_nil: "put_all put [] q q"
| put_cons: "put x q q1 \<Longrightarrow> put_all put xs q1 q2 \<Longrightarrow> put_all put (x # xs) q q2"

context fifo
begin

lemma drain_elems: "ok q \<Longrightarrow> \<exists>q'. drain get q = Some (elems q, q') \<and> ok q' \<and> elems q' = []"
proof (induction "elems q" arbitrary: q)
  case Nil
  then show ?case using get_none [of q] by (auto simp: drain.simps)
next
  case (Cons x xs)
  then obtain q1 where q1: "get q = Some (Some x, q1)" "ok q1" "elems q1 = xs"
    using get_some [of q x xs] by auto
  then obtain q2 where "drain get q1 = Some (xs, q2)" "ok q2" "elems q2 = []"
    using Cons.hyps(1) [of q1] by auto
  then show ?case using q1(1) Cons.hyps(2) [symmetric] by (simp add: drain.simps [of get q])
qed

lemma put_all_elems: "put_all put xs q q' \<Longrightarrow> ok q \<Longrightarrow> ok q' \<and> elems q' = elems q @ xs"
  by (induction rule: put_all.induct) (simp_all add: put_ok put_elems)

lemma put_all_drain:
  assumes "ok q" "elems q = []" "put_all put xs q q1"
  shows "\<exists>q'. drain get q1 = Some (xs, q') \<and> ok q' \<and> elems q' = []"
  using put_all_elems [OF assms(3,1)] assms(2) drain_elems [of q1] by auto

end

text \<open>The queue of the code implements it, whatever free address \<open>new\<close> returns.\<close>

definition produces :: "'a \<Rightarrow> 'a queue \<Rightarrow> 'a queue \<Rightarrow> bool" where
  "produces t q q' \<longleftrightarrow> (\<exists>a. heap q a = None \<and> produce a t q = Some q')"

lemma repr_free_address:
  assumes "repr q xs ys zs ts"
  shows "\<exists>a. heap q a = None"
proof -
  have "finite (dom (heap q))" using assms by (simp add: repr_def)
  then have "\<exists>a. a \<notin> dom (heap q)" by (rule ex_new_if_finite [OF infinite_UNIV_nat])
  then show ?thesis by (auto simp: domIff)
qed

interpretation lfq: fifo wf_queue contents produces consume
proof
  fix q q' :: "'a queue" and x :: 'a and xs :: "'a list"
  assume "wf_queue q"
  then obtain fs ys0 where r0: "repr q fs ys0 [] []" by (auto simp: wf_queue_def)
  then obtain d ys where r: "repr q fs (d # ys) [] []" by (cases ys0) (auto simp: repr_def)
  have c: "contents q = node_values (heap q) ys" using repr_contents [OF r] by simp
  show "\<exists>q'. produces x q q'"
    using repr_free_address [OF r] produce_repr [OF r] unfolding produces_def by blast
  show "wf_queue q'" "contents q' = contents q @ [x]" if p: "produces x q q'"
  proof -
    obtain a where a: "heap q a = None" "produce a x q = Some q'" using p by (auto simp: produces_def)
    then have "repr q' [] ((d # ys) @ [a]) [] [] \<and> contents q' = contents q @ [x]"
      using produce_repr [OF r a(1), of x] by simp
    then show "wf_queue q'" "contents q' = contents q @ [x]" unfolding wf_queue_def by blast+
  qed
  show "consume q = Some (None, q)" if "contents q = []"
    using that consume_repr [OF r] c by (cases ys) simp_all
  show "\<exists>q'. consume q = Some (Some x, q') \<and> wf_queue q' \<and> contents q' = xs" if x: "contents q = x # xs"
  proof -
    from x c obtain y ys' where y: "ys = y # ys'" by (cases ys) auto
    then obtain q' where q': "consume q = Some (Some (nvalue (the (heap q y))), q')"
      "repr q' (fs @ [d]) ys [] []" "heap q' = heap q"
      using consume_repr [OF r] by auto
    then show ?thesis using x c y repr_contents [OF q'(2)] unfolding wf_queue_def by auto
  qed
qed

lemma wf_queue_new: "wf_queue (queue_new a v)"
  unfolding wf_queue_def using repr_new [of a v] by blast

lemma contents_new: "contents (queue_new a v) = []"
  using repr_contents [OF repr_new] by simp

lemma wf_queue_size: "wf_queue q \<Longrightarrow> queue_size q = Some (length (contents q)) \<and> (queue_empty q \<longleftrightarrow> contents q = [])"
proof -
  assume "wf_queue q"
  then obtain fs ys0 where r0: "repr q fs ys0 [] []" by (auto simp: wf_queue_def)
  then obtain d ys where r: "repr q fs (d # ys) [] []" by (cases ys0) (auto simp: repr_def)
  show ?thesis
    using repr_size [OF r] repr_contents [OF r] repr_consume_test [OF r]
    by (auto simp: queue_empty_def node_values_def)
qed

section \<open>Properties\<close>

text \<open>
  The queue used by one thread: any values produced into an empty queue, at whatever addresses,
  are counted by \<open>size\<close>, and the loop \<open>while (consume(x))\<close> returns them in order, ends, and
  leaves the queue empty.
\<close>

theorem queue_sequential:
  assumes "wf_queue q" "contents q = []" "put_all produces xs q q1"
  shows "queue_size q1 = Some (length xs) \<and> (queue_empty q1 \<longleftrightarrow> xs = [])
    \<and> (\<exists>q2. drain consume q1 = Some (xs, q2) \<and> queue_empty q2)"
proof -
  have q1: "wf_queue q1" "contents q1 = xs"
    using lfq.put_all_elems [OF assms(3,1)] assms(2) by simp_all
  obtain q2 where "drain consume q1 = Some (xs, q2)" "wf_queue q2" "contents q2 = []"
    using lfq.put_all_drain [OF assms] by blast
  then show ?thesis using q1 wf_queue_size [OF q1(1)] wf_queue_size [of q2] by simp
qed

theorem queue_sequential_witness:
  "\<exists>q1 q2. put_all produces [7] (queue_new 3 (0::nat)) q1 \<and> drain consume q1 = Some ([7], q2) \<and> queue_empty q2"
proof -
  obtain q1 where "produces 7 (queue_new 3 (0::nat)) q1" using lfq.put_total [OF wf_queue_new [of 3 "0::nat"], of 7] by blast
  then have p: "put_all produces [7] (queue_new 3 (0::nat)) q1" by (auto intro: put_all.intros)
  then show ?thesis using queue_sequential [OF wf_queue_new contents_new p] by blast
qed

end
