(* ===== verification/Queue_Threads.thy ===== *)
theory Queue_Threads
  imports Lockfree_Queue
begin

text \<open>
  The queue of \<open>Lockfree_Queue\<close> used by two threads at once: a producer that runs \<open>produce\<close>
  and a consumer that runs \<open>consume\<close>, each a sequence of steps with at most one access to a
  variable the other thread writes. The values put in and taken out are recorded in the state. The
  invariant gives the chain of nodes in every reachable state; from it follow memory safety for every
  interleaving, first-in-first-out order, and a bound on the memory in use.
\<close>

section \<open>The threads\<close>

text \<open>
  Where the producer is: before a call, after linking the node for a value, at the test of the
  freeing loop, or about to delete the node it has just unlinked. Where the consumer is: before the
  test, after a successful test, or with a value loaded.
\<close>

datatype 'a producer_pc = PIdle | PLinked 'a | PFree | PDel ptr

datatype 'a consumer_pc = CIdle | CReady | CGot 'a

record 'a threads =
  shared :: "'a queue"
  prod_pc :: "'a producer_pc"
  cons_pc :: "'a consumer_pc"
  produced :: "'a list"
  consumed :: "'a list"

datatype 's outcome = Disabled | Undefined | Next 's

definition start :: "nat \<Rightarrow> 'a \<Rightarrow> 'a threads" where
  "start a dummy = \<lparr>shared = queue_new a dummy, prod_pc = PIdle, cons_pc = CIdle, produced = [], consumed = []\<rparr>"

datatype 'a event = Link nat 'a | Publish | FreeTest | Delete | Test | Load | Advance

definition on_queue :: "'b option \<Rightarrow> ('b \<Rightarrow> 'a threads) \<Rightarrow> 'a threads outcome" where
  "on_queue r f = (case r of None \<Rightarrow> Undefined | Some x \<Rightarrow> Next (f x))"

fun thread_step :: "'a event \<Rightarrow> 'a threads \<Rightarrow> 'a threads outcome" where
  "thread_step (Link a t) s =
     (if prod_pc s = PIdle \<and> heap (shared s) a = None then
        on_queue (produce_link a t (shared s)) (\<lambda>q. s\<lparr>shared := q, prod_pc := PLinked t\<rparr>)
      else Disabled)"
| "thread_step Publish s =
     (case prod_pc s of
        PLinked t \<Rightarrow> on_queue (produce_publish (shared s))
          (\<lambda>q. s\<lparr>shared := q, prod_pc := PFree, produced := produced s @ [t]\<rparr>)
      | _ \<Rightarrow> Disabled)"
| "thread_step FreeTest s =
     (case prod_pc s of
        PFree \<Rightarrow>
          (if q_first (shared s) \<noteq> q_divider (shared s) then
             on_queue (free_advance (shared s)) (\<lambda>r. s\<lparr>shared := snd r, prod_pc := PDel (fst r)\<rparr>)
           else Next (s\<lparr>prod_pc := PIdle\<rparr>))
      | _ \<Rightarrow> Disabled)"
| "thread_step Delete s =
     (case prod_pc s of
        PDel p \<Rightarrow> on_queue (delete_node p (shared s)) (\<lambda>q. s\<lparr>shared := q, prod_pc := PFree\<rparr>)
      | _ \<Rightarrow> Disabled)"
| "thread_step Test s =
     (case cons_pc s of
        CIdle \<Rightarrow> Next (if q_divider (shared s) \<noteq> q_last (shared s) then s\<lparr>cons_pc := CReady\<rparr> else s)
      | _ \<Rightarrow> Disabled)"
| "thread_step Load s =
     (case cons_pc s of
        CReady \<Rightarrow> on_queue (consume_load (shared s)) (\<lambda>v. s\<lparr>cons_pc := CGot v\<rparr>)
      | _ \<Rightarrow> Disabled)"
| "thread_step Advance s =
     (case cons_pc s of
        CGot v \<Rightarrow> on_queue (consume_advance (shared s))
          (\<lambda>q. s\<lparr>shared := q, cons_pc := CIdle, consumed := consumed s @ [v]\<rparr>)
      | _ \<Rightarrow> Disabled)"

inductive reachable :: "'a threads \<Rightarrow> bool" where
  start: "reachable (start a dummy)"
| step: "reachable s \<Longrightarrow> thread_step e s = Next s' \<Longrightarrow> reachable s'"

text \<open>Runs of a list of events, for concrete executions.\<close>

fun run :: "'a event list \<Rightarrow> 'a threads \<Rightarrow> 'a threads outcome" where
  "run [] s = Next s"
| "run (e # es) s = (case thread_step e s of Next s' \<Rightarrow> run es s' | Disabled \<Rightarrow> Disabled | Undefined \<Rightarrow> Undefined)"

section \<open>The invariant\<close>

fun pc_shape :: "'a threads \<Rightarrow> nat list \<Rightarrow> nat list \<Rightarrow> bool" where
  "pc_shape s zs ts = (case prod_pc s of
     PIdle \<Rightarrow> zs = [] \<and> ts = []
   | PLinked t \<Rightarrow> (\<exists>a. zs = [a] \<and> nvalue (the (heap (shared s) a)) = t) \<and> ts = []
   | PFree \<Rightarrow> zs = [] \<and> ts = []
   | PDel p \<Rightarrow> zs = [] \<and> (\<exists>x. ts = [x] \<and> p = Some x))"

definition cons_ok :: "'a threads \<Rightarrow> nat list \<Rightarrow> bool" where
  "cons_ok s ys = (case cons_pc s of
     CIdle \<Rightarrow> True
   | CReady \<Rightarrow> tl ys \<noteq> []
   | CGot v \<Rightarrow> tl ys \<noteq> [] \<and> v = nvalue (the (heap (shared s) (hd (tl ys)))))"

definition shape :: "'a threads \<Rightarrow> nat list \<Rightarrow> nat list \<Rightarrow> nat list \<Rightarrow> nat list \<Rightarrow> bool" where
  "shape s xs ys zs ts \<longleftrightarrow> repr (shared s) xs ys zs ts \<and> pc_shape s zs ts \<and> cons_ok s ys
     \<and> produced s = consumed s @ node_values (heap (shared s)) (tl ys)"

declare pc_shape.simps [simp del]

lemma pc_shape_keep:
  "pc_shape s zs ts \<Longrightarrow> prod_pc s' = prod_pc s \<Longrightarrow> heap (shared s') = heap (shared s) \<Longrightarrow> pc_shape s' zs ts"
  by (simp only: pc_shape.simps)

lemma tl_hd_values: "tl ys \<noteq> [] \<Longrightarrow> node_values h (tl ys) = node_values h' (tl ys) \<Longrightarrow>
    nvalue (the (h (hd (tl ys)))) = nvalue (the (h' (hd (tl ys))))"
  by (cases "tl ys") auto

text \<open>A change of the heap that keeps the values of the published nodes keeps the consumer's claim.\<close>

lemma cons_ok_keep:
  assumes "cons_ok s ys" "cons_pc s' = cons_pc s"
    "node_values (heap (shared s')) (tl ys) = node_values (heap (shared s)) (tl ys)"
  shows "cons_ok s' ys"
  using assms tl_hd_values [OF _ assms(3)]
  by (auto simp: cons_ok_def split: consumer_pc.splits)

lemma cons_ok_grow:
  assumes "cons_ok s ys" "cons_pc s' = cons_pc s" "heap (shared s') = heap (shared s)" "ys \<noteq> []"
  shows "cons_ok s' (ys @ [a])"
  using assms by (auto simp: cons_ok_def split: consumer_pc.splits)

text \<open>One lemma per step: it is never undefined, and the next state has a shape again.\<close>

definition steps_to_shape :: "'a threads outcome \<Rightarrow> bool" where
  "steps_to_shape r \<longleftrightarrow> r = Disabled \<or> (\<exists>s'. r = Next s' \<and> (\<exists>xs ys zs ts. shape s' xs ys zs ts))"

lemma steps_to_shapeI: "r = Next s' \<Longrightarrow> shape s' xs ys zs ts \<Longrightarrow> steps_to_shape r"
  unfolding steps_to_shape_def by blast

lemma steps_to_shape_Disabled [simp]: "steps_to_shape Disabled"
  by (simp add: steps_to_shape_def)

lemma link_shape:
  assumes "shape s xs ys zs ts"
  shows "steps_to_shape (thread_step (Link a t) s)"
proof (cases "prod_pc s = PIdle \<and> heap (shared s) a = None")
  case True
  with assms have r: "repr (shared s) xs ys [] []" and zs: "zs = []" "ts = []"
    by (auto simp: shape_def pc_shape.simps)
  obtain q where q: "produce_link a t (shared s) = Some q" "repr q xs ys [a] []"
    "node_values (heap q) (tl ys) = node_values (heap (shared s)) (tl ys)" "nvalue (the (heap q a)) = t"
    using repr_link [OF r] True by blast
  let ?s = "s\<lparr>shared := q, prod_pc := PLinked t\<rparr>"
  have "shape ?s xs ys [a] []"
    using assms q cons_ok_keep [of s ys ?s] by (simp add: shape_def pc_shape.simps)
  then show ?thesis using True q(1) by (auto intro!: steps_to_shapeI simp: on_queue_def)
qed auto

lemma publish_shape:
  assumes "shape s xs ys zs ts"
  shows "steps_to_shape (thread_step Publish s)"
proof (cases "prod_pc s")
  case (PLinked t)
  with assms obtain a where r: "repr (shared s) xs ys [a] []" and a: "nvalue (the (heap (shared s) a)) = t"
    by (auto simp: shape_def pc_shape.simps)
  obtain q where q: "produce_publish (shared s) = Some q" "repr q xs (ys @ [a]) [] []" "heap q = heap (shared s)"
    using repr_publish [OF r] by blast
  have "ys \<noteq> []" using r by (simp add: repr_def)
  let ?s = "s\<lparr>shared := q, prod_pc := PFree, produced := produced s @ [t]\<rparr>"
  have "shape ?s xs (ys @ [a]) [] []"
    using assms q a \<open>ys \<noteq> []\<close> cons_ok_grow [of s ys ?s a] by (simp add: shape_def pc_shape.simps)
  then show ?thesis using PLinked q(1) by (auto intro!: steps_to_shapeI simp: on_queue_def)
qed auto

lemma free_test_shape:
  assumes "shape s xs ys zs ts"
  shows "steps_to_shape (thread_step FreeTest s)"
proof (cases "prod_pc s")
  case PFree
  with assms have r: "repr (shared s) xs ys [] []" by (auto simp: shape_def pc_shape.simps)
  show ?thesis
  proof (cases xs)
    case Nil
    let ?s = "s\<lparr>prod_pc := PIdle\<rparr>"
    have "shape ?s xs ys [] []"
      using assms r cons_ok_keep [of s ys ?s] by (simp add: shape_def pc_shape.simps)
    then show ?thesis
      using PFree repr_free_test [OF r] Nil by (auto intro!: steps_to_shapeI)
  next
    case (Cons x xs')
    then obtain q where q: "free_advance (shared s) = Some (Some x, q)" "repr q xs' ys [] [x]" "heap q = heap (shared s)"
      using repr_free_advance r by blast
    let ?s = "s\<lparr>shared := q, prod_pc := PDel (Some x)\<rparr>"
    have "shape ?s xs' ys [] [x]"
      using assms q cons_ok_keep [of s ys ?s] by (simp add: shape_def pc_shape.simps)
    then show ?thesis
      using PFree repr_free_test [OF r] Cons q(1) by (auto intro!: steps_to_shapeI simp: on_queue_def)
  qed
qed auto

lemma delete_shape:
  assumes "shape s xs ys zs ts"
  shows "steps_to_shape (thread_step Delete s)"
proof (cases "prod_pc s")
  case (PDel p)
  with assms obtain x where r: "repr (shared s) xs ys [] [x]" and p: "p = Some x"
    by (auto simp: shape_def pc_shape.simps)
  obtain q where q: "delete_node (Some x) (shared s) = Some q" "repr q xs ys [] []"
    "node_values (heap q) (tl ys) = node_values (heap (shared s)) (tl ys)"
    using repr_delete [OF r] by blast
  let ?s = "s\<lparr>shared := q, prod_pc := PFree\<rparr>"
  have "shape ?s xs ys [] []"
    using assms q cons_ok_keep [of s ys ?s] by (simp add: shape_def pc_shape.simps)
  then show ?thesis using PDel p q(1) by (auto intro!: steps_to_shapeI simp: on_queue_def)
qed auto

lemma test_shape:
  assumes "shape s xs ys zs ts"
  shows "steps_to_shape (thread_step Test s)"
proof (cases "cons_pc s")
  case CIdle
  from assms obtain d ys' where ys: "ys = d # ys'" by (cases ys) (auto simp: shape_def repr_def)
  with assms have r: "repr (shared s) xs (d # ys') zs ts" by (simp add: shape_def)
  show ?thesis
  proof (cases ys')
    case Nil
    with repr_consume_test [OF r] CIdle assms show ?thesis by (auto intro!: steps_to_shapeI)
  next
    case (Cons y ys'')
    have "shape (s\<lparr>cons_pc := CReady\<rparr>) xs ys zs ts"
      using assms CIdle ys Cons pc_shape_keep [of s zs ts "s\<lparr>cons_pc := CReady\<rparr>"]
      by (simp add: shape_def cons_ok_def)
    then show ?thesis
      using repr_consume_test [OF r] CIdle Cons by (auto intro!: steps_to_shapeI)
  qed
qed auto

lemma load_shape:
  assumes "shape s xs ys zs ts"
  shows "steps_to_shape (thread_step Load s)"
proof (cases "cons_pc s")
  case CReady
  with assms obtain d y ys' where ys: "ys = d # y # ys'"
    by (cases ys; cases "tl ys") (auto simp: shape_def cons_ok_def)
  with assms have r: "repr (shared s) xs (d # y # ys') zs ts" by (simp add: shape_def)
  let ?s = "s\<lparr>cons_pc := CGot (nvalue (the (heap (shared s) y)))\<rparr>"
  have "shape ?s xs ys zs ts"
    using assms ys pc_shape_keep [of s zs ts ?s] by (simp add: shape_def cons_ok_def)
  then show ?thesis
    using repr_consume_load [OF r] CReady by (auto intro!: steps_to_shapeI simp: on_queue_def)
qed auto

lemma advance_shape:
  assumes "shape s xs ys zs ts"
  shows "steps_to_shape (thread_step Advance s)"
proof (cases "cons_pc s")
  case (CGot v)
  with assms obtain d y ys' where ys: "ys = d # y # ys'"
    by (cases ys; cases "tl ys") (auto simp: shape_def cons_ok_def)
  with assms have r: "repr (shared s) xs (d # y # ys') zs ts" by (simp add: shape_def)
  obtain q where q: "consume_advance (shared s) = Some q" "repr q (xs @ [d]) (y # ys') zs ts" "heap q = heap (shared s)"
    using repr_consume_advance [OF r] by blast
  let ?s = "s\<lparr>shared := q, cons_pc := CIdle, consumed := consumed s @ [v]\<rparr>"
  have "shape ?s (xs @ [d]) (y # ys') zs ts"
    using assms ys q CGot pc_shape_keep [of s zs ts ?s] by (simp add: shape_def cons_ok_def)
  then show ?thesis using q(1) CGot by (auto intro!: steps_to_shapeI simp: on_queue_def)
qed auto

lemmas step_shapes = link_shape publish_shape free_test_shape delete_shape test_shape load_shape advance_shape

lemma thread_step_shape: "shape s xs ys zs ts \<Longrightarrow> steps_to_shape (thread_step e s)"
  by (cases e) (auto simp only: step_shapes)

lemma reachable_shape: "reachable s \<Longrightarrow> \<exists>xs ys zs ts. shape s xs ys zs ts"
proof (induction rule: reachable.induct)
  case (start a dummy)
  have "shape (start a dummy) [] [a] [] []"
    by (simp add: shape_def start_def repr_new pc_shape.simps cons_ok_def)
  then show ?case by blast
next
  case (step s e s')
  then show ?case using thread_step_shape [of s _ _ _ _ e] by (auto simp: steps_to_shape_def)
qed

lemma run_reachable: "run es s = Next s' \<Longrightarrow> reachable s \<Longrightarrow> reachable s'"
  by (induction es arbitrary: s) (auto split: outcome.splits intro: reachable.step)

section \<open>The member functions are runs of the threads\<close>

fun free_events :: "nat \<Rightarrow> 'a event list" where
  "free_events 0 = [FreeTest]"
| "free_events (Suc n) = FreeTest # Delete # free_events n"

lemma run_append: "run (es @ fs) s = (case run es s of Next s' \<Rightarrow> run fs s' | Disabled \<Rightarrow> Disabled | Undefined \<Rightarrow> Undefined)"
  by (induction es arbitrary: s) (auto split: outcome.splits)

lemma run_free_events:
  "repr (shared s) xs ys [] [] \<Longrightarrow> prod_pc s = PFree \<Longrightarrow> free_loop (shared s) = Some q \<Longrightarrow>
   run (free_events (length xs)) s = Next (s\<lparr>shared := q, prod_pc := PIdle\<rparr>)"
proof (induction xs arbitrary: s)
  case Nil
  then show ?case using repr_free_test [OF Nil(1)] by (simp add: free_loop.simps)
next
  case (Cons x xs)
  obtain q1 where q1: "free_advance (shared s) = Some (Some x, q1)" "repr q1 xs ys [] [x]"
    using repr_free_advance [OF Cons.prems(1)] by blast
  obtain q2 where q2: "delete_node (Some x) q1 = Some q2" "repr q2 xs ys [] []"
    using repr_delete [OF q1(2)] by blast
  have "q_first (shared s) \<noteq> q_divider (shared s)" using repr_free_test [OF Cons.prems(1)] by simp
  with Cons.prems(3) q1 q2 have "free_loop q2 = Some q" by (simp add: free_loop.simps [of "shared s"])
  then have "run (free_events (length xs)) (s\<lparr>shared := q2, prod_pc := PFree\<rparr>) = Next (s\<lparr>shared := q, prod_pc := PIdle\<rparr>)"
    using Cons.IH [of "s\<lparr>shared := q2, prod_pc := PFree\<rparr>"] q2(2) by simp
  then show ?case
    using \<open>q_first (shared s) \<noteq> q_divider (shared s)\<close> Cons.prems(2) q1(1) q2(1) by (simp add: on_queue_def)
qed

lemma run_produce:
  assumes "repr (shared s) xs ys [] []" "prod_pc s = PIdle" "heap (shared s) a = None"
  shows "\<exists>q. produce a t (shared s) = Some q \<and>
    run (Link a t # Publish # free_events (length xs)) s = Next (s\<lparr>shared := q, produced := produced s @ [t]\<rparr>)"
proof -
  obtain q1 where q1: "produce_link a t (shared s) = Some q1" "repr q1 xs ys [a] []"
    using repr_link [OF assms(1,3)] by blast
  obtain q2 where q2: "produce_publish q1 = Some q2" "repr q2 xs (ys @ [a]) [] []"
    using repr_publish [OF q1(2)] by blast
  obtain q3 where q3: "free_loop q2 = Some q3" using free_loop_repr [OF q2(2)] by blast
  let ?s = "s\<lparr>shared := q2, prod_pc := PFree, produced := produced s @ [t]\<rparr>"
  have "s\<lparr>prod_pc := PIdle\<rparr> = s" using assms(2) by (cases s) simp
  then have "s\<lparr>shared := q3, prod_pc := PIdle, produced := produced s @ [t]\<rparr> = s\<lparr>shared := q3, produced := produced s @ [t]\<rparr>"
    by (cases s) simp
  moreover have "run (free_events (length xs)) ?s = Next (s\<lparr>shared := q3, prod_pc := PIdle, produced := produced s @ [t]\<rparr>)"
    using run_free_events [of ?s xs "ys @ [a]" q3] q2(2) q3 by simp
  ultimately show ?thesis using assms(2,3) q1(1) q2(1) q3 by (simp add: produce_def on_queue_def)
qed

section \<open>Properties\<close>

text \<open>A run that ends with both threads in the middle of a call.\<close>

definition example_run :: "nat event list" where
  "example_run = [Link 1 10, Publish, Test, FreeTest, Load, Advance, Link 2 20, Publish, Test, Load]"

lemma example_run_result:
  "case run example_run (start 0 0) of Next s \<Rightarrow> consumed s = [10] \<and> produced s = [10, 20]
     \<and> cons_pc s = CGot 20 \<and> prod_pc s = PFree | _ \<Rightarrow> False"
  by (simp add: example_run_def start_def queue_new_def on_queue_def produce_link_def produce_publish_def
      deref_def free_advance_def delete_node_def consume_load_def consume_advance_def)

lemma example_run_next: "\<exists>s. run example_run (start 0 0) = Next s \<and> consumed s = [10] \<and> produced s = [10, 20]
    \<and> cons_pc s = CGot 20 \<and> prod_pc s = PFree \<and> reachable s"
proof (cases "run example_run (start 0 0)")
  case (Next s)
  then have "reachable s" by (rule run_reachable [OF _ reachable.start])
  with Next example_run_result show ?thesis by (simp only: outcome.case) blast
qed (use example_run_result in \<open>simp_all only: outcome.case\<close>)

text \<open>
  C1. Memory safety under every interleaving: in no state a producer and a consumer can reach does any
  step of either thread follow a null or dangling pointer, delete a node twice, or delete a node the
  other thread still uses.
\<close>

theorem queue_memory_safe: "reachable s \<Longrightarrow> thread_step e s \<noteq> Undefined"
  using reachable_shape [of s] thread_step_shape [of s _ _ _ _ e] by (fastforce simp: steps_to_shape_def)

theorem queue_memory_safe_witness: "\<exists>s. run example_run (start 0 0) = Next s \<and> thread_step Advance s \<noteq> Undefined"
  using example_run_next queue_memory_safe by blast

text \<open>
  C2. First in, first out: in every reachable state the values taken out, together with the one the
  consumer is about to return, are a prefix of the values put in; and whenever no node is linked but
  unpublished, the queue holds exactly the rest, in order.
\<close>

theorem queue_fifo:
  assumes "reachable s"
  shows "prefix (consumed s @ (case cons_pc s of CGot v \<Rightarrow> [v] | _ \<Rightarrow> [])) (produced s)
    \<and> ((\<exists>t. prod_pc s = PLinked t) \<or> produced s = consumed s @ contents (shared s))"
proof -
  obtain xs ys zs ts where sh: "shape s xs ys zs ts" using reachable_shape [OF assms] by blast
  then have p: "produced s = consumed s @ node_values (heap (shared s)) (tl ys)" by (simp add: shape_def)
  have "cons_ok s ys" using sh by (simp add: shape_def)
  then have "prefix (case cons_pc s of CGot v \<Rightarrow> [v] | _ \<Rightarrow> []) (node_values (heap (shared s)) (tl ys))"
    by (cases "tl ys") (auto simp: cons_ok_def split: consumer_pc.splits)
  moreover have "zs = [] \<or> (\<exists>t. prod_pc s = PLinked t)"
    using sh by (cases "prod_pc s") (simp_all add: shape_def pc_shape.simps)
  moreover have "contents (shared s) = node_values (heap (shared s)) (tl ys)" if "zs = []"
    using sh that repr_contents [of "shared s" xs ys ts] by (simp add: shape_def)
  ultimately show ?thesis using p by (auto simp: prefix_def)
qed

theorem queue_fifo_witness:
  "\<exists>s. run example_run (start 0 0) = Next s \<and> prefix [10, 20] (produced s)"
proof -
  obtain s where s: "run example_run (start 0 0) = Next s" "consumed s = [10]" "cons_pc s = CGot 20" "reachable s"
    using example_run_next by blast
  then show ?thesis using queue_fifo [OF s(4)] by simp
qed

text \<open>
  No leak: whenever the producer is outside \<open>produce\<close>, the destructor deletes every node and
  leaves no allocation behind; and when \<open>produce\<close> leaves its freeing loop, the nodes in memory are
  the dummy node and one per value not yet taken out.
\<close>

theorem queue_no_leak:
  assumes "reachable s"
  shows "(prod_pc s = PIdle \<longrightarrow> (\<exists>q. destroy_queue (shared s) = Some q \<and> heap q = Map.empty))
    \<and> (prod_pc s = PFree \<and> q_first (shared s) = q_divider (shared s) \<longrightarrow>
        card (dom (heap (shared s))) = 1 + (length (produced s) - length (consumed s)))"
proof -
  obtain xs ys zs ts where sh: "shape s xs ys zs ts" using reachable_shape [OF assms] by blast
  then have r: "repr (shared s) xs ys zs ts" and
    p: "length (produced s) = length (consumed s) + length (tl ys)" by (simp_all add: shape_def)
  have "\<exists>q. destroy_queue (shared s) = Some q \<and> heap q = Map.empty" if "prod_pc s = PIdle"
  proof -
    have "zs = []" "ts = []" using sh that by (simp_all add: shape_def pc_shape.simps)
    then show ?thesis using r destroy_linked [of "shared s" "xs @ ys"] by (auto simp: repr_def)
  qed
  moreover have "card (dom (heap (shared s))) = 1 + length (tl ys)"
    if "prod_pc s = PFree" "q_first (shared s) = q_divider (shared s)"
  proof -
    have "zs = []" "ts = []" "xs = []"
      using sh that repr_free_test [OF r] by (simp_all add: shape_def pc_shape.simps)
    then show ?thesis using r by (cases ys) (auto simp: repr_def distinct_card)
  qed
  ultimately show ?thesis using p by simp
qed

theorem queue_no_leak_witness:
  "\<exists>q. destroy_queue (shared (start 5 (0::nat))) = Some q \<and> heap q = Map.empty"
proof -
  have "prod_pc (start 5 (0::nat)) = PIdle" by (simp add: start_def)
  then show ?thesis using queue_no_leak [OF reachable.start [of 5 "0::nat"]] by simp
qed

text \<open>
  C36. \<open>produce\<close> and \<open>consume\<close> as sequential functions are exactly what the thread steps do
  when the other thread does not run: each call from a reachable state between calls is defined, and
  equals an uninterrupted run of its thread.
\<close>

theorem queue_calls_are_runs:
  assumes "reachable s" "prod_pc s = PIdle" "cons_pc s = CIdle" "heap (shared s) a = None"
  shows "(\<exists>q n. produce a t (shared s) = Some q
      \<and> run (Link a t # Publish # free_events n) s = Next (s\<lparr>shared := q, produced := produced s @ [t]\<rparr>))
    \<and> (\<exists>r q. consume (shared s) = Some (r, q)
      \<and> (case r of None \<Rightarrow> run [Test] s = Next s \<and> q = shared s
         | Some v \<Rightarrow> run [Test, Load, Advance] s = Next (s\<lparr>shared := q, consumed := consumed s @ [v]\<rparr>)))"
proof -
  obtain xs ys zs ts where sh: "shape s xs ys zs ts" using reachable_shape [OF assms(1)] by blast
  then have r: "repr (shared s) xs ys [] []" using assms(2) by (auto simp: shape_def pc_shape.simps)
  obtain d ys' where ys: "ys = d # ys'" using r by (cases ys) (auto simp: repr_def)
  have "\<exists>r q. consume (shared s) = Some (r, q)
      \<and> (case r of None \<Rightarrow> run [Test] s = Next s \<and> q = shared s
         | Some v \<Rightarrow> run [Test, Load, Advance] s = Next (s\<lparr>shared := q, consumed := consumed s @ [v]\<rparr>))"
  proof (cases ys')
    case Nil
    then show ?thesis
      using repr_consume_test [OF r [unfolded ys]] assms(3) by (auto simp: consume_def)
  next
    case (Cons y ys'')
    note r' = r [unfolded ys Cons]
    obtain q where q: "consume_advance (shared s) = Some q" using repr_consume_advance [OF r'] by blast
    have "s\<lparr>cons_pc := CIdle\<rparr> = s" using assms(3) by (cases s) simp
    then have "s\<lparr>shared := q, cons_pc := CIdle, consumed := c\<rparr> = s\<lparr>shared := q, consumed := c\<rparr>" for c
      by (cases s) simp
    then show ?thesis
      using repr_consume_test [OF r'] repr_consume_load [OF r'] q assms(3)
      by (simp add: consume_def on_queue_def)
  qed
  then show ?thesis using run_produce [OF r assms(2,4)] by blast
qed

theorem queue_calls_are_runs_witness:
  "\<exists>q n. produce 1 (7::nat) (shared (start 0 0)) = Some q
      \<and> run (Link 1 7 # Publish # free_events n) (start 0 0) = Next (start 0 0\<lparr>shared := q, produced := [7]\<rparr>)"
  using queue_calls_are_runs [OF reachable.start [of 0 "0::nat"], of 1 7] by (auto simp: start_def queue_new_def)

end
