(* ===== verification/Client.thy ===== *)
theory Client
  imports Url_Codec Lockfree_Queue
begin

text \<open>
  One session with a backend: \<open>src/src/linear_fcgi_client.cc\<close>. The state of a client is a
  record; a member function that releases the state mutex in the middle is given as its sections, each
  atomic under that mutex, so that the two threads can be interleaved between them. What a function asks
  of the event loop or of libuv is part of its result, and what libuv, the resolver and the allocator
  answer is an argument. The two queues are the lists of the values they hold: \<open>list_queue\<close> below
  is the interface \<open>fifo\<close> that the queue of the code implements (\<open>Lockfree_Queue\<close>).
\<close>

section \<open>Queues as lists\<close>

definition list_put :: "'a \<Rightarrow> 'a list \<Rightarrow> 'a list" where
  "list_put x q = q @ [x]"

fun list_get :: "'a list \<Rightarrow> 'a option \<times> 'a list" where
  "list_get [] = (None, [])"
| "list_get (x # q) = (Some x, q)"

lemma list_get_Some: "(Some x, q') = list_get q \<longleftrightarrow> q = x # q'"
  by (cases q) auto

interpretation list_queue: fifo "\<lambda>_. True" "\<lambda>q. q" "\<lambda>x q q'. q' = list_put x q" "\<lambda>q. Some (list_get q)"
  by unfold_locales (simp_all add: list_put_def)

section \<open>The code\<close>

text \<open>\<open>tcp_buffer_t\<close>; \<open>None\<close> is the null pointer. Copying is deep and drops empty buffers.\<close>

record tcp_buffer =
  data :: "bytes option"
  siz :: int

definition empty_buffer :: tcp_buffer where
  "empty_buffer = \<lparr>data = None, siz = 0\<rparr>"

definition copy_buffer :: "tcp_buffer \<Rightarrow> tcp_buffer" where
  "copy_buffer rhs =
     (if siz rhs > 0 then \<lparr>data = map_option (take (nat (siz rhs))) (data rhs), siz = siz rhs\<rparr>
      else empty_buffer)"

datatype client_state = CONNECTING | FAIL_CONNECT | CONNECTED | DISCONNECTING | DISCONNECTED

record client =
  client_id :: string
  host :: string
  port :: int
  state :: client_state
  allow_origins :: "string list"
  last_access :: int
  timeout :: int
  read_queue :: "tcp_buffer list"
  write_queue :: "string list"

text \<open>\<open>port_\<close> and \<open>last_access_\<close> are not initialised by the constructor: arguments.\<close>

definition new_client :: "int \<Rightarrow> int \<Rightarrow> string \<Rightarrow> string list \<Rightarrow> int \<Rightarrow> client" where
  "new_client port0 access0 cid origins tmo =
     \<lparr>client_id = cid, host = [], port = port0, state = DISCONNECTED, allow_origins = origins,
      last_access = access0, timeout = tmo, read_queue = [], write_queue = []\<rparr>"

datatype request_type = UNDEFINED | CONNECT | DISCONNECT | WRITE

subsection \<open>Called by the main thread\<close>

text \<open>
  \<open>connect\<close>: up to the first wait (the result \<open>Wait\<close> comes with the request \<open>CONNECT\<close>), and
  after each return of \<open>pthread_cond_timedwait\<close>. \<open>GiveUp\<close> is the call of \<open>disconnect\<close>
  followed by \<open>return false\<close>.
\<close>

datatype connect_next = Return bool | Wait | GiveUp

definition connect_begin :: "string \<Rightarrow> int \<Rightarrow> client \<Rightarrow> client \<times> connect_next" where
  "connect_begin h p c =
     (if state c = CONNECTING \<or> state c = CONNECTED then (c, Return True)
      else if state c = DISCONNECTING then (c, Return False)
      else (c\<lparr>host := h, port := p, state := CONNECTING\<rparr>, Wait))"

definition connect_wake :: "bool \<Rightarrow> client \<Rightarrow> client \<times> connect_next" where
  "connect_wake err c =
     (if state c = CONNECTED then (c, Return True)
      else if state c = FAIL_CONNECT then (c\<lparr>state := FAIL_CONNECT\<rparr>, Return False)
      else if err then (c, GiveUp)
      else (c, Wait))"

text \<open>\<open>disconnect\<close>: whether the request \<open>DISCONNECT\<close> follows.\<close>

definition disconnect_begin :: "client \<Rightarrow> client \<times> bool" where
  "disconnect_begin c =
     (if state c = DISCONNECTING \<or> state c = DISCONNECTED \<or> state c = FAIL_CONNECT then (c, False)
      else (c\<lparr>state := DISCONNECTING\<rparr>, True))"

definition read_allowed :: "client \<Rightarrow> bool" where
  "read_allowed c \<longleftrightarrow> \<not> (state c \<noteq> CONNECTING \<and> state c \<noteq> CONNECTED)"

definition client_read :: "int \<Rightarrow> client \<Rightarrow> int \<times> tcp_buffer \<times> client" where
  "client_read now c =
     (if \<not> read_allowed c then (- 1, empty_buffer, c)
      else case list_get (read_queue c) of
        (None, _) \<Rightarrow> (0, empty_buffer, c\<lparr>last_access := now\<rparr>)
      | (Some b, q) \<Rightarrow> (let buf = copy_buffer b in (siz buf, buf, c\<lparr>last_access := now, read_queue := q\<rparr>)))"

text \<open>\<open>write\<close>: the test, and the enqueueing that the request \<open>WRITE\<close> follows.\<close>

definition write_allowed :: "client \<Rightarrow> bool" where
  "write_allowed c \<longleftrightarrow> \<not> (state c = DISCONNECTING \<or> state c = DISCONNECTED)"

definition write_put :: "string \<Rightarrow> client \<Rightarrow> client" where
  "write_put d c = c\<lparr>write_queue := list_put d (write_queue c)\<rparr>"

subsection \<open>Called by the loop thread\<close>

text \<open>
  What \<open>_connect\<close> does besides changing the state, in order: signals of the condition variable,
  the life of the \<open>uv_connect_t\<close>, and the connection request to libuv.
\<close>

datatype effect = Signal | NewReq | FreeReq | UvConnect string int | UvReadStart | UvClose

datatype family = AF_INET | AF_INET6 | AF_OTHER

record connect_io =
  tcp_init :: int
  req_alloc :: bool
  addrinfo :: "family option"
  tcp_connect :: int

definition fail_connect :: "client \<Rightarrow> client" where
  "fail_connect c = c\<lparr>state := FAIL_CONNECT\<rparr>"

definition loop_connect :: "connect_io \<Rightarrow> client \<Rightarrow> client \<times> effect list" where
  "loop_connect io c =
     (if tcp_init io \<noteq> 0 then (fail_connect c, [Signal])
      else if \<not> req_alloc io then (fail_connect c, [Signal])
      else case addrinfo io of
        None \<Rightarrow> (fail_connect c, [NewReq, Signal])
      | Some fam \<Rightarrow>
          (let (ret, es) =
             (case fam of
                AF_INET \<Rightarrow> (tcp_connect io, [UvConnect (host c) (port c)])
              | AF_INET6 \<Rightarrow> (tcp_connect io, [UvConnect (host c) (port c)])
              | AF_OTHER \<Rightarrow> (- 1, []))
           in if ret \<noteq> 0 then (fail_connect c, NewReq # es @ [FreeReq, Signal])
              else (c, NewReq # es)))"

text \<open>
  \<open>_write\<close>: the \<open>n\<close>-th turn of the loop gets the answers \<open>io n\<close> of the allocator and of
  \<open>uv_write\<close>. The result is what libuv was given to send, and the rest of the queue.
\<close>

record write_io =
  url_alloc :: bool
  write_alloc :: bool
  uv_write :: int

function write_loop :: "(string \<Rightarrow> bytes option) \<Rightarrow> (nat \<Rightarrow> write_io) \<Rightarrow> nat \<Rightarrow> string list \<Rightarrow> bytes list \<times> string list" where
  "write_loop b64_decode io n q =
     (case list_get q of
        (None, q') \<Rightarrow> ([], q')
      | (Some d, q') \<Rightarrow>
          (case url_decode (url_alloc (io n)) d of
             None \<Rightarrow> ([], q')
           | Some urldecoded \<Rightarrow>
               (case b64_decode urldecoded of
                  None \<Rightarrow> ([], q')
                | Some buf \<Rightarrow>
                    if \<not> write_alloc (io n) then ([], q')
                    else let (sent, q'') = write_loop b64_decode io (n + 1) q'
                         in (if uv_write (io n) < 0 then sent else buf # sent, q''))))"
  by pat_completeness auto
termination
  by (relation "measure (\<lambda>(_, _, _, q). length q)") (auto simp: list_get_Some)

declare write_loop.simps [simp del]

definition loop_write :: "(string \<Rightarrow> bytes option) \<Rightarrow> (nat \<Rightarrow> write_io) \<Rightarrow> client \<Rightarrow> client \<times> bytes list" where
  "loop_write b64_decode io c =
     (let (sent, q) = write_loop b64_decode io 0 (write_queue c) in (c\<lparr>write_queue := q\<rparr>, sent))"

definition loop_disconnect :: "client \<Rightarrow> client \<times> effect list" where
  "loop_disconnect c = (c, [UvClose])"

definition on_connect :: "int \<Rightarrow> int \<Rightarrow> client \<Rightarrow> client \<times> effect list" where
  "on_connect now status c =
     (if status \<noteq> 0 \<or> state c \<noteq> CONNECTING then (fail_connect c, [Signal])
      else (c\<lparr>state := CONNECTED, last_access := now\<rparr>, [Signal, UvReadStart]))"

definition on_read :: "bool \<Rightarrow> bytes \<Rightarrow> int \<Rightarrow> client \<Rightarrow> client \<times> effect list" where
  "on_read alloc_ok d n c =
     (if state c \<noteq> CONNECTED then (c, [])
      else if n < 0 then (let (c', es) = loop_disconnect (c\<lparr>state := DISCONNECTING\<rparr>) in (c', es))
      else if n > 0 \<and> alloc_ok then
        (c\<lparr>read_queue := list_put (copy_buffer \<lparr>data = Some (take (nat n) d), siz = n\<rparr>) (read_queue c)\<rparr>, [])
      else (c, []))"

definition timer_expires :: "int \<Rightarrow> client \<Rightarrow> bool" where
  "timer_expires now c \<longleftrightarrow>
     (now - last_access c \<ge> timeout c \<and> (state c = CONNECTED \<or> state c = CONNECTING)) \<or> state c = FAIL_CONNECT"

definition on_timer :: "int \<Rightarrow> client \<Rightarrow> client \<times> effect list" where
  "on_timer now c =
     (if timer_expires now c then loop_disconnect (c\<lparr>state := DISCONNECTING\<rparr>) else (c, []))"

section \<open>Buffers\<close>

definition wf_buffer :: "tcp_buffer \<Rightarrow> bool" where
  "wf_buffer b \<longleftrightarrow> (case data b of None \<Rightarrow> siz b = 0 | Some d \<Rightarrow> siz b = int (length d) \<and> d \<noteq> [])"

lemma copy_buffer_wf: "wf_buffer b \<Longrightarrow> copy_buffer b = b"
  by (cases b) (auto simp: wf_buffer_def copy_buffer_def empty_buffer_def split: option.splits)

lemma wf_read_buffer: "n > 0 \<Longrightarrow> nat n \<le> length d \<Longrightarrow> wf_buffer (copy_buffer \<lparr>data = Some (take (nat n) d), siz = n\<rparr>)"
  by (auto simp: copy_buffer_def wf_buffer_def)

section \<open>The loop that writes\<close>

lemma write_loop_Nil [simp]: "write_loop b64 io n [] = ([], [])"
  by (simp add: write_loop.simps)

lemma write_loop_Cons: "write_loop b64 io n (d # q) =
    (case url_decode (url_alloc (io n)) d of
       None \<Rightarrow> ([], q)
     | Some u \<Rightarrow> (case b64 u of None \<Rightarrow> ([], q)
       | Some buf \<Rightarrow> if \<not> write_alloc (io n) then ([], q)
           else (if uv_write (io n) < 0 then fst (write_loop b64 io (n + 1) q)
                 else buf # fst (write_loop b64 io (n + 1) q), snd (write_loop b64 io (n + 1) q))))"
  by (simp add: write_loop.simps [of b64 io n "d # q"] case_prod_unfold Let_def split: option.split)

text \<open>Every call takes out at least the first message, and what stays is a suffix.\<close>

lemma write_loop_suffix: "\<exists>taken. q = taken @ snd (write_loop b64 io n q) \<and> (q = [] \<or> taken \<noteq> [])"
proof (induction q arbitrary: n)
  case (Cons d q)
  obtain taken where "q = taken @ snd (write_loop b64 io (n + 1) q)" using Cons.IH by blast
  then have 1: "d # q = (d # taken) @ snd (write_loop b64 io (n + 1) q)" by simp
  have 2: "d # q = [d] @ q" by simp
  have "snd (write_loop b64 io n (d # q)) = q \<or> snd (write_loop b64 io n (d # q)) = snd (write_loop b64 io (n + 1) q)"
    by (simp add: write_loop_Cons split: option.split)
  then show ?case using 1 2 by (metis list.distinct(1))
qed simp

lemma write_loop_length: "length (snd (write_loop b64 io n q)) \<le> length q - 1"
proof -
  obtain taken where q: "q = taken @ snd (write_loop b64 io n q)" "q = [] \<or> taken \<noteq> []"
    using write_loop_suffix by blast
  then have "length q = length taken + length (snd (write_loop b64 io n q))" by (metis length_append)
  with q(2) show ?thesis by (cases taken) auto
qed

text \<open>When every message decodes and nothing fails, all are sent in order.\<close>

definition decodes :: "(string \<Rightarrow> bytes option) \<Rightarrow> string \<Rightarrow> bytes \<Rightarrow> bool" where
  "decodes b64 d b \<longleftrightarrow> Option.bind (url_decode True d) b64 = Some b"

definition io_succeeds :: "(nat \<Rightarrow> write_io) \<Rightarrow> bool" where
  "io_succeeds io \<longleftrightarrow> (\<forall>n. url_alloc (io n) \<and> write_alloc (io n) \<and> 0 \<le> uv_write (io n))"

lemma write_loop_all:
  "io_succeeds io \<Longrightarrow> list_all2 (decodes b64) q bs \<Longrightarrow> write_loop b64 io n q = (bs, [])"
proof (induction q arbitrary: n bs)
  case (Cons d q)
  then obtain b bs' where bs: "bs = b # bs'" "decodes b64 d b" "list_all2 (decodes b64) q bs'"
    by (auto simp: list_all2_Cons1)
  then obtain u where "url_decode True d = Some u" "b64 u = Some b"
    by (auto simp: decodes_def bind_eq_Some_conv)
  moreover have "url_alloc (io n)" "write_alloc (io n)" "\<not> uv_write (io n) < 0"
    using Cons.prems(1) by (auto simp: io_succeeds_def not_less)
  moreover have "write_loop b64 io (n + 1) q = (bs', [])" using Cons bs(3) by blast
  ultimately show ?case using bs(1) by (simp add: write_loop_Cons)
qed simp

end
