(* ===== verification/Tcp_Buffer.thy ===== *)
theory Tcp_Buffer
  imports Client "HOL-Library.Multiset"
begin

text \<open>
  The buffers of \<open>src/src/linear_fcgi_client.h\<close> with the memory they own. Memory is a map from
  addresses to blocks of bytes; the address \<open>malloc\<close> answers is an argument (\<open>None\<close>: the null
  pointer), constrained only to be free. A null or dangling pointer that is followed, a copy past the end
  of a block and a second \<open>free\<close> are the result \<open>None\<close>. The buffers live in the nodes of the queue of
  \<open>Lockfree_Queue\<close>. The lemmas show that every buffer owns its block and that nothing else is allocated;
  \<open>Client\<close> works with the values of the buffers, which the properties connect to the memory.
\<close>

section \<open>The code\<close>

type_synonym memory = "nat \<Rightarrow> bytes option"

record tcp_buffer_t =
  buf_data :: ptr
  buf_siz :: int

definition buffer_default :: tcp_buffer_t where
  "buffer_default = \<lparr>buf_data = None, buf_siz = 0\<rparr>"

definition buffer_from :: "ptr \<Rightarrow> int \<Rightarrow> tcp_buffer_t" where
  "buffer_from d s = \<lparr>buf_data = d, buf_siz = s\<rparr>"

text \<open>\<open>malloc\<close> of \<open>n\<close> bytes followed by \<open>memcpy\<close> of \<open>n\<close> bytes from \<open>src\<close>.\<close>

definition malloc_copy :: "nat option \<Rightarrow> int \<Rightarrow> ptr \<Rightarrow> memory \<Rightarrow> (ptr \<times> memory) option" where
  "malloc_copy new n src m =
     (case (new, Option.bind src m) of
        (Some a, Some d) \<Rightarrow> if length d < nat n then None else Some (Some a, m(a \<mapsto> take (nat n) d))
      | _ \<Rightarrow> None)"

definition buffer_copy :: "nat option \<Rightarrow> tcp_buffer_t \<Rightarrow> memory \<Rightarrow> (tcp_buffer_t \<times> memory) option" where
  "buffer_copy new rhs m =
     (if buf_siz rhs > 0 then
        map_option (\<lambda>(d, m'). (\<lparr>buf_data = d, buf_siz = buf_siz rhs\<rparr>, m')) (malloc_copy new (buf_siz rhs) (buf_data rhs) m)
      else Some (\<lparr>buf_data = None, buf_siz = 0\<rparr>, m))"

text \<open>The assignment: what \<open>lhs\<close> held is overwritten, not freed.\<close>

definition buffer_assign ::
    "nat option \<Rightarrow> tcp_buffer_t \<Rightarrow> tcp_buffer_t \<Rightarrow> memory \<Rightarrow> (tcp_buffer_t \<times> memory) option" where
  "buffer_assign new lhs rhs m =
     (if buf_siz rhs > 0 then
        map_option (\<lambda>(d, m'). (lhs\<lparr>buf_data := d, buf_siz := buf_siz rhs\<rparr>, m')) (malloc_copy new (buf_siz rhs) (buf_data rhs) m)
      else Some (lhs\<lparr>buf_data := None, buf_siz := 0\<rparr>, m))"

definition buffer_destroy :: "tcp_buffer_t \<Rightarrow> memory \<Rightarrow> memory option" where
  "buffer_destroy b m =
     (case buf_data b of
        None \<Rightarrow> Some m
      | Some a \<Rightarrow> if m a = None then None else Some (m(a := None)))"

text \<open>
  A read queue with the memory of its buffers. A \<open>Node\<close> takes its value by value, so that a buffer is
  copied twice on its way in and the parameter destroyed; \<open>delete\<close> of a node destroys its value.
\<close>

type_synonym store = "tcp_buffer_t queue \<times> memory"

definition node_delete :: "ptr \<Rightarrow> store \<Rightarrow> store option" where
  "node_delete p s =
     Option.bind (deref (heap (fst s)) p) (\<lambda>n.
     Option.bind (buffer_destroy (nvalue n) (snd s)) (\<lambda>m.
     map_option (\<lambda>q. (q, m)) (delete_node p (fst s))))"

partial_function (option) store_free_loop :: "store \<Rightarrow> store option" where
  "store_free_loop s =
     (if q_first (fst s) \<noteq> q_divider (fst s) then
        Option.bind (free_advance (fst s)) (\<lambda>r.
        Option.bind (node_delete (fst r) (snd r, snd s)) store_free_loop)
      else Some s)"

record produce_io =
  param_addr :: "nat option"
  value_addr :: "nat option"
  node_addr :: nat

definition store_produce :: "produce_io \<Rightarrow> tcp_buffer_t \<Rightarrow> store \<Rightarrow> store option" where
  "store_produce io t s =
     Option.bind (buffer_copy (param_addr io) t (snd s)) (\<lambda>(val, m1).
     Option.bind (buffer_copy (value_addr io) val m1) (\<lambda>(v, m2).
     Option.bind (produce_link (node_addr io) v (fst s)) (\<lambda>q1.
     Option.bind (buffer_destroy val m2) (\<lambda>m3.
     Option.bind (produce_publish q1) (\<lambda>q2. store_free_loop (q2, m3))))))"

definition store_consume :: "nat option \<Rightarrow> tcp_buffer_t \<Rightarrow> store \<Rightarrow> (bool \<times> tcp_buffer_t \<times> store) option" where
  "store_consume new result s =
     (if q_divider (fst s) \<noteq> q_last (fst s) then
        Option.bind (consume_load (fst s)) (\<lambda>v.
        Option.bind (buffer_assign new result v (snd s)) (\<lambda>(result', m).
        map_option (\<lambda>q. (True, result', q, m)) (consume_advance (fst s))))
      else Some (False, result, s))"

text \<open>The end of \<open>Client::onRead\<close>, for \<open>n\<close> bytes of \<open>d\<close>.\<close>

definition store_read :: "nat option \<Rightarrow> produce_io \<Rightarrow> bytes \<Rightarrow> int \<Rightarrow> store \<Rightarrow> store option" where
  "store_read clone io d n s =
     (if n > 0 then
        (case clone of
           None \<Rightarrow> Some s
         | Some a \<Rightarrow>
             if length d < nat n then None
             else (let buf = buffer_from (Some a) n
                   in Option.bind (store_produce io buf (fst s, (snd s)(a \<mapsto> take (nat n) d))) (\<lambda>s'.
                      map_option (\<lambda>m. (fst s', m)) (buffer_destroy buf (snd s')))))
      else Some s)"

section \<open>Ownership\<close>

text \<open>The value a buffer has, as \<open>Client\<close> sees it.\<close>

definition value_of :: "memory \<Rightarrow> tcp_buffer_t \<Rightarrow> tcp_buffer" where
  "value_of m b = \<lparr>data = Option.bind (buf_data b) m, siz = buf_siz b\<rparr>"

definition blocks :: "tcp_buffer_t list \<Rightarrow> nat list" where
  "blocks bs = List.map_filter buf_data bs"

text \<open>Each buffer of the list has its own block, of its size, and these are all the blocks.\<close>

definition owns :: "tcp_buffer_t list \<Rightarrow> memory \<Rightarrow> bool" where
  "owns bs m \<longleftrightarrow> list_all (\<lambda>b. wf_buffer (value_of m b) \<and> (buf_data b = None \<longleftrightarrow> data (value_of m b) = None)) bs
     \<and> distinct (blocks bs) \<and> dom m = set (blocks bs)"

lemma blocks_simps [simp]:
  "blocks [] = []" "blocks (b # bs) = (case buf_data b of None \<Rightarrow> blocks bs | Some a \<Rightarrow> a # blocks bs)"
  "blocks (bs @ cs) = blocks bs @ blocks cs"
  by (simp_all add: blocks_def map_filter_def split: option.split)

lemma blocks_in: "b \<in> set bs \<Longrightarrow> buf_data b = Some a \<Longrightarrow> a \<in> set (blocks bs)"
  by (force simp: blocks_def map_filter_def)

lemma value_of_upd: "buf_data b \<noteq> Some a \<Longrightarrow> value_of (m(a := x)) b = value_of m b"
  by (cases "buf_data b") (auto simp: value_of_def)

lemma mset_blocks: "mset (blocks bs) = sum_mset (image_mset (\<lambda>b. mset (blocks [b])) (mset bs))"
  by (induction bs) (auto split: option.split)

lemma owns_perm:
  assumes "mset bs = mset cs" "owns bs m"
  shows "owns cs m"
proof -
  have "mset (blocks bs) = mset (blocks cs)" by (simp only: mset_blocks [of bs] mset_blocks [of cs] assms(1))
  then have "distinct (blocks bs) = distinct (blocks cs)" "set (blocks bs) = set (blocks cs)"
    by (auto dest: mset_eq_imp_distinct_iff mset_eq_setD)
  then show ?thesis using assms mset_eq_setD [OF assms(1)] by (simp add: owns_def list_all_iff)
qed

lemma owns_member:
  assumes "owns bs m" "b \<in> set bs"
  shows "case buf_data b of None \<Rightarrow> buf_siz b = 0 | Some a \<Rightarrow> \<exists>d. m a = Some d \<and> d \<noteq> [] \<and> buf_siz b = int (length d)"
  using assms by (auto simp: owns_def list_all_iff wf_buffer_def value_of_def split: option.splits)

text \<open>A block that becomes the block of a new buffer.\<close>

lemma own_block:
  assumes "owns bs m" "m a = None" "d \<noteq> []"
  shows "owns (\<lparr>buf_data = Some a, buf_siz = int (length d)\<rparr> # bs) (m(a \<mapsto> d))"
    "\<forall>x \<in> set bs. value_of (m(a \<mapsto> d)) x = value_of m x"
proof -
  have "a \<notin> dom m" using assms(2) by (simp only: dom_def) simp
  then have a: "a \<notin> set (blocks bs)" using assms(1) by (simp add: owns_def)
  then show v: "\<forall>x \<in> set bs. value_of (m(a \<mapsto> d)) x = value_of m x" using blocks_in by (metis value_of_upd)
  show "owns (\<lparr>buf_data = Some a, buf_siz = int (length d)\<rparr> # bs) (m(a \<mapsto> d))"
    using assms(1,3) v a by (auto simp: owns_def list_all_iff) (auto simp: value_of_def wf_buffer_def)
qed

text \<open>A copy, and an assignment to an empty buffer, get a block of their own; the value is the same.\<close>

lemma copy_owns:
  assumes "owns bs m" "b \<in> set bs" "m a = None"
  shows "\<exists>b' m'. buffer_copy (Some a) b m = Some (b', m') \<and> owns (b' # bs) m' \<and> value_of m' b' = value_of m b
    \<and> (\<forall>x \<in> set bs. value_of m' x = value_of m x)"
proof (cases "buf_data b")
  case None
  then have "buf_siz b = 0" using owns_member [OF assms(1,2)] by simp
  then show ?thesis using None assms(1) by (simp add: buffer_copy_def value_of_def owns_def wf_buffer_def)
next
  case (Some p)
  then obtain d where d: "m p = Some d" "d \<noteq> []" "buf_siz b = int (length d)"
    using owns_member [OF assms(1,2)] by auto
  then have "buffer_copy (Some a) b m = Some (\<lparr>buf_data = Some a, buf_siz = int (length d)\<rparr>, m(a \<mapsto> d))"
    "value_of (m(a \<mapsto> d)) \<lparr>buf_data = Some a, buf_siz = int (length d)\<rparr> = value_of m b"
    using Some by (simp_all add: buffer_copy_def malloc_copy_def value_of_def)
  then show ?thesis using own_block [OF assms(1,3) d(2)] by blast
qed

lemma assign_default: "buffer_assign new buffer_default rhs m = buffer_copy new rhs m"
  by (simp add: buffer_assign_def buffer_copy_def buffer_default_def)

lemma destroy_owns:
  assumes "owns (b # bs) m"
  shows "\<exists>m'. buffer_destroy b m = Some m' \<and> owns bs m' \<and> (\<forall>x \<in> set bs. value_of m' x = value_of m x)"
proof (cases "buf_data b")
  case None
  then show ?thesis using assms by (auto simp: buffer_destroy_def owns_def)
next
  case (Some a)
  then have a: "a \<notin> set (blocks bs)" "m a \<noteq> None"
    using assms by (auto simp: owns_def)
  then have v: "\<forall>x \<in> set bs. value_of (m(a := None)) x = value_of m x" using blocks_in by (metis value_of_upd)
  have "owns bs (m(a := None))" using assms Some a v by (auto simp: owns_def list_all_iff)
  then show ?thesis using Some a v by (simp add: buffer_destroy_def)
qed

section \<open>The queue\<close>

text \<open>The buffers in the nodes of the queue, and the invariant between calls; \<open>bs\<close> are buffers elsewhere.\<close>

definition holds :: "tcp_buffer_t list \<Rightarrow> nat list \<Rightarrow> nat list \<Rightarrow> nat list \<Rightarrow> store \<Rightarrow> bool" where
  "holds bs xs ys zs s \<longleftrightarrow> repr (fst s) xs ys zs [] \<and> owns (bs @ node_values (heap (fst s)) (xs @ ys @ zs)) (snd s)"

definition store_ok :: "tcp_buffer_t list \<Rightarrow> store \<Rightarrow> bool" where
  "store_ok bs s \<longleftrightarrow> (\<exists>xs ys. holds bs xs ys [] s)"

text \<open>The queue of values that \<open>Client\<close> works with.\<close>

definition values_in :: "store \<Rightarrow> tcp_buffer list" where
  "values_in s = map (value_of (snd s)) (contents (fst s))"

lemma contents_in: "holds bs xs ys [] s \<Longrightarrow> set (contents (fst s)) \<subseteq> set (node_values (heap (fst s)) (xs @ ys))"
  using repr_contents [of "fst s" xs ys "[]"] by (cases ys) (auto simp: holds_def)

lemma repr_deref: "repr q (x # xs) ys zs ts \<Longrightarrow> deref (heap q) (Some x) = Some (the (heap q x))"
  by (auto simp: repr_def deref_def)

lemma node_values_eq: "(\<And>a. a \<in> set as \<Longrightarrow> h' a = h a) \<Longrightarrow> node_values h' as = node_values h as"
  by (simp add: node_values_def)

lemma delete_heap: "delete_node (Some x) q = Some q' \<Longrightarrow> heap q' = (heap q)(x := None)"
  by (auto simp: delete_node_def split: if_splits)

lemma store_free_loop_holds:
  "holds bs xs ys zs s \<Longrightarrow> \<exists>s'. store_free_loop s = Some s' \<and> holds bs [] ys zs s'
     \<and> node_values (heap (fst s')) (ys @ zs) = node_values (heap (fst s)) (ys @ zs)
     \<and> (\<forall>b \<in> set (bs @ node_values (heap (fst s)) (ys @ zs)). value_of (snd s') b = value_of (snd s) b)"
proof (induction xs arbitrary: s)
  case Nil
  then have "q_first (fst s) = q_divider (fst s)" using repr_free_test [of "fst s" "[]"] by (auto simp: holds_def)
  then show ?case using Nil by (auto simp: store_free_loop.simps)
next
  case (Cons x xs)
  obtain q m where s: "s = (q, m)" by (cases s)
  have r: "repr q (x # xs) ys zs []" and o: "owns (bs @ node_values (heap q) (x # xs @ ys @ zs)) m"
    using Cons.prems s by (simp_all add: holds_def)
  obtain q1 where q1: "free_advance q = Some (Some x, q1)" "repr q1 xs ys zs [x]" "heap q1 = heap q"
    using repr_free_advance [OF r] by blast
  obtain q2 where q2: "delete_node (Some x) q1 = Some q2" "repr q2 xs ys zs []"
    using repr_delete [OF q1(2)] by blast
  let ?v = "nvalue (the (heap q x))" and ?rest = "bs @ node_values (heap q) (xs @ ys @ zs)"
  have "owns (?v # ?rest) m" by (rule owns_perm [OF _ o]) simp
  from destroy_owns [OF this] obtain m2 where m2: "buffer_destroy ?v m = Some m2" "owns ?rest m2"
    "\<forall>b \<in> set ?rest. value_of m2 b = value_of m b" by blast
  have "x \<notin> set (xs @ ys @ zs)" using r by (simp add: repr_def)
  then have "node_values (heap q2) as = node_values (heap q) as" if "set as \<subseteq> set (xs @ ys @ zs)" for as
    using that q1(3) delete_heap [OF q2(1)] by (intro node_values_eq) auto
  from this [of xs] this [of ys] this [of zs]
  have nv: "node_values (heap q2) xs = node_values (heap q) xs" "node_values (heap q2) ys = node_values (heap q) ys"
    "node_values (heap q2) zs = node_values (heap q) zs" by auto
  have "deref (heap q1) (Some x) = Some (the (heap q x))" using repr_deref [OF r] q1(3) by simp
  then have "node_delete (Some x) (q1, m) = Some (q2, m2)" using m2(1) q2(1) by (simp add: node_delete_def)
  then have step: "store_free_loop s = store_free_loop (q2, m2)"
    using repr_free_test [OF r] q1(1) by (simp add: s store_free_loop.simps)
  have "holds bs xs ys zs (q2, m2)" using q2(2) m2(2) nv by (simp add: holds_def)
  from Cons.IH [OF this] show ?case using step nv m2(3) by (auto simp: s)
qed

text \<open>What the allocator must answer: free addresses, different from each other.\<close>

definition fresh_io :: "produce_io \<Rightarrow> store \<Rightarrow> bool" where
  "fresh_io io s \<longleftrightarrow> (case (param_addr io, value_addr io) of
       (Some a, Some b) \<Rightarrow> a \<noteq> b \<and> snd s a = None \<and> snd s b = None
     | _ \<Rightarrow> False) \<and> heap (fst s) (node_addr io) = None"

lemma copy_frame: "buffer_copy (Some a) t m = Some (b, m') \<Longrightarrow> c \<noteq> a \<Longrightarrow> m' c = m c"
  by (auto simp: buffer_copy_def malloc_copy_def split: if_splits option.splits)

lemma link_values:
  assumes "produce_link a t q = Some q1" "heap q a = None" "c \<noteq> a"
  shows "nvalue (the (heap q1 c)) = nvalue (the (heap q c))"
  using assms by (auto simp: produce_link_def split: option.splits)

text \<open>The value of a new node: a copy of a copy, and the first copy is gone.\<close>

lemma copy_twice:
  assumes o: "owns bs m" and t: "t \<in> set bs" and f: "a \<noteq> b" "m a = None" "m b = None"
  shows "\<exists>val m1 v m2 m3. buffer_copy (Some a) t m = Some (val, m1) \<and> buffer_copy (Some b) val m1 = Some (v, m2)
    \<and> buffer_destroy val m2 = Some m3 \<and> owns (v # bs) m3 \<and> value_of m3 v = value_of m t
    \<and> (\<forall>x \<in> set bs. value_of m3 x = value_of m x)"
proof -
  obtain val m1 where m1: "buffer_copy (Some a) t m = Some (val, m1)" "owns (val # bs) m1" "value_of m1 val = value_of m t"
    "\<forall>x \<in> set bs. value_of m1 x = value_of m x"
    using copy_owns [OF o t f(2)] by auto
  have "m1 b = None" using copy_frame [OF m1(1)] f by auto
  then obtain v m2 where m2: "buffer_copy (Some b) val m1 = Some (v, m2)" "owns (v # val # bs) m2" "value_of m2 v = value_of m t"
    "\<forall>x \<in> set bs. value_of m2 x = value_of m x"
    using copy_owns [OF m1(2), of val b] m1 by auto
  have "owns (val # v # bs) m2" by (rule owns_perm [OF _ m2(2)]) simp
  from destroy_owns [OF this] show ?thesis using m1(1) m2 by auto
qed

text \<open>A node is linked and published: the values of the other nodes stay.\<close>

lemma link_publish:
  assumes r: "repr q xs ys [] []" and n: "heap q n = None"
  shows "\<exists>q1 q2. produce_link n v q = Some q1 \<and> produce_publish q1 = Some q2 \<and> repr q2 xs (ys @ [n]) [] []
    \<and> node_values (heap q2) xs = node_values (heap q) xs \<and> node_values (heap q2) (ys @ [n]) = node_values (heap q) ys @ [v]"
proof -
  obtain q1 where q1: "produce_link n v q = Some q1" "repr q1 xs ys [n] []" "nvalue (the (heap q1 n)) = v"
    using repr_link [OF r n] by blast
  obtain q2 where q2: "produce_publish q1 = Some q2" "repr q2 xs (ys @ [n]) [] []" "heap q2 = heap q1"
    using repr_publish [OF q1(2)] by blast
  have "n \<notin> set (xs @ ys)" using q1(2) by (auto simp: repr_def)
  then have "nvalue (the (heap q2 x)) = nvalue (the (heap q x))" if "x \<in> set (xs @ ys)" for x
    using that link_values [OF q1(1) n, of x] q2(3) by auto
  then have "node_values (heap q2) xs = node_values (heap q) xs" "node_values (heap q2) ys = node_values (heap q) ys"
    by (simp_all add: node_values_def)
  then show ?thesis using q1 q2 by simp
qed

lemma store_produce_holds:
  assumes h: "holds bs xs ys [] s" and t: "t \<in> set bs" and f: "fresh_io io s"
  shows "\<exists>s'. store_produce io t s = Some s' \<and> holds bs [] (ys @ [node_addr io]) [] s'
    \<and> values_in s' = values_in s @ [value_of (snd s) t] \<and> (\<forall>b \<in> set bs. value_of (snd s') b = value_of (snd s) b)"
proof -
  obtain q m where s: "s = (q, m)" by (cases s)
  let ?n = "node_addr io" and ?all = "bs @ node_values (heap q) (xs @ ys)"
  obtain a b where ab: "param_addr io = Some a" "value_addr io = Some b" "a \<noteq> b" "m a = None" "m b = None" "heap q ?n = None"
    using f by (auto simp: s fresh_io_def split: option.splits)
  have r: "repr q xs ys [] []" and o: "owns ?all m" using h by (simp_all add: s holds_def)
  have t': "t \<in> set ?all" using t by simp
  obtain val m1 v m2 m3 where m: "buffer_copy (Some a) t m = Some (val, m1)" "buffer_copy (Some b) val m1 = Some (v, m2)"
    "buffer_destroy val m2 = Some m3" "owns (v # ?all) m3" "value_of m3 v = value_of m t" "\<forall>x \<in> set ?all. value_of m3 x = value_of m x"
    using copy_twice [OF o t' ab(3-5)] by (elim exE conjE) (rule that)
  obtain q1 q2 where q: "produce_link ?n v q = Some q1" "produce_publish q1 = Some q2" "repr q2 xs (ys @ [?n]) [] []"
    "node_values (heap q2) xs = node_values (heap q) xs" "node_values (heap q2) (ys @ [?n]) = node_values (heap q) ys @ [v]"
    using link_publish [OF r ab(6)] by blast
  have "owns (bs @ node_values (heap q2) (xs @ (ys @ [?n]) @ [])) m3"
    by (rule owns_perm [OF _ m(4)]) (use q(4,5) in simp)
  then have "holds bs xs (ys @ [?n]) [] (q2, m3)" using q(3) by (simp add: holds_def)
  from store_free_loop_holds [OF this] obtain s' where s': "store_free_loop (q2, m3) = Some s'" "holds bs [] (ys @ [?n]) [] s'"
    "node_values (heap (fst s')) (ys @ [?n]) = node_values (heap q) ys @ [v]"
    "\<forall>x \<in> set (bs @ node_values (heap q) ys @ [v]). value_of (snd s') x = value_of m3 x" using q(5) by auto
  obtain d ys' where ys: "ys = d # ys'" using r by (cases ys) (auto simp: repr_def)
  have "contents (fst s') = tl (node_values (heap (fst s')) (ys @ [?n]))"
    using repr_contents [of "fst s'" "[]" "ys @ [?n]" "[]"] s'(2) by (simp add: holds_def ys)
  then have c: "contents (fst s') = contents q @ [v]" using repr_contents [OF r] unfolding s'(3) by (simp add: ys)
  have "set (contents q) \<subseteq> set (node_values (heap q) ys)" using repr_contents [OF r] by (simp add: ys) blast
  then have "values_in s' = values_in s @ [value_of (snd s) t]"
    using s'(4) m(5,6) by (auto simp: values_in_def c s)
  then show ?thesis
    using m(1-3,6) q(1,2) s'(1,2,4) ab(1,2) by (simp add: store_produce_def s)
qed

text \<open>The end of \<open>onRead\<close>, and a call of \<open>consume\<close> with an empty buffer.\<close>

definition fresh_read :: "nat option \<Rightarrow> produce_io \<Rightarrow> store \<Rightarrow> bool" where
  "fresh_read clone io s \<longleftrightarrow> (case clone of None \<Rightarrow> True
     | Some a \<Rightarrow> snd s a = None \<and> fresh_io io (fst s, (snd s)(a \<mapsto> [])))"

lemma fresh_io_block: "fresh_io io (q, m(a \<mapsto> d)) = fresh_io io (q, m(a \<mapsto> d'))"
  by (auto simp: fresh_io_def split: option.split)

lemma store_read_holds:
  assumes h: "holds bs xs ys [] s" and f: "fresh_read (Some a) io s" and d: "0 < n" "nat n \<le> length d"
  shows "\<exists>s'. store_read (Some a) io d n s = Some s' \<and> holds bs [] (ys @ [node_addr io]) [] s'
    \<and> values_in s' = values_in s @ [\<lparr>data = Some (take (nat n) d), siz = n\<rparr>]
    \<and> (\<forall>b \<in> set bs. value_of (snd s') b = value_of (snd s) b)"
proof -
  obtain q m where s: "s = (q, m)" by (cases s)
  let ?d = "take (nat n) d" and ?all = "bs @ node_values (heap q) (xs @ ys)"
  let ?m = "m(a \<mapsto> ?d)" and ?buf = "buffer_from (Some a) n"
  have a: "m a = None" "fresh_io io (q, ?m)" using f fresh_io_block [of io q m a "[]"] by (simp_all add: fresh_read_def s)
  have r: "repr q xs ys [] []" and o: "owns ?all m" using h by (simp_all add: s holds_def)
  have nd: "?d \<noteq> []" and b: "?buf = \<lparr>buf_data = Some a, buf_siz = int (length ?d)\<rparr>" using d by (auto simp: buffer_from_def)
  note m = own_block [OF o a(1) nd, folded b]
  then have "holds (?buf # bs) xs ys [] (q, ?m)" using r by (simp add: holds_def)
  from store_produce_holds [OF this _ a(2), of ?buf] obtain s1 where s1:
    "store_produce io ?buf (q, ?m) = Some s1" "holds (?buf # bs) [] (ys @ [node_addr io]) [] s1"
    "values_in s1 = values_in (q, ?m) @ [value_of ?m ?buf]" "\<forall>b \<in> set bs. value_of (snd s1) b = value_of ?m b" by auto
  let ?rest = "bs @ node_values (heap (fst s1)) (ys @ [node_addr io])"
  have "owns (?buf # ?rest) (snd s1)" using s1(2) by (simp add: holds_def)
  from destroy_owns [OF this] obtain m2 where m2: "buffer_destroy ?buf (snd s1) = Some m2" "owns ?rest m2"
    "\<forall>x \<in> set ?rest. value_of m2 x = value_of (snd s1) x" by blast
  have c: "set (contents (fst s1)) \<subseteq> set ?rest"
    using repr_contents [of "fst s1" "[]" "ys @ [node_addr io]" "[]"] s1(2) by (cases ys) (auto simp: holds_def)
  have "set (contents q) \<subseteq> set ?all" using repr_contents [OF r] by (cases ys) auto
  then have "values_in (q, ?m) = values_in s" using m(2) by (auto simp: values_in_def s)
  moreover have "values_in (fst s1, m2) = values_in s1" using m2(3) c by (auto simp: values_in_def)
  moreover have "value_of ?m ?buf = \<lparr>data = Some ?d, siz = n\<rparr>" by (simp add: value_of_def buffer_from_def)
  ultimately have "values_in (fst s1, m2) = values_in s @ [\<lparr>data = Some ?d, siz = n\<rparr>]" using s1(3) by simp
  moreover have "store_read (Some a) io d n s = Some (fst s1, m2)"
    using d s1(1) m2(1) by (simp add: store_read_def s not_less)
  moreover have "holds bs [] (ys @ [node_addr io]) [] (fst s1, m2)" using s1(2) m2(2) by (simp add: holds_def)
  ultimately show ?thesis using s1(4) m(2) m2(3) by (simp add: s)
qed

lemma store_consume_holds:
  assumes h: "holds bs xs (y # ys) [] s" and a: "snd s a = None"
  shows "case ys of
      [] \<Rightarrow> values_in s = [] \<and> store_consume (Some a) buffer_default s = Some (False, buffer_default, s)
    | _ \<Rightarrow> \<exists>b s'. store_consume (Some a) buffer_default s = Some (True, b, s') \<and> holds (b # bs) (xs @ [y]) ys [] s'
        \<and> values_in s = value_of (snd s') b # values_in s' \<and> (\<forall>b \<in> set bs. value_of (snd s') b = value_of (snd s) b)"
proof -
  obtain q m where s: "s = (q, m)" by (cases s)
  have r: "repr q xs (y # ys) [] []" and o: "owns (bs @ node_values (heap q) (xs @ y # ys)) m" using h by (simp_all add: s holds_def)
  note t = repr_consume_test [OF r]
  show ?thesis
  proof (cases ys)
    case Nil
    then show ?thesis using t repr_contents [OF r] by (simp add: store_consume_def s values_in_def)
  next
    case (Cons z zs)
    let ?v = "nvalue (the (heap q z))"
    have l: "consume_load q = Some ?v" using repr_consume_load r Cons by blast
    obtain q' where q': "consume_advance q = Some q'" "repr q' (xs @ [y]) ys [] []" "heap q' = heap q"
      using repr_consume_advance r Cons by blast
    have ma: "m a = None" using a by (simp add: s)
    have v: "?v \<in> set (bs @ node_values (heap q) (xs @ y # ys))" by (simp add: Cons)
    obtain b m' where m': "buffer_copy (Some a) ?v m = Some (b, m')" "owns (b # bs @ node_values (heap q) (xs @ y # ys)) m'"
      "value_of m' b = value_of m ?v" "\<forall>x \<in> set (bs @ node_values (heap q) (xs @ y # ys)). value_of m' x = value_of m x"
      using copy_owns [OF o v ma] by (elim exE conjE) (rule that)
    have "store_consume (Some a) buffer_default s = Some (True, b, (q', m'))"
      using t l q'(1) m'(1) Cons by (simp add: store_consume_def s assign_default)
    moreover have "holds (b # bs) (xs @ [y]) ys [] (q', m')" using q'(2,3) m'(2) by (simp add: holds_def)
    moreover have "values_in s = value_of m' b # values_in (q', m')"
      using repr_contents [OF r] repr_contents [OF q'(2)] q'(3) m'(3,4) by (auto simp: values_in_def s Cons)
    ultimately show ?thesis using m'(4) by (simp add: Cons s)
  qed
qed

lemma values_wf: "store_ok bs s \<Longrightarrow> list_all wf_buffer (values_in s)"
proof -
  assume "store_ok bs s"
  then obtain xs ys where h: "holds bs xs ys [] s" by (auto simp: store_ok_def)
  then have "list_all (\<lambda>b. wf_buffer (value_of (snd s) b)) (node_values (heap (fst s)) (xs @ ys))"
    by (simp add: holds_def owns_def list_all_iff)
  then show "list_all wf_buffer (values_in s)" using contents_in [OF h] by (auto simp: values_in_def list_all_iff)
qed

lemma owns_default: "owns (buffer_default # bs) m = owns bs m"
  by (simp add: owns_def buffer_default_def value_of_def wf_buffer_def)

text \<open>The same for the values: \<open>read\<close> into an empty buffer, and the destructor of a buffer.\<close>

lemma store_consume_read:
  assumes ok: "store_ok bs s" and a: "snd s a = None" and c: "read_queue c = values_in s" "read_allowed c"
  shows "\<exists>got b s'. store_consume (Some a) buffer_default s = Some (got, b, s') \<and> (got \<or> buf_siz b = 0)
    \<and> client_read now c = (buf_siz b, value_of (snd s') b, c\<lparr>last_access := now, read_queue := values_in s'\<rparr>)
    \<and> store_ok (b # bs) s' \<and> (\<forall>x \<in> set bs. value_of (snd s') x = value_of (snd s) x)"
proof -
  obtain xs y ys where h: "holds bs xs (y # ys) [] s"
    using ok unfolding store_ok_def holds_def repr_def by (metis list.exhaust)
  note read = c client_read_def [of now c] Let_def
  show ?thesis
  proof (cases ys)
    case Nil
    then have "values_in s = []" "store_consume (Some a) buffer_default s = Some (False, buffer_default, s)"
      using store_consume_holds [OF h a] by simp_all
    moreover have "holds (buffer_default # bs) xs (y # ys) [] s" using h owns_default by (simp add: holds_def)
    ultimately show ?thesis unfolding store_ok_def
      by (simp add: read buffer_default_def value_of_def empty_buffer_def) blast
  next
    case (Cons z zs)
    then obtain b s' where b: "store_consume (Some a) buffer_default s = Some (True, b, s')" "holds (b # bs) (xs @ [y]) ys [] s'"
      "values_in s = value_of (snd s') b # values_in s'" "\<forall>x \<in> set bs. value_of (snd s') x = value_of (snd s) x"
      using store_consume_holds [OF h a] by auto
    then have "client_read now c = (buf_siz b, value_of (snd s') b, c\<lparr>last_access := now, read_queue := values_in s'\<rparr>)"
      using values_wf [OF ok] by (simp add: read copy_buffer_wf) (simp add: value_of_def)
    then show ?thesis using b unfolding store_ok_def by blast
  qed
qed

lemma store_destroy:
  assumes "store_ok (b # bs) s"
  shows "\<exists>m. buffer_destroy b (snd s) = Some m \<and> store_ok bs (fst s, m) \<and> values_in (fst s, m) = values_in s
    \<and> (\<forall>x \<in> set bs. value_of m x = value_of (snd s) x)"
proof -
  obtain xs ys where h: "holds (b # bs) xs ys [] s" using assms by (auto simp: store_ok_def)
  let ?rest = "bs @ node_values (heap (fst s)) (xs @ ys)"
  have "owns (b # ?rest) (snd s)" using h by (simp add: holds_def)
  from destroy_owns [OF this] obtain m where m: "buffer_destroy b (snd s) = Some m" "owns ?rest m"
    "\<forall>x \<in> set ?rest. value_of m x = value_of (snd s) x" by blast
  moreover have "holds bs xs ys [] (fst s, m)" using h m(2) by (simp add: holds_def)
  moreover have "values_in (fst s, m) = values_in s" using m(3) contents_in [OF h] by (auto simp: values_in_def)
  ultimately show ?thesis unfolding store_ok_def by auto
qed

section \<open>Properties\<close>

lemma store_ok_new: "store_ok [] (queue_new a buffer_default, Map.empty)" "values_in (queue_new a buffer_default, Map.empty) = []"
proof -
  have "owns [buffer_default] Map.empty" unfolding owns_default by (simp add: owns_def)
  moreover have "node_values (heap (queue_new a buffer_default)) [a] = [buffer_default]" by (simp add: queue_new_def)
  ultimately have "holds [] [] [a] [] (queue_new a buffer_default, Map.empty)" using repr_new by (simp add: holds_def)
  then show "store_ok [] (queue_new a buffer_default, Map.empty)" unfolding store_ok_def by blast
  show "values_in (queue_new a buffer_default, Map.empty) = []"
    using repr_contents [OF repr_new, of a buffer_default] by (simp add: values_in_def)
qed

text \<open>
  C22. Data from the backend, with its memory. If the memory consists of the blocks of the queued buffers
  (and of the buffers \<open>bs\<close> held elsewhere), then \<open>onRead\<close> neither follows a null or dangling pointer nor
  copies beyond a block, whatever free addresses the allocator answers and also when it has no block for
  the clone; afterwards the memory again consists of exactly those blocks, the three copies made on the
  way and the values of the nodes that were deleted being freed; and the queue holds the values that the
  queue of \<open>Client\<close> holds after \<open>on_read\<close>.
\<close>

theorem read_buffers_owned:
  assumes "store_ok bs s" "fresh_read clone io s" "0 \<le> n" "nat n \<le> length d"
    "read_queue c = values_in s" "state c = CONNECTED"
  shows "\<exists>s'. store_read clone io d n s = Some s' \<and> store_ok bs s'
    \<and> values_in s' = read_queue (fst (on_read (clone \<noteq> None) d n c))"
proof (cases "0 < n \<and> clone \<noteq> None")
  case True
  then obtain a where a: "clone = Some a" by blast
  obtain xs ys where h: "holds bs xs ys [] s" using assms(1) by (auto simp: store_ok_def)
  from store_read_holds [OF h assms(2) [unfolded a], of n d] True assms(4) obtain s' where s':
    "store_read clone io d n s = Some s'" "holds bs [] (ys @ [node_addr io]) [] s'"
    "values_in s' = values_in s @ [\<lparr>data = Some (take (nat n) d), siz = n\<rparr>]" unfolding a by auto
  have "read_queue (fst (on_read (clone \<noteq> None) d n c)) = read_queue c @ [\<lparr>data = Some (take (nat n) d), siz = n\<rparr>]"
    using True assms(6) by (simp add: on_read_def copy_buffer_def list_put_def)
  then show ?thesis using s' assms(5) unfolding store_ok_def by auto
next
  case False
  then have "store_read clone io d n s = Some s" using assms(3) by (auto simp: store_read_def)
  moreover have "fst (on_read (clone \<noteq> None) d n c) = c" using False assms(3) by (auto simp: on_read_def)
  ultimately show ?thesis using assms(1,5) by simp
qed

text \<open>Two bytes arrive in an empty queue.\<close>

definition first_io :: produce_io where
  "first_io = \<lparr>param_addr = Some 11, value_addr = Some 12, node_addr = 2\<rparr>"

abbreviation empty_store :: store where
  "empty_store \<equiv> (queue_new 1 buffer_default, Map.empty)"

lemma first_fresh: "fresh_read (Some 10) first_io empty_store"
  by (simp add: fresh_read_def fresh_io_def first_io_def queue_new_def)

definition open_client :: client where
  "open_client = (new_client 0 0 ''id'' [] 30)\<lparr>state := CONNECTED\<rparr>"

theorem read_buffers_owned_witness:
  "\<exists>s'. store_read (Some 10) first_io [7, 8] 2 empty_store = Some s' \<and> store_ok [] s'
    \<and> values_in s' = [\<lparr>data = Some [7, 8], siz = 2\<rparr>]"
proof -
  have "read_queue open_client = []" "state open_client = CONNECTED"
    "read_queue (fst (on_read True [7, 8] 2 open_client)) = [\<lparr>data = Some [7, 8], siz = 2\<rparr>]"
    by (simp_all add: open_client_def new_client_def on_read_def list_put_def copy_buffer_def)
  then show ?thesis
    using read_buffers_owned [OF store_ok_new(1) first_fresh, of 2 "[7, 8]" open_client] store_ok_new(2) [of 1] by simp
qed

text \<open>
  C23. \<open>Client::read\<close> into a buffer that was just declared: it takes the value that \<open>Client\<close> takes, the
  buffer gets a block of its own, and after its destructor, at the end of the turn of \<open>onPoll\<close>, the
  memory consists of the blocks of the queued buffers again.
\<close>

theorem consume_buffer_owned:
  assumes "store_ok [] s" "snd s a = None" "read_queue c = values_in s" "read_allowed c"
  shows "\<exists>got b s' m. store_consume (Some a) buffer_default s = Some (got, b, s')
    \<and> client_read now c = (buf_siz b, value_of (snd s') b, c\<lparr>last_access := now, read_queue := values_in s'\<rparr>)
    \<and> store_ok [b] s' \<and> buffer_destroy b (snd s') = Some m \<and> store_ok [] (fst s', m)"
proof -
  obtain got b s' where b: "store_consume (Some a) buffer_default s = Some (got, b, s')" "store_ok [b] s'"
    "client_read now c = (buf_siz b, value_of (snd s') b, c\<lparr>last_access := now, read_queue := values_in s'\<rparr>)"
    using store_consume_read [OF assms] by blast
  then show ?thesis using store_destroy [OF b(2)] by blast
qed

text \<open>A buffer of one byte is taken out of the queue.\<close>

definition one_byte :: store where
  "one_byte = (\<lparr>heap = [1 \<mapsto> \<lparr>nvalue = buffer_default, nnext = Some 2\<rparr>,
       2 \<mapsto> \<lparr>nvalue = \<lparr>buf_data = Some 12, buf_siz = 1\<rparr>, nnext = None\<rparr>],
     q_first = Some 1, q_divider = Some 1, q_last = Some 2\<rparr>, [12 \<mapsto> [9]])"

lemma one_byte_ok: "store_ok [] one_byte" "values_in one_byte = [\<lparr>data = Some [9], siz = 1\<rparr>]"
proof -
  have r: "repr (fst one_byte) [] [1, 2] [] []" by (auto simp: repr_def one_byte_def)
  have "node_values (heap (fst one_byte)) [1, 2] = [buffer_default, \<lparr>buf_data = Some 12, buf_siz = 1\<rparr>]"
    by (simp add: one_byte_def)
  moreover have "owns [buffer_default, \<lparr>buf_data = Some 12, buf_siz = 1\<rparr>] (snd one_byte)"
    unfolding owns_default by (simp add: owns_def one_byte_def value_of_def wf_buffer_def)
  ultimately have "holds [] [] [1, 2] [] one_byte" using r by (simp add: holds_def)
  then show "store_ok [] one_byte" unfolding store_ok_def by blast
  show "values_in one_byte = [\<lparr>data = Some [9], siz = 1\<rparr>]"
    using repr_contents [OF r] by (simp add: values_in_def one_byte_def value_of_def)
qed

theorem consume_buffer_owned_witness:
  "\<exists>b s' m. store_consume (Some 13) buffer_default one_byte = Some (True, b, s') \<and> buf_siz b = 1
    \<and> buffer_destroy b (snd s') = Some m \<and> store_ok [] (fst s', m)"
proof -
  let ?c = "open_client\<lparr>read_queue := values_in one_byte\<rparr>"
  have c: "read_queue ?c = values_in one_byte" "read_allowed ?c" by (simp_all add: open_client_def read_allowed_def)
  have a: "snd one_byte 13 = None" by (simp add: one_byte_def)
  have r: "client_read 0 ?c = (1, \<lparr>data = Some [9], siz = 1\<rparr>, ?c\<lparr>last_access := 0, read_queue := []\<rparr>)"
    by (simp add: client_read_def read_allowed_def open_client_def one_byte_ok(2) copy_buffer_def)
  obtain got b s' m where w: "store_consume (Some 13) buffer_default one_byte = Some (got, b, s')" "buf_siz b = 1"
    "buffer_destroy b (snd s') = Some m" "store_ok [] (fst s', m)"
    using consume_buffer_owned [OF one_byte_ok(1) a c, of 0] r by auto
  then have got by (auto simp: store_consume_def one_byte_def bind_eq_Some_conv split: if_splits)
  then show ?thesis using w by auto
qed

text \<open>
  What the code relies on. An assignment to a buffer that holds a block does not free that block, so
  it stays allocated with no owner; and a copy or an assignment of a non-empty buffer for which \<open>malloc\<close>
  has no memory writes through a null pointer.
\<close>

theorem assign_leaks:
  assumes "owns (r # bs) m" "v \<in> set bs" "buf_data r = Some p" "buf_siz v > 0" "m a = None"
  shows "(\<exists>r' m'. buffer_assign (Some a) r v m = Some (r', m') \<and> owns (r # r' # bs) m' \<and> m' p \<noteq> None \<and> p \<notin> set (blocks (r' # bs)))
    \<and> buffer_assign None r v m = None \<and> buffer_copy None v m = None"
proof -
  have same: "buffer_assign (Some a) r v m = buffer_copy (Some a) v m"
    by (cases r) (simp add: buffer_assign_def buffer_copy_def)
  obtain r' m' where c: "buffer_copy (Some a) v m = Some (r', m')" "owns (r' # r # bs) m'"
    using copy_owns [OF assms(1) _ assms(5), of v] assms(2) by auto
  have "owns (r # r' # bs) m'" by (rule owns_perm [OF _ c(2)]) simp
  moreover from this have "p \<notin> set (blocks (r' # bs))" "p \<in> dom m'"
    using assms(3) by (auto simp: owns_def)
  ultimately show ?thesis using c(1) same assms(4) by (auto simp: buffer_assign_def buffer_copy_def malloc_copy_def)
qed

theorem assign_leaks_witness:
  "\<exists>r' m'. buffer_assign (Some 3) \<lparr>buf_data = Some 1, buf_siz = 1\<rparr> \<lparr>buf_data = Some 2, buf_siz = 1\<rparr> [1 \<mapsto> [5], 2 \<mapsto> [6]] = Some (r', m')
    \<and> m' 1 \<noteq> None \<and> 1 \<notin> set (blocks [r', \<lparr>buf_data = Some 2, buf_siz = 1\<rparr>])"
proof -
  have "owns [\<lparr>buf_data = Some 1, buf_siz = 1\<rparr>, \<lparr>buf_data = Some 2, buf_siz = 1\<rparr>] [1 \<mapsto> [5], 2 \<mapsto> [6]]"
    by (auto simp: owns_def value_of_def wf_buffer_def)
  from assign_leaks [OF this, of "\<lparr>buf_data = Some 2, buf_siz = 1\<rparr>" 1 3] show ?thesis by auto
qed

end
