(* ===== verification/Std_Map.thy ===== *)
theory Std_Map
  imports Main "HOL-Library.List_Lexorder" "HOL-Library.Char_ord"
begin

text \<open>
  The part of \<open>std::map\<close> the program uses: \<open>find\<close>, \<open>insert\<close> (which keeps the value of a
  key that is already there), \<open>erase\<close> of a found element, \<open>size\<close>, and iteration in the order of
  the keys. A map is the list of its elements in that order; strings are ordered as
  \<open>std::string\<close> orders them, by the bytes. The locale \<open>keyed\<close> states what the components rely on,
  and the list implementation is shown to have it.
\<close>

type_synonym ('k, 'v) std_map = "('k \<times> 'v) list"

fun map_find :: "('k::linorder, 'v) std_map \<Rightarrow> 'k \<Rightarrow> 'v option" where
  "map_find [] k = None"
| "map_find ((k', v) # m) k = (if k = k' then Some v else map_find m k)"

fun map_insert :: "'k::linorder \<Rightarrow> 'v \<Rightarrow> ('k, 'v) std_map \<Rightarrow> ('k, 'v) std_map" where
  "map_insert k v [] = [(k, v)]"
| "map_insert k v ((k', v') # m) =
     (if k < k' then (k, v) # (k', v') # m
      else if k = k' then (k', v') # m
      else (k', v') # map_insert k v m)"

fun map_erase :: "'k::linorder \<Rightarrow> ('k, 'v) std_map \<Rightarrow> ('k, 'v) std_map" where
  "map_erase k [] = []"
| "map_erase k ((k', v') # m) = (if k = k' then m else (k', v') # map_erase k m)"

definition map_size :: "('k, 'v) std_map \<Rightarrow> nat" where
  "map_size m = length m"

definition map_ok :: "('k::linorder, 'v) std_map \<Rightarrow> bool" where
  "map_ok m \<longleftrightarrow> sorted_wrt (<) (map fst m)"

section \<open>The interface\<close>

locale keyed =
  fixes ok :: "'m \<Rightarrow> bool"
    and none :: 'm
    and find :: "'m \<Rightarrow> 'k \<Rightarrow> 'v option"
    and insert :: "'k \<Rightarrow> 'v \<Rightarrow> 'm \<Rightarrow> 'm"
    and erase :: "'k \<Rightarrow> 'm \<Rightarrow> 'm"
    and size :: "'m \<Rightarrow> nat"
  assumes ok_none: "ok none" and find_none: "find none k = None"
    and ok_insert: "ok m \<Longrightarrow> ok (insert k v m)"
    and find_insert: "ok m \<Longrightarrow> find (insert k v m) j =
      (if j = k \<and> find m k = None then Some v else find m j)"
    and ok_erase: "ok m \<Longrightarrow> ok (erase k m)"
    and find_erase: "ok m \<Longrightarrow> find (erase k m) j = (if j = k then None else find m j)"
    and size_dom: "ok m \<Longrightarrow> finite {k. find m k \<noteq> None} \<and> size m = card {k. find m k \<noteq> None}"
begin

lemma size_insert:
  assumes "ok m"
  shows "size (insert k v m) = (if find m k = None then Suc (size m) else size m)"
proof -
  have "{j. find (insert k v m) j \<noteq> None} = Set.insert k {j. find m j \<noteq> None}"
    using assms by (auto simp: find_insert)
  then show ?thesis using size_dom [OF assms] size_dom [OF ok_insert [OF assms]]
    by (auto simp: card_insert_if insert_absorb)
qed

lemma size_erase_le: "ok m \<Longrightarrow> size (erase k m) \<le> size m"
  using size_dom [of m] size_dom [OF ok_erase, of m k] by (auto simp: find_erase intro!: card_mono)

text \<open>Inserting a list of elements from the left: the first value of every key stays.\<close>

lemma find_fold_insert:
  "ok m \<Longrightarrow> ok (fold (\<lambda>(k, v). insert k v) kvs m) \<and>
   find (fold (\<lambda>(k, v). insert k v) kvs m) j = (case find m j of Some v \<Rightarrow> Some v | None \<Rightarrow> map_of kvs j)"
proof (induction kvs arbitrary: m)
  case (Cons kv kvs)
  then show ?case by (cases kv) (auto simp: ok_insert find_insert split: option.split)
qed (simp split: option.split)

end

section \<open>The implementation has it\<close>

lemma set_map_insert: "fst ` set (map_insert k v m) = insert k (fst ` set m)"
  by (induction k v m rule: map_insert.induct) auto

lemma map_erase_subset: "set (map_erase k m) \<subseteq> set m"
  by (induction k m rule: map_erase.induct) auto

lemma map_ok_Cons: "map_ok ((k, v) # m) \<longleftrightarrow> (\<forall>j \<in> fst ` set m. k < j) \<and> map_ok m"
  by (simp add: map_ok_def)

lemma map_ok_insert: "map_ok m \<Longrightarrow> map_ok (map_insert k v m)"
  by (induction k v m rule: map_insert.induct)
    (auto simp: map_ok_Cons set_map_insert ball_Un map_ok_def dest: order.strict_trans)

lemma map_ok_erase: "map_ok m \<Longrightarrow> map_ok (map_erase k m)"
  using map_erase_subset by (induction k m rule: map_erase.induct) (fastforce simp: map_ok_Cons)+

lemma map_find_None: "k \<notin> fst ` set m \<Longrightarrow> map_find m k = None"
  by (induction m k rule: map_find.induct) auto

lemma map_find_domain: "{k. map_find m k \<noteq> None} = fst ` set m"
proof -
  have "map_find m k \<noteq> None \<longleftrightarrow> k \<in> fst ` set m" for k
    by (induction m k rule: map_find.induct) auto
  then show ?thesis by blast
qed

lemma map_find_insert:
  "map_ok m \<Longrightarrow> map_find (map_insert k v m) j = (if j = k \<and> map_find m k = None then Some v else map_find m j)"
proof (induction k v m rule: map_insert.induct)
  case (2 k v k' v' m)
  then have "k < k' \<Longrightarrow> map_find m k = None" by (intro map_find_None) (auto simp: map_ok_Cons)
  with 2 show ?case by (auto simp: map_ok_Cons)
qed auto

lemma map_find_erase: "map_ok m \<Longrightarrow> map_find (map_erase k m) j = (if j = k then None else map_find m j)"
proof (induction k m rule: map_erase.induct)
  case (2 k k' v' m)
  then have "map_find m k' = None" by (intro map_find_None) (auto simp: map_ok_Cons)
  with 2 show ?case by (auto simp: map_ok_Cons)
qed simp

lemma map_size_domain: "map_ok m \<Longrightarrow> map_size m = card (fst ` set m)"
proof -
  assume "map_ok m"
  then have "distinct (map fst m)" by (auto simp: map_ok_def strict_sorted_iff)
  then show ?thesis by (metis distinct_card length_map list.set_map map_size_def)
qed

interpretation std: keyed map_ok "[]" map_find map_insert map_erase map_size
proof
  show "map_ok []" by (simp add: map_ok_def)
  show "finite {k. map_find m k \<noteq> None} \<and> map_size m = card {k. map_find m k \<noteq> None}"
    if "map_ok m" for m :: "('a, 'b) std_map"
    using that by (simp only: map_find_domain map_size_domain finite_imageI [OF finite_set] simp_thms)
qed (simp_all add: map_ok_insert map_find_insert map_ok_erase map_find_erase)

end
