(* ===== verification/Client_Storage.thy ===== *)
theory Client_Storage
  imports Client Std_Map
begin

text \<open>
  The table of sessions, \<open>src/src/linear_fcgi_client_storage.cc\<close>: a map from identifiers to pointers,
  the clients they point to, and the mutex both threads take. The abstract view is a partial function
  from identifiers to clients; the lemmas show that the invariant \<open>storage_ok\<close> makes it one and that
  every operation acts on it as promised. The world also holds the request queue of the loop and what has
  been printed, which the other components use.
\<close>

section \<open>The code\<close>

datatype thread = MainThread | LoopThread

record world =
  client_map :: "(string, nat) std_map"
  max_clients :: nat
  clients :: "nat \<Rightarrow> client option"
  storage_lock :: "thread option"
  requests :: "(request_type \<times> nat) list"
  responses :: "string list"

definition storage_new :: "nat \<Rightarrow> world" where
  "storage_new n = \<lparr>client_map = [], max_clients = n, clients = Map.empty, storage_lock = None,
     requests = [], responses = []\<rparr>"

text \<open>The address \<open>new\<close> returns is an argument (\<open>None\<close>: it throws), with the uninitialised members.\<close>

definition storage_create ::
    "nat option \<Rightarrow> int \<Rightarrow> int \<Rightarrow> string \<Rightarrow> string list \<Rightarrow> int \<Rightarrow> world \<Rightarrow> nat option \<times> world" where
  "storage_create addr port0 access0 cid origins tmo w =
     (if map_size (client_map w) \<ge> max_clients w then (None, w)
      else if map_find (client_map w) cid \<noteq> None then (None, w)
      else case addr of
        None \<Rightarrow> (None, w)
      | Some p \<Rightarrow> (Some p, w\<lparr>clients := (clients w)(p \<mapsto> new_client port0 access0 cid origins tmo),
          client_map := map_insert cid p (client_map w)\<rparr>))"

text \<open>\<open>delete\<close> of an address without a client is undefined: \<open>None\<close>.\<close>

definition storage_destroy :: "string \<Rightarrow> world \<Rightarrow> world option" where
  "storage_destroy cid w =
     (case map_find (client_map w) cid of
        None \<Rightarrow> Some w
      | Some p \<Rightarrow>
          if clients w p = None then None
          else Some (w\<lparr>client_map := map_erase cid (client_map w), clients := (clients w)(p := None)\<rparr>))"

definition storage_get :: "string \<Rightarrow> world \<Rightarrow> nat option" where
  "storage_get cid w = map_find (client_map w) cid"

text \<open>A member function called through a pointer; a dangling pointer is undefined.\<close>

definition on_client :: "nat \<Rightarrow> (client \<Rightarrow> client \<times> 'r) \<Rightarrow> world \<Rightarrow> ('r \<times> world) option" where
  "on_client p f w =
     (case clients w p of
        None \<Rightarrow> None
      | Some c \<Rightarrow> (case f c of (c', r) \<Rightarrow> Some (r, w\<lparr>clients := (clients w)(p \<mapsto> c')\<rparr>)))"

text \<open>The iteration of \<open>onTimer\<close>; the result lists the clients whose handle is to be closed.\<close>

fun timer_loop :: "int \<Rightarrow> (string \<times> nat) list \<Rightarrow> world \<Rightarrow> (nat list \<times> world) option" where
  "timer_loop now [] w = Some ([], w)"
| "timer_loop now ((cid, p) # it) w =
     Option.bind (on_client p (on_timer now) w) (\<lambda>(es, w1).
     Option.bind (timer_loop now it w1) (\<lambda>(ps, w2).
       Some (if UvClose \<in> set es then p # ps else ps, w2)))"

definition storage_on_timer :: "int \<Rightarrow> world \<Rightarrow> (nat list \<times> world) option" where
  "storage_on_timer now w = timer_loop now (client_map w) w"

text \<open>\<open>lock\<close> waits (\<open>None\<close>) while the mutex is held, \<open>unlock\<close> is called by its owner.\<close>

definition lock_storage :: "thread \<Rightarrow> world \<Rightarrow> world option" where
  "lock_storage t w = (if storage_lock w = None then Some (w\<lparr>storage_lock := Some t\<rparr>) else None)"

definition unlock_storage :: "thread \<Rightarrow> world \<Rightarrow> world option" where
  "unlock_storage t w = (if storage_lock w = Some t then Some (w\<lparr>storage_lock := None\<rparr>) else None)"

section \<open>The abstract view\<close>

definition session :: "world \<Rightarrow> string \<Rightarrow> client option" where
  "session w cid = Option.bind (map_find (client_map w) cid) (clients w)"

definition storage_ok :: "world \<Rightarrow> bool" where
  "storage_ok w \<longleftrightarrow> map_ok (client_map w) \<and> map_size (client_map w) \<le> max_clients w
     \<and> (\<forall>cid p. map_find (client_map w) cid = Some p \<longleftrightarrow> (\<exists>c. clients w p = Some c \<and> client_id c = cid))"

lemma storage_ok_find:
  "storage_ok w \<Longrightarrow> map_find (client_map w) cid = Some p \<Longrightarrow> \<exists>c. clients w p = Some c \<and> client_id c = cid"
  by (simp add: storage_ok_def)

lemma storage_ok_live:
  "storage_ok w \<Longrightarrow> clients w p = Some c \<Longrightarrow> map_find (client_map w) (client_id c) = Some p"
  by (simp add: storage_ok_def)

lemma storage_ok_inj:
  assumes "storage_ok w" "map_find (client_map w) i = Some p" "map_find (client_map w) j = Some p"
  shows "i = j"
  using storage_ok_find [OF assms(1,2)] storage_ok_find [OF assms(1,3)] by auto

lemma session_Some:
  "storage_ok w \<Longrightarrow> session w cid = Some c \<longleftrightarrow> (\<exists>p. clients w p = Some c \<and> client_id c = cid)"
  by (auto simp: session_def bind_eq_Some_conv dest: storage_ok_find storage_ok_live)

lemma session_find:
  assumes "storage_ok w"
  shows "session w cid = None \<longleftrightarrow> map_find (client_map w) cid = None"
  using storage_ok_find [OF assms] by (cases "map_find (client_map w) cid") (auto simp: session_def)

lemma session_count: "storage_ok w \<Longrightarrow> finite (dom (session w)) \<and> map_size (client_map w) = card (dom (session w))"
proof -
  assume ok: "storage_ok w"
  have "dom (session w) = {k. map_find (client_map w) k \<noteq> None}" by (simp only: dom_def session_find [OF ok])
  then show ?thesis using std.size_dom [of "client_map w"] ok by (simp add: storage_ok_def)
qed

lemma storage_ok_new: "storage_ok (storage_new n)"
  by (simp add: storage_ok_def storage_new_def map_ok_def map_size_def)

text \<open>Updating a client in place.\<close>

lemma storage_ok_update:
  assumes "storage_ok w" "clients w p = Some c" "client_id c' = client_id c"
  shows "storage_ok (w\<lparr>clients := (clients w)(p \<mapsto> c')\<rparr>)
    \<and> session (w\<lparr>clients := (clients w)(p \<mapsto> c')\<rparr>) = (session w)(client_id c \<mapsto> c')"
proof -
  have ok: "storage_ok (w\<lparr>clients := (clients w)(p \<mapsto> c')\<rparr>)" using assms by (auto simp: storage_ok_def)
  have "session (w\<lparr>clients := (clients w)(p \<mapsto> c')\<rparr>) i = ((session w)(client_id c \<mapsto> c')) i" for i
  proof (cases "map_find (client_map w) i")
    case (Some q)
    then have "i = client_id c \<longleftrightarrow> q = p"
      using storage_ok_live [OF assms(1,2)] storage_ok_inj [OF assms(1)] by fastforce
    with Some show ?thesis by (auto simp: session_def)
  next
    case None
    then show ?thesis using storage_ok_live [OF assms(1,2)] by (auto simp: session_def)
  qed
  with ok show ?thesis by blast
qed

lemma storage_create_ok:
  assumes ok: "storage_ok w" and fresh: "\<And>p. addr = Some p \<Longrightarrow> clients w p = None"
  shows "storage_ok (snd (storage_create addr port0 access0 cid origins tmo w))"
proof (cases "fst (storage_create addr port0 access0 cid origins tmo w)")
  case None
  then show ?thesis using ok by (auto simp: storage_create_def split: option.splits if_splits)
next
  case (Some p)
  then have p: "addr = Some p" and sz: "map_size (client_map w) < max_clients w" and nf: "map_find (client_map w) cid = None"
    and w': "snd (storage_create addr port0 access0 cid origins tmo w) = w\<lparr>clients := (clients w)(p \<mapsto> new_client port0 access0 cid origins tmo),
      client_map := map_insert cid p (client_map w)\<rparr>"
    by (auto simp: storage_create_def split: option.splits if_splits)
  have m: "map_ok (client_map w)" using ok by (simp add: storage_ok_def)
  have np: "map_find (client_map w) i \<noteq> Some p" for i using storage_ok_find [OF ok] fresh [OF p] by fastforce
  have iff: "map_find (client_map w) i = Some q \<longleftrightarrow> (\<exists>c. clients w q = Some c \<and> client_id c = i)" for i q
    using ok by (simp add: storage_ok_def)
  have "map_find (map_insert cid p (client_map w)) i = Some q \<longleftrightarrow>
    (\<exists>c. ((clients w)(p \<mapsto> new_client port0 access0 cid origins tmo)) q = Some c \<and> client_id c = i)" for i q
    using nf np [of i] iff [of i q] iff [of cid q] by (auto simp: std.find_insert [OF m] new_client_def)
  then show ?thesis
    using sz m nf by (simp add: w' storage_ok_def std.ok_insert std.size_insert [OF m])
qed

lemma storage_destroy_ok:
  assumes ok: "storage_ok w"
  shows "\<exists>w'. storage_destroy cid w = Some w' \<and> storage_ok w' \<and> session w' = (session w)(cid := None)"
proof (cases "map_find (client_map w) cid")
  case None
  then have "session w cid = None" using session_find [OF ok] by blast
  then have "(session w)(cid := None) = session w" by (rule fun_upd_idem)
  with None ok show ?thesis by (simp add: storage_destroy_def)
next
  case (Some p)
  then obtain c where c: "clients w p = Some c" "client_id c = cid" using storage_ok_find [OF ok] by blast
  have m: "map_ok (client_map w)" "map_size (client_map w) \<le> max_clients w" using ok by (simp_all add: storage_ok_def)
  have iff: "map_find (client_map w) i = Some q \<longleftrightarrow> (\<exists>c. clients w q = Some c \<and> client_id c = i)" for i q
    using ok by (simp add: storage_ok_def)
  let ?w = "w\<lparr>client_map := map_erase cid (client_map w), clients := (clients w)(p := None)\<rparr>"
  have q: "map_find (client_map w) i = Some p \<longleftrightarrow> i = cid" for i
    using Some storage_ok_inj [OF ok Some] by blast
  have u: "r = p" if "clients w r = Some d" "client_id d = cid" for r d
    using iff [of cid r] that Some by auto
  have "map_find (map_erase cid (client_map w)) i = Some r \<longleftrightarrow>
      (\<exists>d. ((clients w)(p := None)) r = Some d \<and> client_id d = i)" for i r
  proof (cases "r = p \<or> i = cid")
    case True
    then have "map_find (map_erase cid (client_map w)) i \<noteq> Some r"
      using q [of i] by (auto simp: std.find_erase [OF m(1)])
    moreover have "\<not> (\<exists>d. ((clients w)(p := None)) r = Some d \<and> client_id d = i)"
      using True u [of r] by auto
    ultimately show ?thesis by simp
  next
    case False
    then show ?thesis using iff [of i r] by (simp add: std.find_erase [OF m(1)])
  qed
  then have "storage_ok ?w"
    using m std.size_erase_le [OF m(1), of cid] by (simp add: storage_ok_def std.ok_erase)
  moreover have "session ?w i = ((session w)(cid := None)) i" for i
    using q by (cases "map_find (client_map w) i") (auto simp: session_def std.find_erase [OF m(1)])
  ultimately show ?thesis using Some c by (auto simp: storage_destroy_def)
qed

text \<open>The timer handles every client once, whatever the earlier ones did.\<close>

lemma on_timer_id: "client_id (fst (on_timer now c)) = client_id c"
  by (simp add: on_timer_def loop_disconnect_def)

lemma on_timer_closes: "UvClose \<in> set (snd (on_timer now c)) \<longleftrightarrow> timer_expires now c"
  by (simp add: on_timer_def loop_disconnect_def)

lemma on_client_Some:
  "clients w p = Some c \<Longrightarrow> on_client p f w = Some (snd (f c), w\<lparr>clients := (clients w)(p \<mapsto> fst (f c))\<rparr>)"
  by (simp add: on_client_def case_prod_unfold)

lemma timer_loop_spec:
  "storage_ok w \<Longrightarrow> distinct (map fst it) \<Longrightarrow> \<forall>(i, p) \<in> set it. map_find (client_map w) i = Some p \<Longrightarrow>
   \<exists>w'. timer_loop now it w = Some (map snd (filter (\<lambda>(i, p). timer_expires now (the (session w i))) it), w')
     \<and> storage_ok w' \<and> w' = w\<lparr>clients := clients w'\<rparr>
     \<and> (\<forall>i. session w' i = (if i \<in> fst ` set it then map_option (\<lambda>c. fst (on_timer now c)) (session w i) else session w i))"
proof (induction it arbitrary: w)
  case Nil
  then show ?case by simp
next
  case (Cons ip it)
  obtain i p where ip: "ip = (i, p)" by (cases ip)
  with Cons.prems(3) have find: "map_find (client_map w) i = Some p" by simp
  then obtain c where c: "clients w p = Some c" "client_id c = i" using storage_ok_find [OF Cons.prems(1)] by blast
  let ?w = "w\<lparr>clients := (clients w)(p \<mapsto> fst (on_timer now c))\<rparr>"
  have upd: "storage_ok ?w" "session ?w = (session w)(i \<mapsto> fst (on_timer now c))"
    using storage_ok_update [OF Cons.prems(1) c(1) on_timer_id] c(2) by simp_all
  have rest: "distinct (map fst it)" "\<forall>(i, p) \<in> set it. map_find (client_map ?w) i = Some p" and ni: "i \<notin> fst ` set it"
    using Cons.prems(2,3) ip by auto
  obtain w' where w': "timer_loop now it ?w = Some (map snd (filter (\<lambda>(i, p). timer_expires now (the (session ?w i))) it), w')"
    "storage_ok w'" "w' = ?w\<lparr>clients := clients w'\<rparr>"
    "\<forall>j. session w' j = (if j \<in> fst ` set it then map_option (\<lambda>c. fst (on_timer now c)) (session ?w j) else session ?w j)"
    using Cons.IH [OF upd(1) rest] by blast
  have s: "session w i = Some c" using find c by (simp add: session_def)
  have f: "filter (\<lambda>(i, p). timer_expires now (the (session ?w i))) it = filter (\<lambda>(i, p). timer_expires now (the (session w i))) it"
    using ni by (intro filter_cong) (auto simp: upd(2) image_iff)
  have "timer_loop now (ip # it) w = Some (map snd (filter (\<lambda>(i, p). timer_expires now (the (session w i))) (ip # it)), w')"
    using w'(1) f s by (simp add: ip on_client_Some [OF c(1)] on_timer_closes)
  moreover have "\<forall>j. session w' j = (if j \<in> fst ` set (ip # it) then map_option (\<lambda>c. fst (on_timer now c)) (session w j) else session w j)"
    using w'(4) ni s by (auto simp: ip upd(2))
  moreover have "w' = w\<lparr>clients := clients w'\<rparr>" using w'(3) by (metis (no_types, lifting) world.unfold_congs(3) world.update_convs(3) world.surjective world.cases_scheme)
  ultimately show ?case using w'(2) by blast
qed

lemma storage_ok_distinct:
  assumes "storage_ok w"
  shows "distinct (map fst (client_map w))" "(i, p) \<in> set (client_map w) \<Longrightarrow> map_find (client_map w) i = Some p"
proof -
  have m: "map_ok (client_map w)" using assms by (simp add: storage_ok_def)
  then show "distinct (map fst (client_map w))" by (auto simp: map_ok_def strict_sorted_iff)
  have "map_ok m \<Longrightarrow> (i, p) \<in> set m \<Longrightarrow> map_find m i = Some p" for m :: "(string, nat) std_map"
    by (induction m i rule: map_find.induct) (auto simp: map_ok_Cons)
  then show "(i, p) \<in> set (client_map w) \<Longrightarrow> map_find (client_map w) i = Some p" using m by blast
qed

lemma map_find_in: "map_find m i = Some p \<Longrightarrow> (i, p) \<in> set m"
  by (induction m i rule: map_find.induct) (auto split: if_splits)

lemma storage_ok_member:
  "storage_ok w \<Longrightarrow> i \<in> fst ` set (client_map w) \<longleftrightarrow> session w i \<noteq> None"
  by (simp only: session_find map_find_domain [symmetric] mem_Collect_eq)

lemma storage_on_timer_ok:
  assumes "storage_ok w"
  shows "\<exists>ps w'. storage_on_timer now w = Some (ps, w') \<and> storage_ok w' \<and> w' = w\<lparr>clients := clients w'\<rparr>
    \<and> session w' = (\<lambda>i. map_option (\<lambda>c. fst (on_timer now c)) (session w i))
    \<and> ps = map snd (filter (\<lambda>(i, p). timer_expires now (the (session w i))) (client_map w))"
proof -
  obtain w' where w': "timer_loop now (client_map w) w =
      Some (map snd (filter (\<lambda>(i, p). timer_expires now (the (session w i))) (client_map w)), w')"
    "storage_ok w'" "w' = w\<lparr>clients := clients w'\<rparr>"
    "\<forall>i. session w' i = (if i \<in> fst ` set (client_map w) then map_option (\<lambda>c. fst (on_timer now c)) (session w i) else session w i)"
    using timer_loop_spec [OF assms storage_ok_distinct(1) [OF assms]] storage_ok_distinct(2) [OF assms] by blast
  have "session w' i = map_option (\<lambda>c. fst (on_timer now c)) (session w i)" for i
    using w'(4) storage_ok_member [OF assms, of i] by (cases "session w i") simp_all
  then show ?thesis using w'(1-3) by (auto simp: storage_on_timer_def)
qed

lemma storage_create_cases:
  assumes "storage_ok w" "\<And>p. addr = Some p \<Longrightarrow> clients w p = None"
  shows "(case storage_create addr port0 access0 cid origins tmo w of
      (None, w') \<Rightarrow> w' = w \<and> (max_clients w \<le> card (dom (session w)) \<or> session w cid \<noteq> None \<or> addr = None)
    | (Some p, w') \<Rightarrow> card (dom (session w)) < max_clients w \<and> session w cid = None \<and> addr = Some p
        \<and> storage_get cid w' = Some p \<and> session w' = (session w)(cid \<mapsto> new_client port0 access0 cid origins tmo))
    \<and> storage_ok (snd (storage_create addr port0 access0 cid origins tmo w))"
proof (cases "storage_create addr port0 access0 cid origins tmo w")
  case r: (Pair r w')
  have ok: "storage_ok w'" using storage_create_ok [of w addr port0 access0 cid origins tmo] assms r by simp
  show ?thesis
  proof (cases r)
    case None
    with r have "w' = w" "max_clients w \<le> map_size (client_map w) \<or> map_find (client_map w) cid \<noteq> None \<or> addr = None"
      by (auto simp: storage_create_def split: if_splits option.splits)
    then show ?thesis using r None ok session_count [OF assms(1)] session_find [OF assms(1)] by simp
  next
    case (Some p)
    have m: "map_ok (client_map w)" using assms(1) by (simp add: storage_ok_def)
    from r Some have c: "addr = Some p" "map_size (client_map w) < max_clients w" "map_find (client_map w) cid = None"
      and w': "w' = w\<lparr>clients := (clients w)(p \<mapsto> new_client port0 access0 cid origins tmo), client_map := map_insert cid p (client_map w)\<rparr>"
      by (auto simp: storage_create_def split: if_splits option.splits)
    have "map_find (client_map w) i \<noteq> Some p" for i
      using storage_ok_find [OF assms(1)] assms(2) [OF c(1)] by fastforce
    then have "session w' i = ((session w)(cid \<mapsto> new_client port0 access0 cid origins tmo)) i" for i
      using c(3) by (cases "map_find (client_map w) i") (auto simp: session_def w' std.find_insert [OF m])
    moreover have "storage_get cid w' = Some p" using c(3) by (simp add: storage_get_def w' std.find_insert [OF m])
    ultimately show ?thesis
      using r Some ok c session_count [OF assms(1)] session_find [OF assms(1), of cid] by (auto simp: fun_eq_iff)
  qed
qed

lemma storage_timer_ok:
  assumes "storage_ok w"
  shows "\<exists>ps w'. storage_on_timer now w = Some (ps, w') \<and> storage_ok w' \<and> w' = w\<lparr>clients := clients w'\<rparr>
    \<and> session w' = (\<lambda>i. map_option (\<lambda>c. fst (on_timer now c)) (session w i))
    \<and> distinct ps \<and> set ps = {p. \<exists>c. clients w p = Some c \<and> timer_expires now c}"
proof -
  obtain ps w' where w': "storage_on_timer now w = Some (ps, w')" "storage_ok w'" "w' = w\<lparr>clients := clients w'\<rparr>"
    "session w' = (\<lambda>i. map_option (\<lambda>c. fst (on_timer now c)) (session w i))"
    "ps = map snd (filter (\<lambda>(i, p). timer_expires now (the (session w i))) (client_map w))"
    using storage_on_timer_ok [OF assms] by blast
  have live: "\<exists>c. clients w p = Some c \<and> client_id c = i \<and> session w i = Some c" if "(i, p) \<in> set (client_map w)" for i p
    using storage_ok_distinct(2) [OF assms that] storage_ok_find [OF assms, of i p] by (auto simp: session_def)
  have "inj_on snd (set (client_map w))" using live by (auto simp: inj_on_def dest!: live)
  moreover have "distinct (client_map w)" using storage_ok_distinct(1) [OF assms] by (simp add: distinct_map)
  ultimately have "distinct ps" unfolding w'(5) by (auto simp: distinct_map intro: inj_on_subset)
  moreover have "p \<in> set ps \<longleftrightarrow> (\<exists>c. clients w p = Some c \<and> timer_expires now c)" for p
  proof
    assume "p \<in> set ps"
    then obtain i where "(i, p) \<in> set (client_map w)" "timer_expires now (the (session w i))" by (auto simp: w'(5))
    then show "\<exists>c. clients w p = Some c \<and> timer_expires now c" using live by fastforce
  next
    assume "\<exists>c. clients w p = Some c \<and> timer_expires now c"
    then obtain c where c: "clients w p = Some c" "timer_expires now c" by blast
    then have find: "map_find (client_map w) (client_id c) = Some p" using storage_ok_live [OF assms] by blast
    then have "session w (client_id c) = Some c" using c by (simp add: session_def)
    then show "p \<in> set ps" using map_find_in [OF find] c by (force simp: w'(5))
  qed
  ultimately show ?thesis using w'(1-4) by auto
qed

section \<open>Properties\<close>

definition example_world :: world where
  "example_world = snd (storage_create (Some 7) 0 0 ''a'' [''x''] 30 (storage_new 1))"

lemma example_world_unfold:
  "example_world = (storage_new 1)\<lparr>clients := [7 \<mapsto> new_client 0 0 ''a'' [''x''] 30], client_map := [(''a'', 7)]\<rparr>"
  by (simp add: example_world_def storage_create_def storage_new_def map_size_def)

lemma example_world_ok: "storage_ok example_world"
  unfolding example_world_def by (rule storage_create_ok [OF storage_ok_new]) (simp add: storage_new_def)

text \<open>
  C26. \<open>create\<close> adds a session exactly when there are fewer than \<open>max_clients\<close>, none has the
  identifier, and memory is available; then the new session is \<open>DISCONNECTED\<close>, found under its
  identifier, and no other session changes. Otherwise nothing changes. The table stays consistent and never
  holds more than \<open>max_clients\<close> sessions.
\<close>

theorem storage_create_spec:
  assumes "storage_ok w" "\<And>p. addr = Some p \<Longrightarrow> clients w p = None"
  shows "(case storage_create addr port0 access0 cid origins tmo w of
      (None, w') \<Rightarrow> w' = w \<and> (max_clients w \<le> card (dom (session w)) \<or> session w cid \<noteq> None \<or> addr = None)
    | (Some p, w') \<Rightarrow> card (dom (session w)) < max_clients w \<and> session w cid = None \<and> addr = Some p
        \<and> storage_get cid w' = Some p \<and> session w' = (session w)(cid \<mapsto> new_client port0 access0 cid origins tmo))
    \<and> (let w' = snd (storage_create addr port0 access0 cid origins tmo w) in
         storage_ok w' \<and> max_clients w' = max_clients w \<and> card (dom (session w')) \<le> max_clients w')"
proof -
  let ?w = "snd (storage_create addr port0 access0 cid origins tmo w)"
  have ok: "storage_ok ?w" using storage_create_ok [OF assms(1)] assms(2) by blast
  then have "card (dom (session ?w)) \<le> max_clients ?w" using session_count [OF ok] by (simp add: storage_ok_def)
  moreover have "max_clients ?w = max_clients w" by (simp add: storage_create_def split: option.split)
  ultimately show ?thesis
    using storage_create_cases [where w = w and addr = addr and cid = cid and origins = origins and tmo = tmo
        and ?port0.0 = port0 and ?access0.0 = access0] assms ok by (simp add: Let_def)
qed

theorem storage_create_spec_witness:
  "storage_get ''a'' (snd (storage_create (Some 7) 0 0 ''a'' [] 30 (storage_new 1))) = Some 7"
proof -
  have "fst (storage_create (Some 7) 0 0 ''a'' [] 30 (storage_new 1)) = Some 7"
    by (simp add: storage_create_def storage_new_def map_size_def)
  moreover have "clients (storage_new 1) p = None" for p by (simp add: storage_new_def)
  ultimately show ?thesis
    using storage_create_spec [OF storage_ok_new [of 1], where addr = "Some 7" and ?port0.0 = 0 and ?access0.0 = 0
        and cid = "''a''" and origins = "[]" and tmo = 30]
    by (auto split: prod.splits option.splits)
qed

text \<open>
  \<open>destroy\<close> never deletes a dangling or foreign pointer: from a consistent table it removes
  exactly the named session, frees exactly its client, and leaves the table consistent.
\<close>

theorem storage_destroy_spec:
  assumes "storage_ok w"
  shows "\<exists>w'. storage_destroy cid w = Some w' \<and> storage_ok w' \<and> session w' = (session w)(cid := None)
    \<and> storage_get cid w' = None \<and> (\<forall>p c. clients w p = Some c \<and> client_id c \<noteq> cid \<longrightarrow> clients w' p = Some c)"
proof -
  obtain w' where w': "storage_destroy cid w = Some w'" "storage_ok w'" "session w' = (session w)(cid := None)"
    using storage_destroy_ok [OF assms] by blast
  have "storage_get cid w' = None" using w'(3) session_find [OF w'(2), of cid] by (simp add: storage_get_def)
  moreover have "clients w' p = Some c" if "clients w p = Some c" "client_id c \<noteq> cid" for p c
    using w'(1) that storage_ok_find [OF assms, of cid p]
    by (auto simp: storage_destroy_def split: option.splits if_splits)
  ultimately show ?thesis using w' by blast
qed

theorem storage_destroy_spec_witness:
  "\<exists>w'. storage_destroy ''a'' example_world = Some w' \<and> storage_get ''a'' w' = None"
  using storage_destroy_spec [OF example_world_ok, of "''a''"] by blast

text \<open>
  C27. One tick of the timer touches every session of a consistent table exactly once. It asks libuv to
  close exactly the clients that failed to connect, at any age, and those that are connected or
  connecting and were last used at least the timeout ago; it marks them \<open>DISCONNECTING\<close> and changes
  nothing else. A client that was never connected, or is being closed already, is never closed by the timer.
\<close>

theorem storage_timer_spec:
  assumes "storage_ok w"
  shows "\<exists>ps w'. storage_on_timer now w = Some (ps, w') \<and> storage_ok w' \<and> w' = w\<lparr>clients := clients w'\<rparr>
    \<and> session w' = (\<lambda>i. map_option (\<lambda>c.
        if state c = FAIL_CONNECT \<or> state c \<in> {CONNECTED, CONNECTING} \<and> timeout c \<le> now - last_access c
        then c\<lparr>state := DISCONNECTING\<rparr> else c) (session w i))
    \<and> distinct ps
    \<and> (\<forall>p. p \<in> set ps \<longleftrightarrow> (\<exists>c. clients w p = Some c
        \<and> (state c = FAIL_CONNECT \<or> state c \<in> {CONNECTED, CONNECTING} \<and> timeout c \<le> now - last_access c)))"
proof -
  let ?due = "\<lambda>c. state c = FAIL_CONNECT \<or> state c \<in> {CONNECTED, CONNECTING} \<and> timeout c \<le> now - last_access c"
  have due: "timer_expires now = ?due" by (auto simp: timer_expires_def)
  have "(\<lambda>c. fst (on_timer now c)) = (\<lambda>c. if timer_expires now c then c\<lparr>state := DISCONNECTING\<rparr> else c)"
    by (simp add: on_timer_def loop_disconnect_def fun_eq_iff)
  note timer = storage_timer_ok [OF assms, of now, unfolded this, unfolded due]
  show ?thesis using timer by blast
qed

text \<open>A client that failed to connect, with time left, is closed; one that was never connected is not.\<close>

definition failed_world :: world where
  "failed_world = example_world\<lparr>clients := [7 \<mapsto> (new_client 0 0 ''a'' [''x''] 30)\<lparr>state := FAIL_CONNECT\<rparr>]\<rparr>"

lemma failed_world_ok: "storage_ok failed_world"
  using example_world_ok by (auto simp: storage_ok_def failed_world_def example_world_unfold)

theorem storage_timer_spec_witness:
  "(\<exists>ps w'. storage_on_timer 0 failed_world = Some (ps, w') \<and> 7 \<in> set ps)
   \<and> (\<exists>ps w'. storage_on_timer 50 example_world = Some (ps, w') \<and> 7 \<notin> set ps \<and> session w' ''a'' = session example_world ''a'')"
proof
  show "\<exists>ps w'. storage_on_timer 0 failed_world = Some (ps, w') \<and> 7 \<in> set ps"
    using storage_timer_spec [OF failed_world_ok, of 0] by (auto simp: failed_world_def)
  have "session example_world ''a'' = Some (new_client 0 0 ''a'' [''x''] 30)"
    by (simp add: example_world_unfold session_def)
  then show "\<exists>ps w'. storage_on_timer 50 example_world = Some (ps, w') \<and> 7 \<notin> set ps \<and> session w' ''a'' = session example_world ''a''"
    using storage_timer_spec [OF example_world_ok, of 50]
    by (auto simp: example_world_unfold new_client_def)
qed

end
