(* ===== verification/Loop.thy ===== *)
theory Loop
  imports Client_Storage
begin

text \<open>
  The event loop, \<open>src/src/linear_fcgi_loop.cc\<close>: the request queue between the threads, and the
  callbacks libuv calls on the loop thread. A callback gets the address of a client; what it asks of
  libuv is collected as actions on that client. \<open>None\<close> is an access to a client that has been
  deleted, or a mutex that is not free. The lemmas give the effect of draining the request queue and of
  each callback on the sessions.
\<close>

section \<open>The code\<close>

datatype action = Effect effect | Send bytes

definition loop_execute :: "request_type \<Rightarrow> nat \<Rightarrow> world \<Rightarrow> world" where
  "loop_execute t p w = w\<lparr>requests := list_put (t, p) (requests w)\<rparr>"

text \<open>What the outside answers while one request is handled.\<close>

record request_io =
  conn :: connect_io
  writes :: "nat \<Rightarrow> write_io"

fun handle_request :: "(string \<Rightarrow> bytes option) \<Rightarrow> request_io \<Rightarrow> request_type \<times> nat \<Rightarrow> world \<Rightarrow>
    ((nat \<times> action) list \<times> world) option" where
  "handle_request b64 io (CONNECT, p) w =
     map_option (\<lambda>(es, w'). (map (\<lambda>e. (p, Effect e)) es, w')) (on_client p (loop_connect (conn io)) w)"
| "handle_request b64 io (DISCONNECT, p) w =
     map_option (\<lambda>(es, w'). (map (\<lambda>e. (p, Effect e)) es, w')) (on_client p loop_disconnect w)"
| "handle_request b64 io (WRITE, p) w =
     map_option (\<lambda>(bs, w'). (map (\<lambda>b. (p, Send b)) bs, w')) (on_client p (loop_write b64 (writes io)) w)"
| "handle_request b64 io (UNDEFINED, p) w = Some ([], w)"

text \<open>\<open>onAsync\<close>: consume and handle until the queue is empty. Handling never adds a request.\<close>

partial_function (option) on_async ::
    "(string \<Rightarrow> bytes option) \<Rightarrow> (nat \<Rightarrow> request_io) \<Rightarrow> nat \<Rightarrow> world \<Rightarrow> ((nat \<times> action) list \<times> world) option" where
  "on_async b64 io n w =
     (case list_get (requests w) of
        (None, _) \<Rightarrow> Some ([], w)
      | (Some r, q) \<Rightarrow>
          Option.bind (handle_request b64 (io n) r (w\<lparr>requests := q\<rparr>)) (\<lambda>(as, w1).
          Option.bind (on_async b64 io (n + 1) w1) (\<lambda>(bs, w2). Some (as @ bs, w2))))"

definition loop_on_connect :: "int \<Rightarrow> int \<Rightarrow> nat \<Rightarrow> world \<Rightarrow> ((nat \<times> action) list \<times> world) option" where
  "loop_on_connect now status p w =
     map_option (\<lambda>(es, w'). (map (\<lambda>e. (p, Effect e)) (es @ [FreeReq]), w')) (on_client p (on_connect now status) w)"

definition loop_on_disconnect :: "nat \<Rightarrow> world \<Rightarrow> world option" where
  "loop_on_disconnect p w =
     Option.bind (clients w p) (\<lambda>c.
     Option.bind (lock_storage LoopThread w) (\<lambda>w1.
     Option.bind (storage_destroy (client_id c) w1) (unlock_storage LoopThread)))"

definition loop_on_read :: "bool \<Rightarrow> bytes \<Rightarrow> int \<Rightarrow> nat \<Rightarrow> world \<Rightarrow> ((nat \<times> action) list \<times> world) option" where
  "loop_on_read alloc_ok d n p w =
     map_option (\<lambda>(es, w'). (map (\<lambda>e. (p, Effect e)) es, w')) (on_client p (on_read alloc_ok d n) w)"

definition loop_on_timer :: "int \<Rightarrow> world \<Rightarrow> ((nat \<times> action) list \<times> world) option" where
  "loop_on_timer now w =
     Option.bind (lock_storage LoopThread w) (\<lambda>w1.
     Option.bind (storage_on_timer now w1) (\<lambda>(ps, w2).
     Option.bind (unlock_storage LoopThread w2) (\<lambda>w3. Some (map (\<lambda>p. (p, Effect UvClose)) ps, w3))))"

text \<open>
  \<open>run\<close> on the answers of \<open>uv_async_init\<close>, \<open>uv_timer_init\<close> and \<open>uv_thread_create\<close>:
  the calls made, or \<open>None\<close> for a failed assertion. The timer ticks every second.
\<close>

datatype uv_setup = AsyncInit | TimerInit | TimerStart nat nat | ThreadCreate

definition loop_run :: "int \<Rightarrow> int \<Rightarrow> int \<Rightarrow> (uv_setup list \<times> int) option" where
  "loop_run async_ret timer_ret thread_ret =
     (if async_ret \<noteq> 0 then None
      else if timer_ret \<noteq> 0 then None
      else Some ([AsyncInit, TimerInit, TimerStart 1000 1000, ThreadCreate], thread_ret))"

text \<open>The buffer for a read, null when \<open>malloc\<close> fails, and its length cast to \<open>unsigned int\<close>.\<close>

definition on_alloc :: "(nat \<Rightarrow> nat option) \<Rightarrow> nat \<Rightarrow> nat option \<times> nat" where
  "on_alloc malloc suggested = (malloc suggested, suggested mod 2 ^ 32)"

text \<open>What was allocated for a message is released, whatever the status, given the blocks that are allocated.\<close>

definition on_write :: "nat \<Rightarrow> nat \<Rightarrow> int \<Rightarrow> nat set \<Rightarrow> nat set" where
  "on_write buffer write_req status blocks = blocks - {buffer} - {write_req}"

section \<open>Draining the request queue\<close>

lemma loop_connect_id: "client_id (fst (loop_connect io c)) = client_id c"
  by (simp add: loop_connect_def fail_connect_def Let_def case_prod_unfold split: option.split)

lemma loop_write_id: "client_id (fst (loop_write b64 io c)) = client_id c"
  by (simp add: loop_write_def case_prod_unfold Let_def)

lemma on_client_world:
  "on_client p f w = Some (r, w') \<Longrightarrow> requests w' = requests w \<and> client_map w' = client_map w
    \<and> max_clients w' = max_clients w \<and> dom (clients w') = dom (clients w)"
  by (auto simp: on_client_def split: option.splits prod.splits if_splits)

lemma on_client_ok:
  assumes "storage_ok w" "on_client p f w = Some (r, w')" "\<And>c. client_id (fst (f c)) = client_id c"
  shows "storage_ok w'"
proof -
  obtain c where c: "clients w p = Some c" using assms(2) by (auto simp: on_client_def split: option.splits)
  then have "w' = w\<lparr>clients := (clients w)(p \<mapsto> fst (f c))\<rparr>" using assms(2) by (simp add: on_client_Some)
  then show ?thesis using storage_ok_update [OF assms(1) c assms(3)] by simp
qed

lemma handle_request_total:
  assumes "fst r = UNDEFINED \<or> clients w (snd r) \<noteq> None"
  shows "\<exists>as w'. handle_request b64 io r w = Some (as, w')"
  using assms by (cases "(b64, io, r, w)" rule: handle_request.cases) (auto simp: on_client_def split: prod.splits)

lemma handle_request_world:
  assumes "handle_request b64 io r w = Some (as, w')"
  shows "requests w' = requests w \<and> client_map w' = client_map w \<and> max_clients w' = max_clients w
    \<and> dom (clients w') = dom (clients w)"
  using assms on_client_world
  by (cases "(b64, io, r, w)" rule: handle_request.cases) (auto 0 3 dest: on_client_world)

lemma handle_request_ok:
  assumes "handle_request b64 io r w = Some (as, w')" "storage_ok w"
  shows "storage_ok w'"
  using assms by (cases "(b64, io, r, w)" rule: handle_request.cases)
    (auto elim!: on_client_ok simp: loop_connect_id loop_write_id loop_disconnect_def)

lemma handle_request_other:
  assumes "handle_request b64 io (t, p) w = Some (as, w')" "q \<noteq> p"
  shows "clients w' q = clients w q"
  using assms by (cases "(b64, io, (t, p), w)" rule: handle_request.cases) (auto simp: on_client_def split: option.splits prod.splits)

lemma handle_request_actions:
  assumes "handle_request b64 io (t, p) w = Some (as, w')"
  shows "fst ` set as \<subseteq> {p}"
  using assms by (cases "(b64, io, (t, p), w)" rule: handle_request.cases) auto

lemma on_async_drains:
  "\<forall>r \<in> set (requests w). fst r = UNDEFINED \<or> clients w (snd r) \<noteq> None \<Longrightarrow> storage_ok w \<Longrightarrow>
   \<exists>as w'. on_async b64 io n w = Some (as, w') \<and> requests w' = [] \<and> storage_ok w'
     \<and> client_map w' = client_map w \<and> dom (clients w') = dom (clients w) \<and> fst ` set as \<subseteq> snd ` set (requests w)"
proof (induction "requests w" arbitrary: w n)
  case Nil
  then show ?case by (simp add: on_async.simps)
next
  case (Cons r q)
  let ?w = "w\<lparr>requests := q\<rparr>"
  have rw: "requests w = r # q" using Cons.hyps(2) by simp
  have live: "fst r = UNDEFINED \<or> clients ?w (snd r) \<noteq> None" using Cons.prems(1) rw by simp
  obtain as w1 where w1: "handle_request b64 (io n) r ?w = Some (as, w1)"
    using handle_request_total [OF live] by blast
  have k: "requests w1 = q" "client_map w1 = client_map w" "dom (clients w1) = dom (clients w)"
    using handle_request_world [OF w1] by simp_all
  have "storage_ok ?w" using Cons.prems(2) by (simp add: storage_ok_def)
  then have ok: "storage_ok w1" using handle_request_ok [OF w1] by blast
  have "\<forall>r \<in> set (requests w1). fst r = UNDEFINED \<or> clients w1 (snd r) \<noteq> None"
    using Cons.prems(1) k rw by (metis domIff list.set_intros(2))
  then obtain bs w' where w': "on_async b64 io (n + 1) w1 = Some (bs, w')" "requests w' = []" "storage_ok w'"
    "client_map w' = client_map w1" "dom (clients w') = dom (clients w1)" "fst ` set bs \<subseteq> snd ` set (requests w1)"
    using Cons.hyps(1) [of w1 "n + 1"] k(1) ok by blast
  have "fst ` set as \<subseteq> {snd r}" using handle_request_actions [of b64 "io n" "fst r" "snd r"] w1 by simp
  then have "fst ` set (as @ bs) \<subseteq> snd ` set (requests w)" using w'(6) k(1) rw by auto
  moreover have "on_async b64 io n w = Some (as @ bs, w')" using w1 w'(1) rw by (simp add: on_async.simps [of b64 io n w])
  ultimately show ?case using w' k by auto
qed

text \<open>The loop as one pass over the requests that were in the queue.\<close>

fun handle_all :: "(string \<Rightarrow> bytes option) \<Rightarrow> (nat \<Rightarrow> request_io) \<Rightarrow> nat \<Rightarrow> (request_type \<times> nat) list \<Rightarrow> world \<Rightarrow>
    ((nat \<times> action) list \<times> world) option" where
  "handle_all b64 io n [] w = Some ([], w)"
| "handle_all b64 io n (r # rs) w =
     Option.bind (handle_request b64 (io n) r w) (\<lambda>(as, w1).
     Option.bind (handle_all b64 io (n + 1) rs w1) (\<lambda>(bs, w2). Some (as @ bs, w2)))"

definition with_requests :: "(request_type \<times> nat) list \<Rightarrow> 'r \<times> world \<Rightarrow> 'r \<times> world" where
  "with_requests q r = (fst r, (snd r)\<lparr>requests := q\<rparr>)"

lemma on_client_frame:
  "on_client p f (w\<lparr>requests := q\<rparr>) = map_option (with_requests q) (on_client p f w)"
  by (simp add: on_client_def with_requests_def split: option.split prod.split)

lemma handle_request_frame:
  "handle_request b64 io r (w\<lparr>requests := q\<rparr>) = map_option (with_requests q) (handle_request b64 io r w)"
  by (cases "(b64, io, r, w)" rule: handle_request.cases)
    (simp_all add: on_client_frame option.map_comp comp_def with_requests_def case_prod_unfold)

lemma handle_all_frame:
  "handle_all b64 io n rs (w\<lparr>requests := q\<rparr>) = map_option (with_requests q) (handle_all b64 io n rs w)"
proof (induction rs arbitrary: n w)
  case (Cons r rs)
  then show ?case
    by (simp add: handle_request_frame case_prod_unfold with_requests_def map_option_bind bind_map_option comp_def
        split: bind_split option.split)
qed (simp add: with_requests_def)

lemma on_async_handle_all:
  "on_async b64 io n w = map_option (with_requests []) (handle_all b64 io n (requests w) w)"
proof (induction "requests w" arbitrary: n w)
  case Nil
  then have e: "requests w = []" by simp
  then have "w\<lparr>requests := []\<rparr> = w" by (cases w) simp
  with e show ?case by (simp add: on_async.simps with_requests_def)
next
  case (Cons r q)
  then have rw: "requests w = r # q" by simp
  show ?case
  proof (cases "handle_request b64 (io n) r w")
    case None
    then show ?thesis using rw by (simp add: on_async.simps [of b64 io n w] handle_request_frame)
  next
    case (Some res)
    obtain as w1 where res: "res = (as, w1)" by (cases res)
    let ?w = "w1\<lparr>requests := q\<rparr>"
    have "on_async b64 io (n + 1) ?w = map_option (with_requests []) (handle_all b64 io (n + 1) q ?w)"
      using Cons.hyps(1) [of ?w "n + 1"] by simp
    then show ?thesis using rw Some res
      by (simp add: on_async.simps [of b64 io n w] handle_request_frame handle_all_frame with_requests_def
          case_prod_unfold option.map_comp comp_def split: option.split)
        (cases "handle_all b64 io (Suc n) q w1"; simp add: with_requests_def)
  qed
qed

section \<open>Properties\<close>

text \<open>
  C32. The request queue is drained completely and in order: \<open>onAsync\<close> always ends, handles every
  request that is queued exactly once, first in first out, and leaves the queue empty.
\<close>

theorem on_async_fifo:
  "on_async b64 io n w = map_option (\<lambda>(as, w'). (as, w'\<lparr>requests := []\<rparr>)) (handle_all b64 io n (requests w) w)"
proof -
  have "with_requests [] = (\<lambda>(as, w'). (as, w'\<lparr>requests := []\<rparr>) :: ((nat \<times> action) list \<times> world))"
    by (simp add: with_requests_def fun_eq_iff)
  then show ?thesis by (simp add: on_async_handle_all)
qed

text \<open>
  When every queued request is for a live client, draining the queue uses no dangling pointer,
  keeps the table of sessions consistent and complete, and asks libuv only about clients with a request.
\<close>

theorem on_async_live:
  assumes "storage_ok w" "\<forall>r \<in> set (requests w). clients w (snd r) \<noteq> None"
  shows "\<exists>as w'. on_async b64 io n w = Some (as, w') \<and> storage_ok w' \<and> requests w' = []
    \<and> client_map w' = client_map w \<and> dom (session w') = dom (session w)
    \<and> fst ` set as \<subseteq> snd ` set (requests w)"
proof -
  obtain as w' where w': "on_async b64 io n w = Some (as, w')" "requests w' = []" "storage_ok w'"
    "client_map w' = client_map w" "fst ` set as \<subseteq> snd ` set (requests w)"
    using on_async_drains [OF _ assms(1), of b64 io n] assms(2) by blast
  have "dom (session w') = dom (session w)"
    by (simp only: dom_def session_find [OF assms(1)] session_find [OF w'(3)] w'(4))
  with w' show ?thesis by blast
qed

theorem on_async_live_witness:
  "\<exists>as w'. on_async (\<lambda>_. None) (\<lambda>_. \<lparr>conn = \<lparr>tcp_init = 0, req_alloc = True, addrinfo = Some AF_INET, tcp_connect = 0\<rparr>,
      writes = \<lambda>_. \<lparr>url_alloc = True, write_alloc = True, uv_write = 0\<rparr>\<rparr>) 0
      (loop_execute WRITE 7 (loop_execute CONNECT 7 example_world)) = Some (as, w') \<and> requests w' = []"
proof -
  let ?w = "loop_execute WRITE 7 (loop_execute CONNECT 7 example_world)"
  have "storage_ok ?w" using example_world_ok by (simp add: loop_execute_def storage_ok_def)
  moreover have "\<forall>r \<in> set (requests ?w). clients ?w (snd r) \<noteq> None"
    by (simp add: loop_execute_def list_put_def example_world_unfold storage_new_def)
  ultimately show ?thesis using on_async_live by blast
qed

text \<open>
  The callback after \<open>uv_close\<close> of a live client waits for the mutex of the table, then removes
  exactly the session of that client, deletes it, and releases the mutex.
\<close>

theorem loop_on_disconnect_spec:
  assumes "storage_ok w" "clients w p = Some c" "storage_lock w = None"
  shows "\<exists>w'. loop_on_disconnect p w = Some w' \<and> storage_ok w' \<and> storage_lock w' = None
    \<and> session w' = (session w)(client_id c := None) \<and> clients w' p = None"
proof -
  let ?w = "w\<lparr>storage_lock := Some LoopThread\<rparr>"
  have ok: "storage_ok ?w" using assms(1) by (simp add: storage_ok_def)
  have s: "session (w\<lparr>storage_lock := l\<rparr>) = session w" for w l by (simp add: session_def fun_eq_iff)
  obtain w1 where w1: "storage_destroy (client_id c) ?w = Some w1" "storage_ok w1" "session w1 = (session ?w)(client_id c := None)"
    using storage_destroy_ok [OF ok] by blast
  have find: "map_find (client_map ?w) (client_id c) = Some p" using storage_ok_live [OF assms(1,2)] by simp
  have w1': "storage_lock w1 = Some LoopThread" "clients w1 p = None"
    using w1(1) find by (auto simp: storage_destroy_def split: if_splits)
  have "storage_ok (w1\<lparr>storage_lock := None\<rparr>)" using w1(2) by (simp add: storage_ok_def)
  then show ?thesis
    using w1 w1' assms(2,3) by (simp add: loop_on_disconnect_def lock_storage_def unlock_storage_def s)
qed

theorem loop_on_disconnect_spec_witness:
  "\<exists>w'. loop_on_disconnect 7 example_world = Some w' \<and> clients w' 7 = None"
  using loop_on_disconnect_spec [OF example_world_ok, of 7 "new_client 0 0 ''a'' [''x''] 30"]
  by (auto simp: example_world_unfold storage_new_def)

end
