(* ===== verification/Queries.thy ===== *)
theory Queries
  imports Std_Map
begin

text \<open>
  The query string of a request, \<open>src/src/linear_fcgi_queries.cc\<close>: splitting at the ampersands
  with \<open>getline\<close>, splitting each word at its first equals sign, and the five lookups. The lemmas
  give the words of a string against joining them again, and what a lookup returns for a string that
  was put together from key and value pairs.
\<close>

section \<open>The code\<close>

type_synonym queries = "(string, string) std_map"

text \<open>
  \<open>getline(is, tmp, d)\<close> on what is left of the stream: it fails when nothing is left, and
  otherwise takes the characters before the delimiter and drops the delimiter.
\<close>

definition getline :: "char \<Rightarrow> string \<Rightarrow> (string \<times> string) option" where
  "getline d is = (if is = [] then None
     else Some (takeWhile (\<lambda>c. c \<noteq> d) is, drop 1 (dropWhile (\<lambda>c. c \<noteq> d) is)))"

lemma getline_shorter: "getline d is = Some (w, rest) \<Longrightarrow> length rest < length is"
proof -
  assume g: "getline d is = Some (w, rest)"
  have "length (dropWhile (\<lambda>c. c \<noteq> d) is) \<le> length is" by (rule length_dropWhile_le)
  with g show "length rest < length is" by (cases "is") (auto simp: getline_def split: if_splits)
qed

function split_words :: "string \<Rightarrow> string list" where
  "split_words is =
     (case getline CHR ''&'' is of None \<Rightarrow> [] | Some (tmp, rest) \<Rightarrow> tmp # split_words rest)"
  by pat_completeness auto
termination by (relation "measure length") (auto dest: getline_shorter)

declare split_words.simps [simp del]

text \<open>One word: \<open>find('=')\<close>, two \<open>substr\<close>, and \<open>insert\<close>, which keeps the first value of a key.\<close>

definition parse_word :: "string \<Rightarrow> queries \<Rightarrow> queries" where
  "parse_word word q =
     (case dropWhile (\<lambda>c. c \<noteq> CHR ''='') word of
        [] \<Rightarrow> q
      | _ # val \<Rightarrow> map_insert (takeWhile (\<lambda>c. c \<noteq> CHR ''='') word) val q)"

definition parse_queries :: "string \<Rightarrow> queries" where
  "parse_queries data = fold parse_word (split_words data) []"

definition lookup_query :: "string \<Rightarrow> queries \<Rightarrow> string" where
  "lookup_query key q = (case map_find q key of Some v \<Rightarrow> v | None \<Rightarrow> [])"

definition getSessionId :: "queries \<Rightarrow> string" where
  "getSessionId = lookup_query ''sid''"

definition getChannel :: "queries \<Rightarrow> string" where
  "getChannel = lookup_query ''ch''"

definition getCommand :: "queries \<Rightarrow> string" where
  "getCommand = lookup_query ''c''"

definition getData :: "queries \<Rightarrow> string" where
  "getData = lookup_query ''data''"

definition getCallback :: "queries \<Rightarrow> string" where
  "getCallback = lookup_query ''f''"

lemmas getter_defs = getSessionId_def getChannel_def getCommand_def getData_def getCallback_def

section \<open>The words of a string\<close>

fun join_words :: "string list \<Rightarrow> string" where
  "join_words [] = []"
| "join_words [w] = w"
| "join_words (w # ws) = w @ CHR ''&'' # join_words ws"

lemma split_words_Nil [simp]: "split_words [] = []"
  by (simp add: split_words.simps getline_def)

lemma getline_take: "CHR ''&'' \<notin> set w \<Longrightarrow> w @ rest \<noteq> [] \<Longrightarrow> rest = [] \<or> rest = CHR ''&'' # rest' \<Longrightarrow>
   getline CHR ''&'' (w @ rest) = Some (w, drop 1 rest)"
proof -
  assume w: "CHR ''&'' \<notin> set w" "w @ rest \<noteq> []" and r: "rest = [] \<or> rest = CHR ''&'' # rest'"
  let ?p = "\<lambda>c. c \<noteq> CHR ''&''"
  have p: "?p c" if "c \<in> set w" for c using w(1) that by metis
  have "takeWhile ?p (w @ rest) = w @ takeWhile ?p rest" "dropWhile ?p (w @ rest) = dropWhile ?p rest"
    using p by (auto intro: takeWhile_append2 dropWhile_append2)
  moreover have "takeWhile ?p rest = [] \<and> dropWhile ?p rest = rest" using r by (elim disjE) simp_all
  ultimately show "getline CHR ''&'' (w @ rest) = Some (w, drop 1 rest)"
    using w(2) by (simp only: getline_def if_False append_Nil2)
qed

lemma split_words_amp [simp]: "CHR ''&'' \<notin> set w \<Longrightarrow> split_words (w @ CHR ''&'' # rest) = w # split_words rest"
  by (subst split_words.simps) (simp add: getline_take [of w "CHR ''&'' # rest" rest])

lemma split_words_last: "CHR ''&'' \<notin> set w \<Longrightarrow> w \<noteq> [] \<Longrightarrow> split_words w = [w]"
  using getline_take [of w "[]" "[]"] by (simp add: split_words.simps [of w])

lemma split_join:
  "list_all (\<lambda>w. CHR ''&'' \<notin> set w) ws \<Longrightarrow> ws = [] \<or> last ws \<noteq> [] \<Longrightarrow> split_words (join_words ws) = ws"
proof (induction ws rule: join_words.induct)
  case (2 w)
  then show ?case using split_words_last [of w] by simp
qed simp_all

lemma dropWhile_delim: "dropWhile (\<lambda>c. c \<noteq> d) xs = [] \<or> (\<exists>r. dropWhile (\<lambda>c. c \<noteq> d) xs = d # r)"
  by (induction xs) auto

lemma join_split: "data = join_words (split_words data) \<or> data = join_words (split_words data) @ ''&''"
proof (induction data rule: split_words.induct)
  case (1 s)
  show ?case
  proof (cases "s = []")
    case False
    let ?p = "\<lambda>c. c \<noteq> CHR ''&''"
    have g: "getline CHR ''&'' s = Some (takeWhile ?p s, drop 1 (dropWhile ?p s))"
      using False by (simp add: getline_def)
    have s: "s = takeWhile ?p s @ dropWhile ?p s" by simp
    have ih: "drop 1 (dropWhile ?p s) = join_words (split_words (drop 1 (dropWhile ?p s)))
      \<or> drop 1 (dropWhile ?p s) = join_words (split_words (drop 1 (dropWhile ?p s))) @ ''&''"
      using 1 [OF g refl] .
    have w: "split_words s = takeWhile ?p s # split_words (drop 1 (dropWhile ?p s))"
      using g by (simp add: split_words.simps [of s])
    from dropWhile_delim [of "CHR ''&''" s] show ?thesis
    proof (elim disjE exE)
      assume d: "dropWhile ?p s = []"
      then have "takeWhile ?p s = s" using s by simp
      with d have "split_words s = [s]" using w by (metis drop_Nil split_words_Nil)
      then show ?thesis by simp
    next
      fix r assume r: "dropWhile ?p s = CHR ''&'' # r"
      show ?thesis
      proof (cases "split_words r")
        case Nil
        then have "r = []" by (simp add: split_words.simps [of r] getline_def split: if_splits)
        then show ?thesis using s w r by simp
      next
        case (Cons x xs)
        then show ?thesis using s w r ih by auto
      qed
    qed
  qed simp
qed

section \<open>Looking up\<close>

lemma parse_word_pair:
  "CHR ''='' \<notin> set k \<Longrightarrow> parse_word (k @ CHR ''='' # v) q = map_insert k v q"
  by (simp add: parse_word_def takeWhile_append dropWhile_append)

lemma parse_word_ok: "map_ok q \<Longrightarrow> map_ok (parse_word w q)"
  by (simp add: parse_word_def std.ok_insert split: list.split)

lemma parse_queries_ok: "map_ok (parse_queries data)"
proof -
  have "map_ok q \<Longrightarrow> map_ok (fold parse_word ws q)" for ws q
    by (induction ws arbitrary: q) (auto simp: parse_word_ok)
  then show ?thesis by (simp add: parse_queries_def std.ok_none)
qed

text \<open>A query string put together from pairs.\<close>

definition pair_text :: "string \<times> string \<Rightarrow> string" where
  "pair_text kv = fst kv @ CHR ''='' # snd kv"

definition clean_pair :: "string \<times> string \<Rightarrow> bool" where
  "clean_pair kv \<longleftrightarrow> CHR ''='' \<notin> set (fst kv) \<and> CHR ''&'' \<notin> set (fst kv) \<and> CHR ''&'' \<notin> set (snd kv)"

lemma split_pairs: "list_all clean_pair kvs \<Longrightarrow> split_words (join_words (map pair_text kvs)) = map pair_text kvs"
proof (rule split_join)
  assume a: "list_all clean_pair kvs"
  then show "list_all (\<lambda>w. CHR ''&'' \<notin> set w) (map pair_text kvs)"
    by (induction kvs) (simp_all add: clean_pair_def pair_text_def)
  show "map pair_text kvs = [] \<or> last (map pair_text kvs) \<noteq> []"
    by (cases kvs rule: rev_cases) (simp_all add: pair_text_def)
qed

lemma fold_parse_pairs:
  "list_all clean_pair kvs \<Longrightarrow> fold parse_word (map pair_text kvs) q = fold (\<lambda>(k, v). map_insert k v) kvs q"
  by (induction kvs arbitrary: q) (auto simp: clean_pair_def pair_text_def parse_word_pair)

lemma parse_pairs:
  "list_all clean_pair kvs \<Longrightarrow> parse_queries (join_words (map pair_text kvs)) = fold (\<lambda>(k, v). map_insert k v) kvs []"
  by (simp add: parse_queries_def split_pairs fold_parse_pairs)

section \<open>Properties\<close>

text \<open>
  C34. A query string written as key and value pairs joined by ampersands is read back: every lookup
  returns the value of the first pair with its key, and the empty string when there is none. Values
  may contain equals signs.
\<close>

theorem queries_read_back:
  assumes "list_all clean_pair kvs"
  shows "lookup_query key (parse_queries (join_words (map pair_text kvs)))
    = (case map_of kvs key of Some v \<Rightarrow> v | None \<Rightarrow> [])"
  using std.find_fold_insert [OF std.ok_none, of kvs key]
  by (simp add: lookup_query_def parse_pairs [OF assms] std.find_none)

theorem queries_read_back_witness:
  "lookup_query ''c'' (parse_queries ''c=poll&sid=a=b&c=x'') = ''poll''"
  using queries_read_back [of "[(''c'', ''poll''), (''sid'', ''a=b''), (''c'', ''x'')]" "''c''"]
  by (simp add: clean_pair_def pair_text_def)

text \<open>
  No character of a query string is lost or moved: joining the words again gives the string,
  except that one final ampersand is dropped; no word contains an ampersand.
\<close>

theorem query_split_join:
  "(data = join_words (split_words data) \<or> data = join_words (split_words data) @ ''&'')
   \<and> list_all (\<lambda>w. CHR ''&'' \<notin> set w) (split_words data)"
proof -
  have "list_all (\<lambda>w. CHR ''&'' \<notin> set w) (split_words data)"
    by (induction data rule: split_words.induct)
      (subst split_words.simps, auto simp: getline_def dest: set_takeWhileD)
  then show ?thesis using join_split by blast
qed

end
