(* ===== verification/Http_Response.thy ===== *)
theory Http_Response
  imports C_Lib
begin

text \<open>
  The responses of \<open>src/src/linear_fcgi_response.cc\<close>: the status codes, the MIME types of
  \<open>linear_fcgi_http.h\<close>, and the two ways to write a CGI response. A reader of CGI responses
  (header lines up to the first empty line, then the body) is defined beside them, and the lemmas show
  that it reads back what is written, whatever the body contains.
\<close>

section \<open>The code\<close>

datatype code =
    OK | CREATED | ACCEPTED | NON_AUTHORITATIVE_INFORMATION
  | NO_CONTENT | RESET_CONTENT | PARTIAL_CONTENT | MULTIPLE_CHOICES
  | MOVED_PERMANENTLY | FOUND | SEE_OTHER | NOT_MODIFIED
  | USE_PROXY | BAD_REQUEST | UNAUTHORIZED | PAYMENT_REQUIRED
  | FORBIDDEN | NOT_FOUND | METHOD_NOT_ALLOWED | NOT_ACCEPTABLE
  | PROXY_AUTHENTICATION_REQUIRED | REQUEST_TIMEOUT | CONFLICT | GONE
  | LENGTH_REQUIRED | PRECONDITION_FAILD | REQUEST_ENTITY_TOO_LARGE | REQUEST_URI_TOO_LONG
  | UNSUPPORTED_MEDIA_TYPE | REQUEST_RANGE_NOT_SATISFIABLE | EXPECTATION_FAILED | INTERNAL_SERVER_ERROR
  | NOT_IMPLEMENTED | BAD_GATEWAY | SERVICE_UNAVAILABLE | GATEWAY_TIMEOUT
  | HTTP_VERSION_NOT_SUPPORTED
  | END_OF_CODE

primrec code_num :: "code \<Rightarrow> nat" where
  "code_num OK = 200"
| "code_num CREATED = 201"
| "code_num ACCEPTED = 202"
| "code_num NON_AUTHORITATIVE_INFORMATION = 203"
| "code_num NO_CONTENT = 204"
| "code_num RESET_CONTENT = 205"
| "code_num PARTIAL_CONTENT = 206"
| "code_num MULTIPLE_CHOICES = 300"
| "code_num MOVED_PERMANENTLY = 301"
| "code_num FOUND = 302"
| "code_num SEE_OTHER = 303"
| "code_num NOT_MODIFIED = 304"
| "code_num USE_PROXY = 305"
| "code_num BAD_REQUEST = 400"
| "code_num UNAUTHORIZED = 401"
| "code_num PAYMENT_REQUIRED = 402"
| "code_num FORBIDDEN = 403"
| "code_num NOT_FOUND = 404"
| "code_num METHOD_NOT_ALLOWED = 405"
| "code_num NOT_ACCEPTABLE = 406"
| "code_num PROXY_AUTHENTICATION_REQUIRED = 407"
| "code_num REQUEST_TIMEOUT = 408"
| "code_num CONFLICT = 409"
| "code_num GONE = 410"
| "code_num LENGTH_REQUIRED = 411"
| "code_num PRECONDITION_FAILD = 412"
| "code_num REQUEST_ENTITY_TOO_LARGE = 413"
| "code_num REQUEST_URI_TOO_LONG = 414"
| "code_num UNSUPPORTED_MEDIA_TYPE = 415"
| "code_num REQUEST_RANGE_NOT_SATISFIABLE = 416"
| "code_num EXPECTATION_FAILED = 417"
| "code_num INTERNAL_SERVER_ERROR = 500"
| "code_num NOT_IMPLEMENTED = 501"
| "code_num BAD_GATEWAY = 502"
| "code_num SERVICE_UNAVAILABLE = 503"
| "code_num GATEWAY_TIMEOUT = 504"
| "code_num HTTP_VERSION_NOT_SUPPORTED = 505"
| "code_num END_OF_CODE = 506"

datatype mime_type =
    TEXT_PLAIN | TEXT_JAVASCRIPT | APP_JSON | APP_JAVASCRIPT | X_WWW_FORM_URLENCODED | MIME_UNKNOWN

primrec getContentType :: "mime_type \<Rightarrow> string" where
  "getContentType TEXT_PLAIN = ''text/plain''"
| "getContentType TEXT_JAVASCRIPT = ''text/javascript''"
| "getContentType APP_JSON = ''application/json''"
| "getContentType APP_JAVASCRIPT = ''application/javascript''"
| "getContentType X_WWW_FORM_URLENCODED = ''application/x-www-form-urlencoded''"
| "getContentType MIME_UNKNOWN = ''application/x-www-form-urlencoded''"

definition crlf :: string where
  "crlf = [CHR 0x0D, CHR 0x0A]"

text \<open>\<open>os << code\<close> and \<open>os << body.size()\<close> print decimal numbers.\<close>

definition create_response :: "code \<Rightarrow> string" where
  "create_response code = ''Status: '' @ dec_of_nat (code_num code) @ crlf @ crlf"

definition create_response_body :: "code \<Rightarrow> string \<Rightarrow> mime_type \<Rightarrow> string" where
  "create_response_body code body type =
     ''Status: '' @ dec_of_nat (code_num code) @ crlf
     @ ''Content-Type: '' @ getContentType type @ ''; charset=utf-8'' @ crlf
     @ ''X-Content-Type-Options: nosniff'' @ crlf
     @ ''Content-Length: '' @ dec_of_nat (length body) @ crlf @ crlf
     @ body"

section \<open>Reading a response\<close>

fun read_line :: "string \<Rightarrow> (string \<times> string) option" where
  "read_line (c # d # s) =
     (if c = CHR 0x0D \<and> d = CHR 0x0A then Some ([], s)
      else case read_line (d # s) of None \<Rightarrow> None | Some (l, r) \<Rightarrow> Some (c # l, r))"
| "read_line s = None"

lemma read_line_shorter: "read_line s = Some (l, r) \<Longrightarrow> length r < length s"
  by (induction s arbitrary: l rule: read_line.induct) (fastforce split: if_splits option.splits)+

function read_head :: "string \<Rightarrow> (string list \<times> string) option" where
  "read_head s =
     (case read_line s of
        None \<Rightarrow> None
      | Some (l, r) \<Rightarrow>
          if l = [] then Some ([], r)
          else case read_head r of None \<Rightarrow> None | Some (ls, body) \<Rightarrow> Some (l # ls, body))"
  by pat_completeness auto
termination by (relation "measure length") (auto dest: read_line_shorter)

declare read_head.simps [simp del]

text \<open>The status of a response: the number after the name of the first header field.\<close>

definition all_codes :: "code list" where
  "all_codes =
    [OK, CREATED, ACCEPTED, NON_AUTHORITATIVE_INFORMATION,
     NO_CONTENT, RESET_CONTENT, PARTIAL_CONTENT, MULTIPLE_CHOICES,
     MOVED_PERMANENTLY, FOUND, SEE_OTHER, NOT_MODIFIED,
     USE_PROXY, BAD_REQUEST, UNAUTHORIZED, PAYMENT_REQUIRED,
     FORBIDDEN, NOT_FOUND, METHOD_NOT_ALLOWED, NOT_ACCEPTABLE,
     PROXY_AUTHENTICATION_REQUIRED, REQUEST_TIMEOUT, CONFLICT, GONE,
     LENGTH_REQUIRED, PRECONDITION_FAILD, REQUEST_ENTITY_TOO_LARGE, REQUEST_URI_TOO_LONG,
     UNSUPPORTED_MEDIA_TYPE, REQUEST_RANGE_NOT_SATISFIABLE, EXPECTATION_FAILED, INTERNAL_SERVER_ERROR,
     NOT_IMPLEMENTED, BAD_GATEWAY, SERVICE_UNAVAILABLE, GATEWAY_TIMEOUT,
     HTTP_VERSION_NOT_SUPPORTED, END_OF_CODE]"

definition code_of_num :: "nat \<Rightarrow> code option" where
  "code_of_num n = find (\<lambda>c. code_num c = n) all_codes"

lemma code_of_num [simp]: "code_of_num (code_num c) = Some c"
  by (cases c) (simp_all add: code_of_num_def all_codes_def)

lemma read_line_crlf: "CHR 0x0D \<notin> set l \<Longrightarrow> read_line (l @ crlf @ s) = Some (l, s)"
proof (induction l)
  case (Cons c l)
  then obtain d t where "l @ crlf @ s = d # t" by (cases "l @ crlf @ s") (auto simp: crlf_def)
  moreover have "c \<noteq> CHR 0x0D" using Cons.prems by auto
  ultimately show ?case using Cons by simp
qed (simp add: crlf_def)

lemma read_head_line:
  "CHR 0x0D \<notin> set l \<Longrightarrow> l \<noteq> [] \<Longrightarrow> read_head (l @ crlf @ s) =
    (case read_head s of None \<Rightarrow> None | Some (ls, body) \<Rightarrow> Some (l # ls, body))"
  by (simp add: read_head.simps [of "l @ crlf @ s"] read_line_crlf)

lemma read_head_empty: "read_head (crlf @ s) = Some ([], s)"
  using read_line_crlf [of "[]" s] by (simp add: read_head.simps [of "crlf @ s"])

lemma dec_no_cr: "CHR 0x0D \<notin> set (dec_of_nat n)"
  using dec_of_nat_digits [of "CHR 0x0D" n] by (auto simp: ctype_defs)

lemma content_type_no_cr: "CHR 0x0D \<notin> set (getContentType type)"
  by (cases type) simp_all

section \<open>Properties\<close>

text \<open>
  C35. A response with a body is read back exactly, whatever the body: the four header fields, the
  length of the body in \<open>Content-Length\<close>, the status code, and the body after the first empty
  line. In particular no body can add or change a header field.
\<close>

theorem response_read_back:
  "read_head (create_response_body code body type) =
     Some ([''Status: '' @ dec_of_nat (code_num code),
            ''Content-Type: '' @ getContentType type @ ''; charset=utf-8'',
            ''X-Content-Type-Options: nosniff'',
            ''Content-Length: '' @ dec_of_nat (length body)], body)
   \<and> code_of_num (dec_value (dec_of_nat (code_num code))) = Some code
   \<and> dec_value (dec_of_nat (length body)) = length body"
proof -
  define l1 where "l1 = ''Status: '' @ dec_of_nat (code_num code)"
  define l2 where "l2 = ''Content-Type: '' @ getContentType type @ ''; charset=utf-8''"
  define l3 where "l3 = ''X-Content-Type-Options: nosniff''"
  define l4 where "l4 = ''Content-Length: '' @ dec_of_nat (length body)"
  note defs = l1_def l2_def l3_def l4_def
  have nc: "CHR 0x0D \<notin> set l1" "CHR 0x0D \<notin> set l2" "CHR 0x0D \<notin> set l3" "CHR 0x0D \<notin> set l4"
    by (simp_all add: defs dec_no_cr content_type_no_cr)
  have ne: "l1 \<noteq> []" "l2 \<noteq> []" "l3 \<noteq> []" "l4 \<noteq> []" by (simp_all add: defs)
  have "create_response_body code body type = l1 @ crlf @ l2 @ crlf @ l3 @ crlf @ l4 @ crlf @ crlf @ body"
    by (simp add: create_response_body_def defs)
  then have "read_head (create_response_body code body type) = Some ([l1, l2, l3, l4], body)"
    by (simp only: read_head_line nc ne read_head_empty option.case prod.case simp_thms)
  then show ?thesis by (simp add: defs)
qed

text \<open>
  A response without a body is its status line and the empty line, nothing else, and different
  status codes give different responses.
\<close>

theorem response_status_only:
  "read_head (create_response code) = Some ([''Status: '' @ dec_of_nat (code_num code)], [])
   \<and> (create_response code = create_response code' \<longleftrightarrow> code = code')"
proof -
  have r: "read_head (create_response code) = Some ([''Status: '' @ dec_of_nat (code_num code)], [])" for code
  proof -
    define l where "l = ''Status: '' @ dec_of_nat (code_num code)"
    have "CHR 0x0D \<notin> set l" "l \<noteq> []" by (simp_all add: l_def dec_no_cr)
    moreover have "create_response code = l @ crlf @ crlf @ []" by (simp add: create_response_def l_def)
    ultimately have "read_head (create_response code) = Some ([l], [])"
      by (simp only: read_head_line read_head_empty option.case prod.case simp_thms)
    then show ?thesis by (simp only: l_def)
  qed
  have "code = code'" if "create_response code = create_response code'"
  proof -
    have "dec_of_nat (code_num code) = dec_of_nat (code_num code')" using r [of code] r [of code'] that by simp
    then have "code_num code = code_num code'" by (metis dec_value_of_nat)
    then show ?thesis by (metis code_of_num option.inject)
  qed
  with r show ?thesis by blast
qed

end
