(* ===== verification/Fcgi_Request.thy ===== *)
theory Fcgi_Request
  imports Queries Http_Response C_Lib
begin

text \<open>
  Requests: \<open>src/src/linear_fcgi_env.cc\<close> and \<open>src/src/linear_fcgi_request.cc\<close>. The CGI
  environment is a map of strings, the body of a request is read with \<open>FCGI_fread\<close>, which is an
  argument with the documented behaviour stated by \<open>reads_input\<close>. The function-local static string
  of \<open>getQueryString\<close> and \<open>errno\<close> survive from one request to the next, so they are state. A
  result \<open>None\<close> is a failed assertion or an access outside a buffer.
\<close>

section \<open>The code\<close>

datatype ident =
    REQUEST_METHOD | REMOTE_HOST | REMOTE_ADDR | REMOTE_PORT | CONTENT_TYPE | CONTENT_LENGTH
  | HTTP_COOKIE | HTTP_ORIGIN | HTTP_USER_AGENT | QUERY_STRING | END_OF_IDENT

text \<open>The keys of \<open>envs_\<close> are ordered by the numbers of the enumeration.\<close>

primrec ident_num :: "ident \<Rightarrow> nat" where
  "ident_num REQUEST_METHOD = 0"
| "ident_num REMOTE_HOST = 1"
| "ident_num REMOTE_ADDR = 2"
| "ident_num REMOTE_PORT = 3"
| "ident_num CONTENT_TYPE = 4"
| "ident_num CONTENT_LENGTH = 5"
| "ident_num HTTP_COOKIE = 6"
| "ident_num HTTP_ORIGIN = 7"
| "ident_num HTTP_USER_AGENT = 8"
| "ident_num QUERY_STRING = 9"
| "ident_num END_OF_IDENT = 10"

lemma ident_num_inj: "ident_num i = ident_num j \<Longrightarrow> i = j"
  by (cases i; cases j) simp_all

instantiation ident :: linorder
begin

definition less_eq_ident :: "ident \<Rightarrow> ident \<Rightarrow> bool" where
  "less_eq_ident i j \<longleftrightarrow> ident_num i \<le> ident_num j"

definition less_ident :: "ident \<Rightarrow> ident \<Rightarrow> bool" where
  "less_ident i j \<longleftrightarrow> ident_num i < ident_num j"

instance
  by intro_classes (auto simp: less_eq_ident_def less_ident_def dest: ident_num_inj)

end

type_synonym environment = "string \<Rightarrow> string option"

primrec env_name :: "ident \<Rightarrow> string option" where
  "env_name REQUEST_METHOD = Some ''REQUEST_METHOD''"
| "env_name REMOTE_HOST = Some ''REMOTE_HOST''"
| "env_name REMOTE_ADDR = Some ''REMOTE_ADDR''"
| "env_name REMOTE_PORT = Some ''REMOTE_PORT''"
| "env_name CONTENT_TYPE = Some ''CONTENT_TYPE''"
| "env_name CONTENT_LENGTH = Some ''CONTENT_LENGTH''"
| "env_name HTTP_COOKIE = Some ''HTTP_COOKIE''"
| "env_name HTTP_ORIGIN = Some ''HTTP_ORIGIN''"
| "env_name HTTP_USER_AGENT = Some ''HTTP_USER_AGENT''"
| "env_name QUERY_STRING = Some ''QUERY_STRING''"
| "env_name END_OF_IDENT = None"

definition env_get :: "environment \<Rightarrow> ident \<Rightarrow> string" where
  "env_get env ident =
     (case Option.bind (env_name ident) env of Some s \<Rightarrow> s | None \<Rightarrow> [])"

datatype request_method = GET | POST | UNKNOWN

record request =
  envs :: "(ident, string) std_map"
  queries :: queries

record static_vars =
  static_data :: string
  errno_erange :: bool

text \<open>What the outside answers while a body is read: \<open>malloc\<close> and \<open>FCGI_fread(buf, n, 1, stdin)\<close>.\<close>

record body_io =
  malloc_ok :: "nat \<Rightarrow> bool"
  fread :: "nat \<Rightarrow> string \<times> nat"

definition env_find :: "request \<Rightarrow> ident \<Rightarrow> string option" where
  "env_find req ident = map_find (envs req) ident"

definition getMethod :: "request \<Rightarrow> request_method option" where
  "getMethod req =
     map_option (\<lambda>m. if m = ''GET'' then GET else if m = ''POST'' then POST else UNKNOWN)
       (env_find req REQUEST_METHOD)"

definition getRemoteHost :: "request \<Rightarrow> string option" where
  "getRemoteHost req = env_find req REMOTE_HOST"

definition getRemoteAddr :: "request \<Rightarrow> string option" where
  "getRemoteAddr req = env_find req REMOTE_ADDR"

definition getRemotePort :: "request \<Rightarrow> string option" where
  "getRemotePort req = env_find req REMOTE_PORT"

definition getRequestContentType :: "request \<Rightarrow> string option" where
  "getRequestContentType req = env_find req CONTENT_TYPE"

definition getContentLength :: "request \<Rightarrow> string option" where
  "getContentLength req = env_find req CONTENT_LENGTH"

definition getCookie :: "request \<Rightarrow> string option" where
  "getCookie req = env_find req HTTP_COOKIE"

definition getOrigin :: "request \<Rightarrow> string option" where
  "getOrigin req = env_find req HTTP_ORIGIN"

definition getUserAgent :: "request \<Rightarrow> string option" where
  "getUserAgent req = env_find req HTTP_USER_AGENT"

definition getQueries :: "request \<Rightarrow> queries" where
  "getQueries req = queries req"

text \<open>
  The part for \<open>POST\<close>. \<open>malloc\<close> gets \<open>siz + 1\<close> computed in 64 bits; the \<open>memset\<close> of
  \<open>siz\<close> bytes is outside the buffer when that sum wraps. What \<open>FCGI_fread\<close> stored is copied up to
  the first NUL (the rest of the buffer is zero).
\<close>

definition read_post :: "body_io \<Rightarrow> string \<Rightarrow> static_vars \<Rightarrow> (string \<times> static_vars) option" where
  "read_post io content_length sv =
     (let (n, erange) = strtol10 (c_str content_length);
          siz = (of_int n :: u64);
          sv1 = sv\<lparr>errno_erange := errno_erange sv \<or> erange\<rparr>;
          bufsiz = unat (siz + 1)
      in if errno_erange sv1 then Some (static_data sv1, sv1)
         else if \<not> malloc_ok io bufsiz then Some (static_data sv1, sv1)
         else if bufsiz < unat siz then None
         else (case fread io (unat siz) of (stored, count) \<Rightarrow>
                 if count = 0 then Some (static_data sv1, sv1)
                 else let d = c_str stored in Some (d, sv1\<lparr>static_data := d\<rparr>)))"

definition getQueryString :: "body_io \<Rightarrow> request \<Rightarrow> static_vars \<Rightarrow> (string \<times> static_vars) option" where
  "getQueryString io req sv =
     Option.bind (getMethod req) (\<lambda>method.
       case method of
         GET \<Rightarrow> map_option (\<lambda>q. (q, sv)) (env_find req QUERY_STRING)
       | POST \<Rightarrow> Option.bind (getContentLength req) (\<lambda>content_length. read_post io content_length sv)
       | UNKNOWN \<Rightarrow> Some (static_data sv, sv))"

definition env_idents :: "ident list" where
  "env_idents = [REQUEST_METHOD, REMOTE_HOST, REMOTE_ADDR, REMOTE_PORT, CONTENT_TYPE, CONTENT_LENGTH,
     HTTP_COOKIE, HTTP_ORIGIN, HTTP_USER_AGENT, QUERY_STRING]"

definition read_envs :: "environment \<Rightarrow> (ident, string) std_map" where
  "read_envs env = fold (\<lambda>i. map_insert i (env_get env i)) env_idents []"

definition create_request :: "body_io \<Rightarrow> environment \<Rightarrow> static_vars \<Rightarrow> (request \<times> static_vars) option" where
  "create_request io env sv =
     (let req = \<lparr>envs = read_envs env, queries = parse_queries []\<rparr>
      in map_option (\<lambda>(data, sv'). (req\<lparr>queries := parse_queries data\<rparr>, sv')) (getQueryString io req sv))"

text \<open>\<open>FCGI_printf("%s", str.c_str())\<close>: the text up to the first NUL.\<close>

definition sendResponse :: "code \<Rightarrow> string" where
  "sendResponse code = c_str (create_response code)"

definition sendResponseBody :: "code \<Rightarrow> string \<Rightarrow> string" where
  "sendResponseBody code body = c_str (create_response_body code body APP_JAVASCRIPT)"

section \<open>The environment of a created request\<close>

lemmas getters = getRemoteHost_def getRemoteAddr_def getRemotePort_def getRequestContentType_def
  getContentLength_def getCookie_def getOrigin_def getUserAgent_def

lemma fold_insert_find:
  "map_ok m \<Longrightarrow> map_find (fold (\<lambda>i. map_insert i (f i)) is m) j =
     (case map_find m j of Some v \<Rightarrow> Some v | None \<Rightarrow> if j \<in> set is then Some (f j) else None)"
  by (induction "is" arbitrary: m) (auto simp: std.find_insert std.ok_insert split: option.split)

lemma read_envs_find: "map_find (read_envs env) j = (if j = END_OF_IDENT then None else Some (env_get env j))"
  unfolding read_envs_def fold_insert_find [OF std.ok_none] by (cases j) (simp_all add: env_idents_def)

lemma env_find_read [simp]:
  "envs req = read_envs env \<Longrightarrow> i \<noteq> END_OF_IDENT \<Longrightarrow> env_find req i = Some (env_get env i)"
  by (simp add: env_find_def read_envs_find)

definition method_of :: "string \<Rightarrow> request_method" where
  "method_of m = (if m = ''GET'' then GET else if m = ''POST'' then POST else UNKNOWN)"

lemma getMethod_read: "envs req = read_envs env \<Longrightarrow> getMethod req = Some (method_of (env_get env REQUEST_METHOD))"
  by (simp add: getMethod_def method_of_def)

lemma create_request_cases:
  "create_request io env sv =
    (case method_of (env_get env REQUEST_METHOD) of
       GET \<Rightarrow> Some (\<lparr>envs = read_envs env, queries = parse_queries (env_get env QUERY_STRING)\<rparr>, sv)
     | POST \<Rightarrow> map_option (\<lambda>(d, sv'). (\<lparr>envs = read_envs env, queries = parse_queries d\<rparr>, sv'))
                 (read_post io (env_get env CONTENT_LENGTH) sv)
     | UNKNOWN \<Rightarrow> Some (\<lparr>envs = read_envs env, queries = parse_queries (static_data sv)\<rparr>, sv))"
  by (simp add: create_request_def getQueryString_def getMethod_read getContentLength_def
      split: request_method.split)

lemma create_request_envs: "create_request io env sv = Some (req, sv') \<Longrightarrow> envs req = read_envs env"
  by (auto simp: create_request_cases split: request_method.splits)

section \<open>Reading the body\<close>

text \<open>The documented behaviour of \<open>FCGI_fread\<close> for one item on a stream that holds \<open>input\<close>.\<close>

definition reads_input :: "string \<Rightarrow> body_io \<Rightarrow> bool" where
  "reads_input input io \<longleftrightarrow> (\<forall>n. fread io n = (take n input, if 0 < n \<and> n \<le> length input then 1 else 0))"

definition stdin_io :: "string \<Rightarrow> body_io" where
  "stdin_io input = \<lparr>malloc_ok = (\<lambda>_. True), fread = (\<lambda>n. (take n input, if 0 < n \<and> n \<le> length input then 1 else 0))\<rparr>"

lemma reads_stdin_io: "reads_input input (stdin_io input)"
  by (simp add: reads_input_def stdin_io_def)

lemma malloc_stdin_io: "malloc_ok (stdin_io input) n"
  by (simp add: stdin_io_def)

lemma split_sign_digit: "isdigit c \<Longrightarrow> split_sign (c # cs) = (False, c # cs)"
  by (auto simp: ctype_defs)

lemma strtol10_dec: "n < 2 ^ 63 \<Longrightarrow> strtol10 (dec_of_nat n) = (int n, False)"
proof -
  assume n: "n < 2 ^ 63"
  then have n': "int n < 2 ^ 63" by (metis of_nat_less_iff of_nat_numeral of_nat_power)
  obtain c cs where d: "dec_of_nat n = c # cs" by (cases "dec_of_nat n") auto
  then have c: "isdigit c" using dec_of_nat_digits [of c n] by simp
  then have "\<not> isspace c" by (auto simp: ctype_defs)
  then have 1: "split_sign (dropWhile isspace (dec_of_nat n)) = (False, dec_of_nat n)"
    using c d split_sign_digit by simp
  have 2: "takeWhile isdigit (dec_of_nat n) = dec_of_nat n"
    by (simp add: takeWhile_eq_all_conv dec_of_nat_digits)
  show ?thesis unfolding strtol10_def 1 Let_def prod.case 2 using n' by simp
qed

lemma nul_free_dec: "nul_free (dec_of_nat n)"
  using dec_of_nat_digits [of "CHR 0x00" n] by (auto simp: ctype_defs)

lemma unat_suc_nat: "n < 2 ^ 63 \<Longrightarrow> unat (of_nat n :: u64) = n \<and> unat (of_nat n + 1 :: u64) = n + 1"
proof -
  assume n: "n < 2 ^ 63"
  have u: "unat (of_nat m :: u64) = m" if "m \<le> 2 ^ 63" for m
    using that by (simp add: unat_of_nat take_bit_nat_eq_self)
  show ?thesis using u [of n] u [of "n + 1"] n by (simp add: add.commute)
qed

lemma read_post_dec:
  assumes "n < 2 ^ 63" "\<not> errno_erange sv" "malloc_ok io (n + 1)"
  shows "read_post io (dec_of_nat n) sv = (case fread io n of (stored, count) \<Rightarrow>
    if count = 0 then Some (static_data sv, sv) else Some (c_str stored, sv\<lparr>static_data := c_str stored\<rparr>))"
proof -
  have "sv\<lparr>errno_erange := False\<rparr> = sv" using assms(2) by (cases sv) simp
  then show ?thesis
    using assms by (simp add: read_post_def c_str_id nul_free_dec strtol10_dec Let_def unat_suc_nat split: prod.split)
qed

lemma strtol10_range: "- (2 ^ 63) \<le> fst (strtol10 s) \<and> fst (strtol10 s) < 2 ^ 63"
  by (simp add: strtol10_def Let_def split: prod.split)

lemma word_wraps: "unat (w + 1 :: u64) < unat w \<longleftrightarrow> w = - 1"
proof (cases "w = - 1")
  case False
  then have "1 + w \<noteq> 0" by (metis add_eq_0_iff2 neg_equal_iff_equal add.inverse_inverse)
  then show ?thesis using unatSuc [of w] False by (simp add: add.commute)
next
  case True
  moreover have "unat (- 1 :: u64) \<noteq> 0" by (simp add: unat_eq_zero)
  ultimately show ?thesis by simp
qed

lemma of_int_minus_1: "- (2 ^ 63) \<le> n \<Longrightarrow> n < 2 ^ 63 \<Longrightarrow> (of_int n :: u64) = - 1 \<longleftrightarrow> n = - 1"
proof -
  assume n: "- (2 ^ 63) \<le> n" "n < 2 ^ 63"
  then have "signed_take_bit 63 n = n" by (intro signed_take_bit_int_eq_self) simp_all
  then have "sint (of_int n :: u64) = n" by (simp add: sint_sbintrunc')
  then show ?thesis by (metis of_int_1 of_int_minus sint_n1)
qed

section \<open>Properties\<close>

text \<open>
  A \<open>GET\<close> request is read completely from its environment: creating it never fails, leaves
  the static data alone, gives the queries of the query string, and every accessor returns the value of
  its variable (the empty string when it is not set).
\<close>

theorem get_request_read:
  assumes "env ''REQUEST_METHOD'' = Some ''GET''"
  shows "\<exists>req. create_request io env sv = Some (req, sv) \<and> getMethod req = Some GET
    \<and> getQueries req = parse_queries (env_get env QUERY_STRING)
    \<and> getRemoteAddr req = Some (env_get env REMOTE_ADDR) \<and> getRemotePort req = Some (env_get env REMOTE_PORT)
    \<and> getRemoteHost req = Some (env_get env REMOTE_HOST) \<and> getOrigin req = Some (env_get env HTTP_ORIGIN)
    \<and> getCookie req = Some (env_get env HTTP_COOKIE) \<and> getUserAgent req = Some (env_get env HTTP_USER_AGENT)
    \<and> getRequestContentType req = Some (env_get env CONTENT_TYPE)
    \<and> getContentLength req = Some (env_get env CONTENT_LENGTH)"
proof -
  have m: "method_of (env_get env REQUEST_METHOD) = GET" using assms by (simp add: env_get_def method_of_def)
  let ?req = "\<lparr>envs = read_envs env, queries = parse_queries (env_get env QUERY_STRING)\<rparr>"
  have "create_request io env sv = Some (?req, sv)" by (simp add: create_request_cases m)
  then show ?thesis
    by (intro exI [of _ ?req]) (simp add: getMethod_read m getQueries_def getters)
qed

theorem get_request_read_witness:
  "\<exists>req. create_request (stdin_io []) [''REQUEST_METHOD'' \<mapsto> ''GET'', ''QUERY_STRING'' \<mapsto> ''c=poll&sid=1'']
      \<lparr>static_data = ''c=x'', errno_erange = True\<rparr> = Some (req, \<lparr>static_data = ''c=x'', errno_erange = True\<rparr>)
    \<and> getQueries req = parse_queries ''c=poll&sid=1''"
  using get_request_read [of "[''REQUEST_METHOD'' \<mapsto> ''GET'', ''QUERY_STRING'' \<mapsto> ''c=poll&sid=1'']" "stdin_io []"
      "\<lparr>static_data = ''c=x'', errno_erange = True\<rparr>"]
  by (auto simp: env_get_def)

text \<open>
  C29. A \<open>POST\<close> request whose \<open>CONTENT_LENGTH\<close> is the length of its non-empty body is read
  completely: the queries are those of the body, which becomes the static data.
\<close>

theorem post_request_read:
  assumes "env ''REQUEST_METHOD'' = Some ''POST''" "env ''CONTENT_LENGTH'' = Some (dec_of_nat (length body))"
    "reads_input (body @ rest) io" "malloc_ok io (length body + 1)" "\<not> errno_erange sv"
    "body \<noteq> []" "nul_free body" "length body < 2 ^ 63"
  shows "\<exists>req. create_request io env sv = Some (req, sv\<lparr>static_data := body\<rparr>) \<and> getMethod req = Some POST
    \<and> getQueries req = parse_queries body"
proof -
  have m: "method_of (env_get env REQUEST_METHOD) = POST" using assms(1) by (simp add: env_get_def method_of_def)
  have l: "env_get env CONTENT_LENGTH = dec_of_nat (length body)" using assms(2) by (simp add: env_get_def)
  have "fread io (length body) = (body, 1)" using assms(3,6) by (simp add: reads_input_def)
  then have "read_post io (dec_of_nat (length body)) sv = Some (body, sv\<lparr>static_data := body\<rparr>)"
    using assms by (simp add: read_post_dec c_str_id)
  then show ?thesis by (simp add: create_request_cases m l getMethod_read getQueries_def)
qed

theorem post_request_read_witness:
  "\<exists>req. create_request (stdin_io ''sid=1&data=x'') [''REQUEST_METHOD'' \<mapsto> ''POST'', ''CONTENT_LENGTH'' \<mapsto> ''12'']
      \<lparr>static_data = [], errno_erange = False\<rparr> = Some (req, \<lparr>static_data = ''sid=1&data=x'', errno_erange = False\<rparr>)
    \<and> getQueries req = parse_queries ''sid=1&data=x''"
proof -
  let ?env = "[''REQUEST_METHOD'' \<mapsto> ''POST'', ''CONTENT_LENGTH'' \<mapsto> ''12'']"
  have "dec_of_nat (length ''sid=1&data=x'') = ''12''" by code_simp
  then have l: "?env ''CONTENT_LENGTH'' = Some (dec_of_nat (length ''sid=1&data=x''))" by simp
  have "reads_input (''sid=1&data=x'' @ []) (stdin_io ''sid=1&data=x'')" by (simp only: append_Nil2 reads_stdin_io)
  from post_request_read [where env = ?env and body = "''sid=1&data=x''" and rest = "[]", OF _ l this, of "\<lparr>static_data = [], errno_erange = False\<rparr>"] show ?thesis
    by (auto simp: malloc_stdin_io)
qed

text \<open>
  C30. A \<open>POST\<close> request whose body cannot be read, because \<open>errno\<close> was left at \<open>ERANGE\<close> or
  because \<open>CONTENT_LENGTH\<close> is zero or more than the body holds, is given the queries of the last
  \<open>POST\<close> request that could be read: the static data is neither cleared nor reported missing.
\<close>

theorem post_request_replay:
  assumes "env ''REQUEST_METHOD'' = Some ''POST''" "env ''CONTENT_LENGTH'' = Some (dec_of_nat n)"
    "reads_input input io" "n < 2 ^ 63" "errno_erange sv \<or> n = 0 \<or> length input < n"
  shows "\<exists>req. create_request io env sv = Some (req, sv) \<and> getMethod req = Some POST
    \<and> getQueries req = parse_queries (static_data sv)"
proof -
  have m: "method_of (env_get env REQUEST_METHOD) = POST" using assms(1) by (simp add: env_get_def method_of_def)
  have l: "env_get env CONTENT_LENGTH = dec_of_nat n" using assms(2) by (simp add: env_get_def)
  have "read_post io (dec_of_nat n) sv = Some (static_data sv, sv)"
  proof (cases "errno_erange sv \<or> \<not> malloc_ok io (n + 1)")
    case True
    then show ?thesis using assms(4)
      by (auto simp: read_post_def c_str_id nul_free_dec strtol10_dec Let_def unat_suc_nat)
  next
    case False
    then show ?thesis using assms(3-5) by (auto simp: read_post_dec reads_input_def)
  qed
  then show ?thesis by (simp add: create_request_cases m l getMethod_read getQueries_def)
qed

theorem post_request_replay_witness:
  "\<exists>req. create_request (stdin_io []) [''REQUEST_METHOD'' \<mapsto> ''POST'', ''CONTENT_LENGTH'' \<mapsto> ''0'']
      \<lparr>static_data = ''sid=1&data=x'', errno_erange = False\<rparr> = Some (req, \<lparr>static_data = ''sid=1&data=x'', errno_erange = False\<rparr>)
    \<and> getQueries req = parse_queries ''sid=1&data=x''"
proof -
  have "dec_of_nat 0 = ''0''" by code_simp
  then show ?thesis
    using post_request_replay [of "[''REQUEST_METHOD'' \<mapsto> ''POST'', ''CONTENT_LENGTH'' \<mapsto> ''0'']" 0 "[]" "stdin_io []"
        "\<lparr>static_data = ''sid=1&data=x'', errno_erange = False\<rparr>"] reads_stdin_io
    by auto
qed

text \<open>
  C31. Exactly one kind of request makes the code write outside a buffer: a \<open>POST\<close> whose
  \<open>CONTENT_LENGTH\<close> is read as \<open>-1\<close>, when \<open>malloc(0)\<close> returns a pointer and \<open>errno\<close> is not
  \<open>ERANGE\<close>. Every other request is created.
\<close>

theorem create_request_overflow:
  "create_request io env sv = None \<longleftrightarrow>
     env ''REQUEST_METHOD'' = Some ''POST'' \<and> fst (strtol10 (c_str (env_get env CONTENT_LENGTH))) = - 1
     \<and> malloc_ok io 0 \<and> \<not> errno_erange sv"
proof -
  let ?l = "c_str (env_get env CONTENT_LENGTH)"
  have m: "method_of (env_get env REQUEST_METHOD) = POST \<longleftrightarrow> env ''REQUEST_METHOD'' = Some ''POST''"
    by (auto simp: env_get_def method_of_def split: option.split)
  have "snd (strtol10 ?l) = False" if "fst (strtol10 ?l) = - 1"
    using that by (auto simp: strtol10_def Let_def split: prod.splits if_splits)
  then have "read_post io (env_get env CONTENT_LENGTH) sv = None \<longleftrightarrow>
      fst (strtol10 ?l) = - 1 \<and> malloc_ok io 0 \<and> \<not> errno_erange sv"
    using of_int_minus_1 [of "fst (strtol10 ?l)"] strtol10_range [of ?l]
    by (auto simp: read_post_def Let_def word_wraps split: prod.splits if_splits)
  then show ?thesis using m by (auto simp: create_request_cases split: request_method.split)
qed

end
