(* ===== verification/Server.thy ===== *)
theory Server
  imports Loop Fcgi_Request Uuid
begin

text \<open>
  The handlers of the server, \<open>src/src/linear_fcgi_server.cc\<close>: one call of a handler on the
  main thread, from the queries of a request to what is printed, with the mutex of the table taken and
  released where the code does. The pattern matcher and the base64 encoder are arguments; what the loop
  thread does while a handler waits or releases the mutex of a client is an arbitrary change at each of
  those points. \<open>None\<close> is a mutex that is never released, a dangling pointer, or a failed assertion.
  Logging is left out.
\<close>

section \<open>Configuration\<close>

record backend =
  b_host :: string
  b_port :: int
  b_websocket :: bool
  b_origins :: "string list"

record resource =
  key :: string
  r_backend :: backend

text \<open>
  The result of matching a text with a pattern, as \<open>pcre_exec\<close> returns it; without PCRE the code
  compares the two strings.
\<close>

type_synonym matcher = "string \<Rightarrow> string \<Rightarrow> int"

definition exact_match :: matcher where
  "exact_match pat txt = (if pat = txt then 1 else 0)"

fun origin_loop :: "matcher \<Rightarrow> string \<Rightarrow> string list \<Rightarrow> bool" where
  "origin_loop match orig [] = False"
| "origin_loop match orig (p # ps) = (if match p orig > 0 then True else origin_loop match orig ps)"

text \<open>The null pointer is the empty list.\<close>

definition isAllowOrigin :: "matcher \<Rightarrow> string \<Rightarrow> string list \<Rightarrow> bool" where
  "isAllowOrigin match orig allowed =
     (if orig = [] \<or> allowed = [] then True else origin_loop match orig allowed)"

fun backend_loop :: "matcher \<Rightarrow> string \<Rightarrow> string \<Rightarrow> resource list \<Rightarrow> backend option" where
  "backend_loop match channel orig [] = None"
| "backend_loop match channel orig (r # rs) =
     (if match (key r) channel > 0 then
        (if b_websocket (r_backend r) then None
         else if isAllowOrigin match orig (b_origins (r_backend r)) then Some (r_backend r)
         else None)
      else backend_loop match channel orig rs)"

definition getBackend :: "matcher \<Rightarrow> resource list option \<Rightarrow> string \<Rightarrow> string \<Rightarrow> backend option" where
  "getBackend match cfg channel orig =
     (case cfg of None \<Rightarrow> None
      | Some rs \<Rightarrow> if length channel = 0 then None else backend_loop match channel orig rs)"

record server =
  config :: "resource list option"
  matches :: matcher
  client_timeout :: int
  b64_encode :: "bytes \<Rightarrow> string option"

section \<open>Calls on a client\<close>

definition client_disconnect :: "nat \<Rightarrow> world \<Rightarrow> world option" where
  "client_disconnect p w = do {
     (post, w1) \<leftarrow> on_client p disconnect_begin w;
     Some (if post then loop_execute DISCONNECT p w1 else w1)
   }"

text \<open>
  The wait of \<open>connect\<close>: for each return of \<open>pthread_cond_timedwait\<close> whether it timed out, and
  what the loop thread did meanwhile. \<open>None\<close> when the list ends: still waiting.
\<close>

fun connect_wait :: "(bool \<times> (world \<Rightarrow> world)) list \<Rightarrow> nat \<Rightarrow> world \<Rightarrow> (bool \<times> world) option" where
  "connect_wait [] p w = None"
| "connect_wait ((err, meanwhile) # ws) p w = do {
     (r, w1) \<leftarrow> on_client p (connect_wake err) (meanwhile w);
     case r of
       Return b \<Rightarrow> Some (b, w1)
     | Wait \<Rightarrow> connect_wait ws p w1
     | GiveUp \<Rightarrow> do { w2 \<leftarrow> client_disconnect p w1; Some (False, w2) }
   }"

definition client_connect ::
    "(bool \<times> (world \<Rightarrow> world)) list \<Rightarrow> string \<Rightarrow> int \<Rightarrow> nat \<Rightarrow> world \<Rightarrow> (bool \<times> world) option" where
  "client_connect waits h pt p w = do {
     (r, w1) \<leftarrow> on_client p (connect_begin h pt) w;
     case r of
       Return b \<Rightarrow> Some (b, w1)
     | _ \<Rightarrow> connect_wait waits p (loop_execute CONNECT p w1)
   }"

definition client_write :: "string \<Rightarrow> nat \<Rightarrow> world \<Rightarrow> (int \<times> world) option" where
  "client_write d p w = do {
     c \<leftarrow> clients w p;
     if \<not> write_allowed c then Some (- 1, w)
     else do {
       (_, w1) \<leftarrow> on_client p (\<lambda>c. (write_put d c, ())) w;
       Some (int (length d), loop_execute WRITE p w1)
     }
   }"

section \<open>Handlers\<close>

definition respond :: "code \<Rightarrow> world \<Rightarrow> world" where
  "respond code w = w\<lparr>responses := responses w @ [sendResponse code]\<rparr>"

definition respond_body :: "code \<Rightarrow> string \<Rightarrow> world \<Rightarrow> world" where
  "respond_body code body w = w\<lparr>responses := responses w @ [sendResponseBody code body]\<rparr>"

definition sid_body :: "string \<Rightarrow> string \<Rightarrow> string" where
  "sid_body callback cid =
     (if callback = [] then ''{\"sid\":\"'' @ cid @ ''\"}''
      else ''try { '' @ callback @ ''({\"sid\":\"'' @ cid @ ''\"}); } catch(e) {}'')"

definition poll_body :: "string \<Rightarrow> string \<Rightarrow> string" where
  "poll_body callback body =
     (if callback = [] then body
      else ''try {'' @ callback @ ''(\"'' @ body @ ''\"); } catch(e) {}'')"

text \<open>What the outside answers during one call of \<open>onConnect\<close>.\<close>

record connect_env =
  new_uuid :: bytes
  new_addr :: "nat option"
  garbage_port :: int
  garbage_access :: int
  waits :: "(bool \<times> (world \<Rightarrow> world)) list"

definition onConnect :: "server \<Rightarrow> connect_env \<Rightarrow> request \<Rightarrow> world \<Rightarrow> world option" where
  "onConnect s e req w =
     (let cid = getSessionId (getQueries req);
          callback = getCallback (getQueries req)
      in if cid = [] then
           (if uuid_is_null (new_uuid e) then Some (respond SERVICE_UNAVAILABLE w)
            else do {
              let uuid = uuid_unparse (new_uuid e);
              let channel = getChannel (getQueries req);
              orig \<leftarrow> getOrigin req;
              case getBackend (matches s) (config s) channel orig of
                None \<Rightarrow> Some (respond NOT_FOUND w)
              | Some backend \<Rightarrow> do {
                  w1 \<leftarrow> lock_storage MainThread w;
                  (case storage_create (new_addr e) (garbage_port e) (garbage_access e) uuid
                       (b_origins backend) (client_timeout s) w1 of
                     (None, w2) \<Rightarrow> do {
                       w3 \<leftarrow> unlock_storage MainThread w2;
                       Some (respond SERVICE_UNAVAILABLE w3) }
                   | (Some p, w2) \<Rightarrow> do {
                       (f, w3) \<leftarrow> client_connect (waits e) (b_host backend) (b_port backend) p w2;
                       w4 \<leftarrow> unlock_storage MainThread w3;
                       if \<not> f then Some (respond SERVICE_UNAVAILABLE w4)
                       else Some (respond_body OK (sid_body callback uuid) w4) }) }
            })
         else do {
           let uuid = [];
           w1 \<leftarrow> lock_storage MainThread w;
           (case storage_get uuid w1 of
              None \<Rightarrow> do {
                w2 \<leftarrow> unlock_storage MainThread w1;
                Some (respond GONE w2) }
            | Some _ \<Rightarrow> do {
                w2 \<leftarrow> unlock_storage MainThread w1;
                Some (respond_body OK (sid_body callback cid) w2) })
         })"

definition onDisconnect :: "request \<Rightarrow> world \<Rightarrow> world option" where
  "onDisconnect req w =
     (let cid = getSessionId (getQueries req)
      in if cid = [] then Some (respond BAD_REQUEST w)
         else do {
           w1 \<leftarrow> lock_storage MainThread w;
           w2 \<leftarrow> (case storage_get cid w1 of Some p \<Rightarrow> client_disconnect p w1 | None \<Rightarrow> Some w1);
           w3 \<leftarrow> unlock_storage MainThread w2;
           Some (respond_body OK (sid_body (getCallback (getQueries req)) cid) w3)
         })"

text \<open>
  The loop of \<open>onPoll\<close>. Before the \<open>n\<close>-th call of \<open>read\<close> the loop thread may change the
  client; the clock and the allocator may answer differently each time. \<open>poll_world\<close> is what the loop
  thread has done to everything else by the end of the loop.
\<close>

record poll_env =
  poll_now :: "nat \<Rightarrow> int"
  poll_alloc :: "nat \<Rightarrow> bool"
  poll_meanwhile :: "nat \<Rightarrow> client \<Rightarrow> client"
  poll_world :: "world \<Rightarrow> world"

datatype poll_result = PollGone | PollNoMemory | PollData bytes

definition DATA_THRESHOLD :: nat where
  "DATA_THRESHOLD = 16384"

function poll_loop :: "poll_env \<Rightarrow> nat \<Rightarrow> client \<Rightarrow> bytes \<Rightarrow> nat \<Rightarrow> client \<times> poll_result" where
  "poll_loop e n c acc got =
     (case client_read (poll_now e n) (poll_meanwhile e n c) of
        (sz, buf, c') \<Rightarrow>
          if sz < 0 then (c', PollGone)
          else if sz > 0 then
            (if \<not> poll_alloc e n then (c', PollNoMemory)
             else let acc' = acc @ take (nat sz) (case data buf of None \<Rightarrow> [] | Some d \<Rightarrow> d);
                      got' = got + nat sz
                  in if got' < DATA_THRESHOLD then poll_loop e (n + 1) c' acc' got'
                     else (c', PollData acc'))
          else (c', PollData acc))"
  by pat_completeness auto
termination
  by (relation "measure (\<lambda>(e, n, c, acc, got). DATA_THRESHOLD - got)") auto

declare poll_loop.simps [simp del]

definition onPoll :: "server \<Rightarrow> poll_env \<Rightarrow> request \<Rightarrow> world \<Rightarrow> world option" where
  "onPoll s e req w =
     (let cid = getSessionId (getQueries req)
      in if cid = [] then Some (respond BAD_REQUEST w)
         else do {
           w1 \<leftarrow> lock_storage MainThread w;
           (case storage_get cid w1 of
              None \<Rightarrow> do {
                w2 \<leftarrow> unlock_storage MainThread w1;
                Some (respond GONE w2) }
            | Some p \<Rightarrow> do {
                c \<leftarrow> clients w1 p;
                let (c', r) = poll_loop e 0 c [] 0;
                let w2 = (poll_world e w1)\<lparr>clients := (clients (poll_world e w1))(p \<mapsto> c')\<rparr>;
                w3 \<leftarrow> unlock_storage MainThread w2;
                (case r of
                   PollGone \<Rightarrow> Some (respond GONE w3)
                 | PollNoMemory \<Rightarrow> Some (respond INTERNAL_SERVER_ERROR w3)
                 | PollData acc \<Rightarrow>
                     (let callback = getCallback (getQueries req)
                      in if acc = [] then Some (respond_body OK (poll_body callback []) w3)
                         else case b64_encode s acc of
                           None \<Rightarrow> Some (respond INTERNAL_SERVER_ERROR w3)
                         | Some body \<Rightarrow> Some (respond_body OK (poll_body callback body) w3))) })
         })"

definition onPost :: "server \<Rightarrow> request \<Rightarrow> world \<Rightarrow> world option" where
  "onPost s req w =
     (let cid = getSessionId (getQueries req)
      in if cid = [] then Some (respond BAD_REQUEST w)
         else do {
           w1 \<leftarrow> lock_storage MainThread w;
           (case storage_get cid w1 of
              None \<Rightarrow> do {
                w2 \<leftarrow> unlock_storage MainThread w1;
                Some (respond GONE w2) }
            | Some p \<Rightarrow> do {
                orig \<leftarrow> getOrigin req;
                c \<leftarrow> clients w1 p;
                if \<not> isAllowOrigin (matches s) orig (allow_origins c) then do {
                  w2 \<leftarrow> unlock_storage MainThread w1;
                  Some (respond BAD_REQUEST w2) }
                else do {
                  let d = getData (getQueries req);
                  w2 \<leftarrow> (if length d > 0 then map_option snd (client_write d p w1) else Some w1);
                  w3 \<leftarrow> unlock_storage MainThread w2;
                  Some (respond NO_CONTENT w3) } })
         })"

text \<open>The body of the loop of \<open>run\<close>, for one accepted request.\<close>

definition serve :: "server \<Rightarrow> connect_env \<Rightarrow> poll_env \<Rightarrow> request \<Rightarrow> world \<Rightarrow> world option" where
  "serve s ce pe req w = do {
     let command = getCommand (getQueries req);
     method \<leftarrow> getMethod req;
     case method of
       GET \<Rightarrow>
         (if command = ''connect'' then onConnect s ce req w
          else if command = ''disconnect'' then onDisconnect req w
          else if command = ''poll'' then onPoll s pe req w
          else Some (respond BAD_REQUEST w))
     | POST \<Rightarrow> onPost s req w
     | UNKNOWN \<Rightarrow> Some (respond METHOD_NOT_ALLOWED w)
   }"

text \<open>\<open>run\<close>: every accepted request is created from its environment and served.\<close>

record exchange =
  x_env :: environment
  x_body :: body_io
  x_connect :: connect_env
  x_poll :: poll_env
  x_meanwhile :: "world \<Rightarrow> world"

fun serve_all :: "server \<Rightarrow> exchange list \<Rightarrow> static_vars \<Rightarrow> world \<Rightarrow> (static_vars \<times> world) option" where
  "serve_all s [] sv w = Some (sv, w)"
| "serve_all s (x # xs) sv w = do {
     (req, sv') \<leftarrow> create_request (x_body x) (x_env x) sv;
     w' \<leftarrow> serve s (x_connect x) (x_poll x) req (x_meanwhile x w);
     serve_all s xs sv' w'
   }"

end
