(* ===== verification/Server_Props.thy ===== *)
theory Server_Props
  imports Server
begin

text \<open>
  What the handlers of the server do to the sessions and what they answer, on every branch. The
  handlers only use the table through the facts of \<open>Client_Storage\<close>.
\<close>

section \<open>Parts of the world a step leaves alone\<close>

named_theorems frame_simps \<open>fields that do not matter to the table\<close>

lemma storage_ok_fields [frame_simps]:
  "storage_ok (w\<lparr>storage_lock := l\<rparr>) = storage_ok w"
  "storage_ok (w\<lparr>requests := q\<rparr>) = storage_ok w"
  "storage_ok (w\<lparr>responses := r\<rparr>) = storage_ok w"
  by (simp_all add: storage_ok_def)

lemma session_fields [frame_simps]:
  "session (w\<lparr>storage_lock := l\<rparr>) = session w"
  "session (w\<lparr>requests := q\<rparr>) = session w"
  "session (w\<lparr>responses := r\<rparr>) = session w"
  by (simp_all add: session_def fun_eq_iff)

lemma storage_get_fields [frame_simps]: "storage_get i (w\<lparr>storage_lock := l\<rparr>) = storage_get i w"
  by (simp add: storage_get_def)

lemma lock_free [frame_simps]: "storage_lock w = None \<Longrightarrow> lock_storage t w = Some (w\<lparr>storage_lock := Some t\<rparr>)"
  by (simp add: lock_storage_def)

lemma unlock_held [frame_simps]: "storage_lock w = Some t \<Longrightarrow> unlock_storage t w = Some (w\<lparr>storage_lock := None\<rparr>)"
  by (simp add: unlock_storage_def)

lemma lock_unlock: "storage_lock w = None \<Longrightarrow> w\<lparr>storage_lock := None\<rparr> = w"
  by (cases w) simp

lemma respond_fields [frame_simps]:
  "storage_ok (respond code w) = storage_ok w" "session (respond code w) = session w"
  "storage_lock (respond code w) = storage_lock w" "requests (respond code w) = requests w"
  "responses (respond code w) = responses w @ [sendResponse code]"
  "storage_ok (respond_body code body w) = storage_ok w" "session (respond_body code body w) = session w"
  "storage_lock (respond_body code body w) = storage_lock w" "requests (respond_body code body w) = requests w"
  "responses (respond_body code body w) = responses w @ [sendResponseBody code body]"
  by (simp_all add: respond_def respond_body_def frame_simps)

lemma storage_get_session:
  assumes "storage_ok w"
  shows "case session w i of None \<Rightarrow> storage_get i w = None
    | Some c \<Rightarrow> \<exists>p. storage_get i w = Some p \<and> clients w p = Some c \<and> client_id c = i"
proof (cases "map_find (client_map w) i")
  case None
  then show ?thesis by (simp add: session_def storage_get_def)
next
  case (Some p)
  then show ?thesis using storage_ok_find [OF assms Some] by (auto simp: session_def storage_get_def)
qed

section \<open>Choosing the backend\<close>

lemma origin_loop_iff: "origin_loop match orig ps \<longleftrightarrow> (\<exists>p \<in> set ps. match p orig > 0)"
  by (induction ps) auto

lemma backend_loop_iff:
  "backend_loop match channel orig rs = Some b \<longleftrightarrow>
    (\<exists>pre r post. rs = pre @ r # post \<and> (\<forall>x \<in> set pre. match (key x) channel \<le> 0) \<and> match (key r) channel > 0
      \<and> \<not> b_websocket (r_backend r) \<and> isAllowOrigin match orig (b_origins (r_backend r)) \<and> r_backend r = b)"
proof (induction rs)
  case (Cons r rs)
  show ?case
  proof (cases "match (key r) channel > 0")
    case True
    show ?thesis (is "_ \<longleftrightarrow> ?R")
    proof
      assume "backend_loop match channel orig (r # rs) = Some b"
      with True have "\<not> b_websocket (r_backend r) \<and> isAllowOrigin match orig (b_origins (r_backend r)) \<and> r_backend r = b"
        by (simp split: if_splits)
      with True show ?R by - (rule exI [of _ "[]"], rule exI [of _ r], rule exI [of _ rs], auto)
    next
      assume ?R
      then show "backend_loop match channel orig (r # rs) = Some b"
        using True by (auto simp: Cons_eq_append_conv)
    qed
  next
    case False
    then have "backend_loop match channel orig (r # rs) = backend_loop match channel orig rs" by simp
    then show ?thesis using Cons.IH False
      by (auto simp: Cons_eq_append_conv not_less) (metis append_Cons set_ConsD)+
  qed
qed simp

text \<open>
  C33. The backend of a channel is that of the first resource whose key matches it; a later resource is
  never tried, also when the first one is refused because its backend speaks WebSocket or does not allow
  the origin. An origin is allowed when it is empty, the list is empty, or a pattern matches it. A
  request without a channel has no backend.
\<close>

theorem backend_first_match:
  "(getBackend match (Some rs) channel orig = Some b \<longleftrightarrow>
      channel \<noteq> [] \<and> (\<exists>pre r post. rs = pre @ r # post \<and> (\<forall>x \<in> set pre. match (key x) channel \<le> 0)
        \<and> match (key r) channel > 0 \<and> \<not> b_websocket (r_backend r)
        \<and> isAllowOrigin match orig (b_origins (r_backend r)) \<and> r_backend r = b))
   \<and> (isAllowOrigin match orig os \<longleftrightarrow> orig = [] \<or> os = [] \<or> (\<exists>p \<in> set os. match p orig > 0))
   \<and> getBackend match None channel orig = None"
proof (intro conjI)
  show "isAllowOrigin match orig os \<longleftrightarrow> orig = [] \<or> os = [] \<or> (\<exists>p \<in> set os. match p orig > 0)"
    by (simp add: isAllowOrigin_def origin_loop_iff)
qed (simp_all add: getBackend_def backend_loop_iff)

theorem backend_first_match_witness:
  "getBackend exact_match (Some [\<lparr>key = ''a'', r_backend = \<lparr>b_host = ''h'', b_port = 80, b_websocket = False,
     b_origins = [''o'']\<rparr>\<rparr>]) ''a'' ''x'' = None"
proof -
  have "\<not> isAllowOrigin exact_match ''x'' [''o'']"
    using backend_first_match [where match = exact_match and orig = "''x''" and os = "[''o'']"]
    by (simp add: exact_match_def)
  then show ?thesis by (simp add: getBackend_def exact_match_def)
qed

text \<open>The world inside the section of a handler under the mutex of the table.\<close>

definition locked :: "world \<Rightarrow> world" where
  "locked w = w\<lparr>storage_lock := Some MainThread\<rparr>"

lemma locked_facts:
  assumes "storage_ok w" "storage_lock w = None"
  shows "lock_storage MainThread w = Some (locked w)" "storage_lock (locked w) = Some MainThread"
    "(locked w)\<lparr>storage_lock := None\<rparr> = w" "storage_ok (locked w)" "session (locked w) = session w"
    "storage_get cid (locked w) = storage_get cid w" "clients (locked w) = clients w" "responses (locked w) = responses w"
    "client_map (locked w) = client_map w" "requests (locked w) = requests w" "unlock_storage MainThread (locked w) = Some w"
  using assms lock_unlock [OF assms(2)] by (simp_all add: locked_def frame_simps)

section \<open>POST\<close>

lemma on_client_session:
  assumes "storage_ok w" "clients w p = Some c" "client_id (fst (f c)) = client_id c"
  shows "\<exists>w'. on_client p f w = Some (snd (f c), w') \<and> w' = w\<lparr>clients := clients w'\<rparr> \<and> storage_ok w'
    \<and> session w' = (session w)(client_id c \<mapsto> fst (f c))"
  using storage_ok_update [OF assms] by (simp add: on_client_Some [OF assms(2)])

text \<open>The branch that appends the message.\<close>

lemma post_put:
  assumes ok: "storage_ok w" "storage_lock w = None" and o: "getOrigin req = Some orig"
    and c: "getSessionId (getQueries req) = cid" "cid \<noteq> []" "session w cid = Some c"
    and put: "isAllowOrigin (matches s) orig (allow_origins c)" "getData (getQueries req) = d" "d \<noteq> []" "write_allowed c"
  shows "\<exists>w' p. onPost s req w = Some w' \<and> storage_ok w' \<and> storage_lock w' = None \<and> storage_get cid w = Some p
    \<and> responses w' = responses w @ [sendResponse NO_CONTENT] \<and> requests w' = requests w @ [(WRITE, p)]
    \<and> session w' = (session w)(cid \<mapsto> c\<lparr>write_queue := write_queue c @ [d]\<rparr>)
    \<and> clients w' p = Some (c\<lparr>write_queue := write_queue c @ [d]\<rparr>)"
proof -
  let ?wl = "locked w"
  note wl = locked_facts [OF ok]
  obtain p where p: "storage_get cid w = Some p" "clients w p = Some c" "client_id c = cid"
    using storage_get_session [OF ok(1), of cid] c by auto
  obtain w1 where w1: "on_client p (\<lambda>c. (write_put d c, ())) ?wl = Some ((), w1)" "w1 = ?wl\<lparr>clients := clients w1\<rparr>"
    "storage_ok w1" "session w1 = (session w)(cid \<mapsto> write_put d c)" "clients w1 p = Some (write_put d c)"
    using on_client_session [of ?wl p c "\<lambda>c. (write_put d c, ())"] wl p by (auto simp: write_put_def on_client_Some)
  have f: "storage_lock w1 = Some MainThread" "responses w1 = responses w" "requests w1 = requests w"
    using w1(2) wl by (metis world.select_convs world.surjective world.update_convs(3))+
  let ?w = "respond NO_CONTENT ((loop_execute WRITE p w1)\<lparr>storage_lock := None\<rparr>)"
  have "onPost s req w = Some ?w"
    using wl c p o put w1(1) f by (simp add: onPost_def client_write_def frame_simps loop_execute_def)
  moreover have "clients ?w p = clients w1 p" by (simp add: respond_def loop_execute_def)
  ultimately show ?thesis using c p w1 f wl
    by (simp add: frame_simps loop_execute_def write_put_def list_put_def)
qed

text \<open>
  C24. Every branch of a \<open>POST\<close>: no session named, unknown session and forbidden origin give 400,
  410 and 400 and change nothing; otherwise the answer is 204, and the message is appended to the queue
  of the session with exactly one request \<open>WRITE\<close>, unless it is empty or the session is closing,
  when it is dropped.
\<close>

theorem post_spec:
  assumes "storage_ok w" "storage_lock w = None" "getOrigin req = Some orig"
  shows "\<exists>w'. onPost s req w = Some w' \<and> storage_ok w' \<and> storage_lock w' = None \<and>
    (let cid = getSessionId (getQueries req); d = getData (getQueries req) in
     case (if cid = [] then None else session w cid) of
       None \<Rightarrow> w' = respond (if cid = [] then BAD_REQUEST else GONE) w
     | Some c \<Rightarrow>
         if \<not> isAllowOrigin (matches s) orig (allow_origins c) then w' = respond BAD_REQUEST w
         else if d = [] \<or> \<not> write_allowed c then w' = respond NO_CONTENT w
         else responses w' = responses w @ [sendResponse NO_CONTENT]
           \<and> session w' = (session w)(cid \<mapsto> c\<lparr>write_queue := write_queue c @ [d]\<rparr>)
           \<and> (\<exists>p. storage_get cid w = Some p \<and> requests w' = requests w @ [(WRITE, p)]))"
proof -
  define cid where "cid = getSessionId (getQueries req)"
  define d where "d = getData (getQueries req)"
  note wl = locked_facts [OF assms(1,2)]
  show ?thesis
  proof (cases "if cid = [] then None else session w cid")
    case None
    then have "onPost s req w = Some (respond (if cid = [] then BAD_REQUEST else GONE) w)"
      using wl storage_get_session [OF assms(1), of cid]
      by (auto simp: onPost_def cid_def [symmetric] frame_simps split: if_splits)
    then show ?thesis using None assms(1,2) by (simp add: cid_def [symmetric] frame_simps del: if_split)
  next
    case (Some c)
    then have ne: "cid \<noteq> []" and s: "session w cid = Some c" by (simp_all split: if_splits)
    then obtain p where p: "storage_get cid w = Some p" "clients w p = Some c" "client_id c = cid"
      using storage_get_session [OF assms(1), of cid] by auto
    consider (forbidden) "\<not> isAllowOrigin (matches s) orig (allow_origins c)"
      | (drop) "isAllowOrigin (matches s) orig (allow_origins c)" "d = [] \<or> \<not> write_allowed c"
      | (put) "isAllowOrigin (matches s) orig (allow_origins c)" "d \<noteq> []" "write_allowed c" by blast
    then show ?thesis
    proof cases
      case forbidden
      then have "onPost s req w = Some (respond BAD_REQUEST w)"
        using wl ne p assms(3) by (simp add: onPost_def cid_def [symmetric] frame_simps)
      then show ?thesis using forbidden s ne assms by (simp add: cid_def [symmetric] frame_simps)
    next
      case drop
      then have "onPost s req w = Some (respond NO_CONTENT w)"
        using wl ne p assms(3)
        by (auto simp: onPost_def cid_def [symmetric] d_def [symmetric] client_write_def frame_simps)
      then show ?thesis using drop s ne assms
        by (simp add: cid_def [symmetric] d_def [symmetric] frame_simps)
    next
      case put
      obtain w' p where w': "onPost s req w = Some w'" "storage_ok w'" "storage_lock w' = None" "storage_get cid w = Some p"
        "responses w' = responses w @ [sendResponse NO_CONTENT]" "requests w' = requests w @ [(WRITE, p)]"
        "session w' = (session w)(cid \<mapsto> c\<lparr>write_queue := write_queue c @ [d]\<rparr>)"
        using post_put [OF assms cid_def [symmetric] ne s put(1) d_def [symmetric] put(2,3)] by blast
      then show ?thesis using put s ne by (simp add: cid_def [symmetric] d_def [symmetric])
    qed
  qed
qed

definition example_request :: "string \<Rightarrow> request" where
  "example_request sid = \<lparr>envs = read_envs [''REQUEST_METHOD'' \<mapsto> ''GET''], queries = [(''data'', ''QQ''), (''sid'', sid)]\<rparr>"

definition example_server :: server where
  "example_server = \<lparr>config = Some [], matches = exact_match, client_timeout = 30, b64_encode = (\<lambda>b. Some (map of_u8 b))\<rparr>"

lemma example_request_simps:
  "getSessionId (getQueries (example_request sid)) = sid"
  "getData (getQueries (example_request sid)) = ''QQ''"
  "getCallback (getQueries (example_request sid)) = []"
  "getOrigin (example_request sid) = Some []"
  by (simp_all add: example_request_def getQueries_def getter_defs lookup_query_def getOrigin_def env_get_def)

lemma example_world_simps:
  "storage_lock example_world = None" "requests example_world = []" "responses example_world = []"
  "clients example_world 7 = Some (new_client 0 0 ''a'' [''x''] 30)" "storage_get ''a'' example_world = Some 7"
  "session example_world ''a'' = Some (new_client 0 0 ''a'' [''x''] 30)"
  by (simp_all add: example_world_unfold storage_new_def storage_get_def session_def)

theorem post_spec_witness:
  "\<exists>w'. onPost example_server (example_request ''b'') example_world = Some w'
     \<and> w' = respond GONE example_world"
proof -
  have "session example_world ''b'' = None" by (simp add: example_world_unfold storage_new_def session_def)
  then show ?thesis
    using post_spec [OF example_world_ok example_world_simps(1) example_request_simps(4) [of "''b''"], of example_server]
    by (simp add: example_request_simps)
qed

section \<open>GET with the command disconnect\<close>

lemma disconnect_begin_id: "client_id (fst (disconnect_begin c)) = client_id c"
  by (simp add: disconnect_begin_def)

text \<open>
  C25. \<open>disconnect\<close> always answers 200 with the session identifier, also for unknown sessions; a
  connecting or connected session becomes \<open>DISCONNECTING\<close> with exactly one request \<open>DISCONNECT\<close>,
  and in every other state nothing changes. Without an identifier the answer is 400.
\<close>

theorem disconnect_spec:
  assumes "storage_ok w" "storage_lock w = None"
  shows "\<exists>w'. onDisconnect req w = Some w' \<and> storage_ok w' \<and> storage_lock w' = None \<and>
    (let cid = getSessionId (getQueries req); ok = sid_body (getCallback (getQueries req)) cid in
     if cid = [] then w' = respond BAD_REQUEST w
     else case session w cid of
       None \<Rightarrow> w' = respond_body OK ok w
     | Some c \<Rightarrow>
         if state c \<in> {CONNECTING, CONNECTED} then
           responses w' = responses w @ [sendResponseBody OK ok]
           \<and> session w' = (session w)(cid \<mapsto> c\<lparr>state := DISCONNECTING\<rparr>)
           \<and> (\<exists>p. storage_get cid w = Some p \<and> requests w' = requests w @ [(DISCONNECT, p)])
         else responses w' = responses w @ [sendResponseBody OK ok] \<and> session w' = session w \<and> requests w' = requests w)"
proof -
  define cid where "cid = getSessionId (getQueries req)"
  define ok where "ok = sid_body (getCallback (getQueries req)) cid"
  note wl = locked_facts [OF assms]
  show ?thesis
  proof (cases "if cid = [] then None else session w cid")
    case None
    then have "onDisconnect req w = Some (if cid = [] then respond BAD_REQUEST w else respond_body OK ok w)"
      using wl storage_get_session [OF assms(1), of cid]
      by (auto simp: onDisconnect_def cid_def [symmetric] ok_def frame_simps Let_def split: if_splits)
    then show ?thesis using None assms by (auto simp: cid_def [symmetric] ok_def [symmetric] Let_def frame_simps)
  next
    case (Some c)
    then have ne: "cid \<noteq> []" and s: "session w cid = Some c" by (simp_all split: if_splits)
    then obtain p where p: "storage_get cid w = Some p" "clients w p = Some c" "client_id c = cid"
      using storage_get_session [OF assms(1), of cid] by auto
    obtain w1 where w1: "on_client p disconnect_begin (locked w) = Some (snd (disconnect_begin c), w1)"
      "w1 = (locked w)\<lparr>clients := clients w1\<rparr>" "storage_ok w1" "session w1 = (session (locked w))(cid \<mapsto> fst (disconnect_begin c))"
      using on_client_session [where f = disconnect_begin, OF wl(4) _ disconnect_begin_id] wl(7) p(2,3) by metis
    have f: "storage_lock w1 = Some MainThread" "responses w1 = responses w" "requests w1 = requests w"
      using w1(2) wl by (metis world.select_convs world.surjective world.update_convs(3))+
    let ?w1 = "if snd (disconnect_begin c) then loop_execute DISCONNECT p w1 else w1"
    let ?w = "respond_body OK ok (?w1\<lparr>storage_lock := None\<rparr>)"
    have "storage_lock ?w1 = Some MainThread" using f by (simp add: loop_execute_def)
    then have "onDisconnect req w = Some ?w"
      using wl ne p w1(1)
      by (simp add: onDisconnect_def cid_def [symmetric] ok_def [symmetric] client_disconnect_def frame_simps)
    moreover have "storage_ok ?w" "storage_lock ?w = None" using w1(3) by (simp_all add: loop_execute_def frame_simps)
    moreover have "session ?w = (session w)(cid \<mapsto> fst (disconnect_begin c))"
      using w1(4) wl by (simp add: loop_execute_def frame_simps)
    moreover have "requests ?w = requests w @ (if snd (disconnect_begin c) then [(DISCONNECT, p)] else [])"
      using f by (simp add: loop_execute_def frame_simps list_put_def)
    moreover have "responses ?w = responses w @ [sendResponseBody OK ok]" using f by (simp add: frame_simps loop_execute_def)
    moreover have "(session w)(cid \<mapsto> c) = session w" using s by (simp add: fun_upd_idem)
    ultimately show ?thesis using ne s p(1)
      by (cases "state c") (simp_all add: cid_def [symmetric] ok_def [symmetric] Let_def disconnect_begin_def)
  qed
qed

theorem disconnect_spec_witness:
  "\<exists>w'. onDisconnect (example_request ''a'') example_world = Some w' \<and> requests w' = []"
  using disconnect_spec [OF example_world_ok example_world_simps(1), of "example_request ''a''"]
  by (auto simp: example_request_simps example_world_simps new_client_def)

end
