(* ===== verification/Server_Connect.thy ===== *)
theory Server_Connect
  imports Server_Props
begin

text \<open>
  \<open>onConnect\<close> and the wait in \<open>Client::connect\<close>: what the main thread may rely on while the
  loop thread works behind its back, and what holds when it answers.
\<close>

section \<open>Interference\<close>

text \<open>
  What the loop thread can do while the main thread holds the mutex of the table: anything to the
  contents of the clients and to the request queue, nothing to the table, the mutex and the output.
\<close>

definition keeps :: "world \<Rightarrow> world \<Rightarrow> bool" where
  "keeps w w' \<longleftrightarrow> client_map w' = client_map w \<and> max_clients w' = max_clients w
     \<and> storage_lock w' = storage_lock w \<and> responses w' = responses w"

definition loop_change :: "(world \<Rightarrow> world) \<Rightarrow> bool" where
  "loop_change m \<longleftrightarrow> (\<forall>w. storage_ok w \<longrightarrow> storage_ok (m w) \<and> keeps w (m w))"

lemma keeps_refl [simp]: "keeps w w"
  by (simp add: keeps_def)

lemma keeps_trans: "keeps w1 w2 \<Longrightarrow> keeps w2 w3 \<Longrightarrow> keeps w1 w3"
  by (simp add: keeps_def)

lemma keeps_execute: "keeps w (loop_execute t p w)"
  by (simp add: keeps_def loop_execute_def)

lemma execute_session: "session (loop_execute t p w) = session w" "storage_ok (loop_execute t p w) = storage_ok w"
  by (simp_all add: loop_execute_def frame_simps)

lemma on_client_keeps:
  assumes ok: "storage_ok w" and find: "map_find (client_map w) cid = Some p"
    and id: "\<And>c. client_id (fst (f c)) = client_id c"
  shows "\<exists>c w'. session w cid = Some c \<and> on_client p f w = Some (snd (f c), w')
    \<and> storage_ok w' \<and> keeps w w' \<and> session w' = (session w)(cid \<mapsto> fst (f c))"
proof -
  obtain c where c: "clients w p = Some c" "client_id c = cid" using storage_ok_find [OF ok find] by blast
  then have s: "session w cid = Some c" using find by (simp add: session_def)
  obtain w' where w': "on_client p f w = Some (snd (f c), w')" "w' = w\<lparr>clients := clients w'\<rparr>" "storage_ok w'"
    "session w' = (session w)(client_id c \<mapsto> fst (f c))"
    using on_client_session [OF ok c(1), of f] id by blast
  have "keeps w w'" unfolding keeps_def
    by (metis w'(2) world.select_convs world.surjective world.update_convs(3))
  then show ?thesis using s w' c(2) by auto
qed

lemma connect_begin_id: "client_id (fst (connect_begin h pt c)) = client_id c"
  by (simp add: connect_begin_def)

lemma connect_wake_id: "client_id (fst (connect_wake err c)) = client_id c"
  by (simp add: connect_wake_def)

lemma client_disconnect_keeps:
  assumes "storage_ok w" "map_find (client_map w) cid = Some p"
  shows "\<exists>c w'. session w cid = Some c \<and> client_disconnect p w = Some w' \<and> storage_ok w' \<and> keeps w w'
    \<and> session w' = (session w)(cid \<mapsto> fst (disconnect_begin c))"
proof -
  obtain c w' where "session w cid = Some c" "on_client p disconnect_begin w = Some (snd (disconnect_begin c), w')"
    "storage_ok w'" "keeps w w'" "session w' = (session w)(cid \<mapsto> fst (disconnect_begin c))"
    using on_client_keeps [OF assms disconnect_begin_id] by blast
  then show ?thesis using keeps_trans [OF _ keeps_execute]
    by (auto simp: client_disconnect_def execute_session)
qed

section \<open>The wait\<close>

text \<open>The outcome of \<open>connect\<close> for the session.\<close>

definition settled :: "bool \<Rightarrow> client option \<Rightarrow> bool" where
  "settled b c \<longleftrightarrow> (case c of None \<Rightarrow> False
     | Some c \<Rightarrow> if b then state c = CONNECTED else state c \<in> {FAIL_CONNECT, DISCONNECTING, DISCONNECTED})"

lemma settled_Some: "settled b (Some c) \<longleftrightarrow> (if b then state c = CONNECTED else state c \<in> {FAIL_CONNECT, DISCONNECTING, DISCONNECTED})"
  by (simp add: settled_def)

lemma connect_wait_settles:
  "storage_ok w \<Longrightarrow> map_find (client_map w) cid = Some p \<Longrightarrow> list_all (\<lambda>wt. loop_change (snd wt)) ws \<Longrightarrow>
   ws \<noteq> [] \<Longrightarrow> fst (last ws) \<Longrightarrow>
   \<exists>b w'. connect_wait ws p w = Some (b, w') \<and> storage_ok w' \<and> keeps w w' \<and> settled b (session w' cid)"
proof (induction ws arbitrary: w)
  case (Cons wt ws)
  obtain err m where wt: "wt = (err, m)" by (cases wt)
  have m: "storage_ok (m w)" "keeps w (m w)" using Cons.prems(1,3) wt by (auto simp: loop_change_def)
  then have find: "map_find (client_map (m w)) cid = Some p" using Cons.prems(2) by (simp add: keeps_def)
  obtain c w1 where w1: "on_client p (connect_wake err) (m w) = Some (snd (connect_wake err c), w1)" "storage_ok w1"
    "keeps (m w) w1" "session w1 = (session (m w))(cid \<mapsto> fst (connect_wake err c))"
    using on_client_keeps [where f = "connect_wake err", OF m(1) find connect_wake_id] by blast
  have k: "keeps w w1" using m(2) w1(3) by (rule keeps_trans)
  have find1: "map_find (client_map w1) cid = Some p" using Cons.prems(2) k by (simp add: keeps_def)
  show ?case
  proof (cases "snd (connect_wake err c)")
    case (Return b)
    then have "settled b (session w1 cid)" using w1(4)
      by (auto simp: settled_def connect_wake_def split: if_splits)
    then show ?thesis using w1 k wt Return by simp
  next
    case Wait
    then have ws: "ws \<noteq> []" using Cons.prems(5) wt by (auto simp: connect_wake_def split: if_splits)
    have "list_all (\<lambda>wt. loop_change (snd wt)) ws" "fst (last ws)" using Cons.prems(3,5) ws by simp_all
    from Cons.IH [OF w1(2) find1 this(1) ws this(2)]
    obtain b w' where w': "connect_wait ws p w1 = Some (b, w')" "storage_ok w'" "keeps w1 w'" "settled b (session w' cid)"
      by blast
    then show ?thesis using w1(1) Wait wt keeps_trans [OF k] by auto
  next
    case GiveUp
    then have st: "state (fst (connect_wake err c)) \<notin> {CONNECTED, FAIL_CONNECT}"
      by (auto simp: connect_wake_def split: if_splits)
    obtain c2 w2 where w2: "session w1 cid = Some c2" "client_disconnect p w1 = Some w2" "storage_ok w2" "keeps w1 w2"
      "session w2 = (session w1)(cid \<mapsto> fst (disconnect_begin c2))"
      using client_disconnect_keeps [OF w1(2) find1] by blast
    have "c2 = fst (connect_wake err c)" using w2(1) w1(4) by simp
    then have "state (fst (disconnect_begin c2)) \<in> {DISCONNECTING, DISCONNECTED}"
      using st by (cases "state c2") (auto simp: disconnect_begin_def)
    then have "settled False (session w2 cid)" using w2(5) by (simp add: settled_Some)
    then show ?thesis using w1(1) w2 GiveUp wt keeps_trans [OF k w2(4)] by auto
  qed
qed simp

lemma client_connect_settles:
  assumes "storage_ok w" "map_find (client_map w) cid = Some p" "session w cid = Some c" "state c = DISCONNECTED"
    "list_all (\<lambda>wt. loop_change (snd wt)) ws" "ws \<noteq> []" "fst (last ws)"
  shows "\<exists>b w'. client_connect ws h pt p w = Some (b, w') \<and> storage_ok w' \<and> keeps w w' \<and> settled b (session w' cid)"
proof -
  obtain w1 where w1: "on_client p (connect_begin h pt) w = Some (snd (connect_begin h pt c), w1)" "storage_ok w1" "keeps w w1"
    using on_client_keeps [where f = "connect_begin h pt", OF assms(1,2) connect_begin_id] assms(3) by auto
  have r: "snd (connect_begin h pt c) = Wait" using assms(4) by (simp add: connect_begin_def)
  let ?w = "loop_execute CONNECT p w1"
  have k: "keeps w ?w" using w1(3) keeps_execute by (rule keeps_trans)
  then have find: "map_find (client_map ?w) cid = Some p" using assms(2) by (simp add: keeps_def)
  have "storage_ok ?w" using w1(2) by (simp add: execute_session)
  from connect_wait_settles [OF this find assms(5-7)] show ?thesis
    using w1(1) r keeps_trans [OF k] by (auto simp: client_connect_def)
qed

text \<open>The branch in which the channel has a backend: a session that is created is settled at the end.\<close>

lemma connect_backend:
  assumes ok: "storage_ok w" "storage_lock w = None" and new: "\<forall>p. new_addr e = Some p \<longrightarrow> clients w p = None"
    and q: "getSessionId (getQueries req) = []" "getOrigin req = Some orig" "\<not> uuid_is_null (new_uuid e)"
      "getBackend (matches s) (config s) (getChannel (getQueries req)) orig = Some be"
    and ws: "list_all (\<lambda>wt. loop_change (snd wt)) (waits e)" "waits e \<noteq> []" "fst (last (waits e))"
    and uuid: "uuid = uuid_unparse (new_uuid e)"
  shows "onConnect s e req w = Some (respond SERVICE_UNAVAILABLE w)
    \<or> session w uuid = None \<and> (\<exists>f w'. onConnect s e req w = Some ((if f then respond_body OK (sid_body (getCallback (getQueries req)) uuid)
        else respond SERVICE_UNAVAILABLE) w') \<and> storage_ok w' \<and> storage_lock w' = None \<and> responses w' = responses w
        \<and> settled f (session w' uuid))"
proof -
  note wl = locked_facts [OF ok]
  let ?cr = "storage_create (new_addr e) (garbage_port e) (garbage_access e) uuid (b_origins be) (client_timeout s) (locked w)"
  let ?c = "new_client (garbage_port e) (garbage_access e) uuid (b_origins be) (client_timeout s)"
  have spec: "case ?cr of (None, w') \<Rightarrow> w' = locked w
      | (Some p, w') \<Rightarrow> session (locked w) uuid = None \<and> storage_get uuid w' = Some p \<and> session w' = (session (locked w))(uuid \<mapsto> ?c)"
    and ok2: "storage_ok (snd ?cr)"
    using storage_create_cases [where w = "locked w" and addr = "new_addr e"] wl(4,7) new by (fastforce split: prod.splits option.splits)+
  obtain a w2 where cr: "?cr = (a, w2)" by (cases ?cr)
  show ?thesis
  proof (cases a)
    case None
    then show ?thesis using q spec cr wl uuid by (simp add: onConnect_def unlock_storage_def Let_def)
  next
    case (Some p)
    then have s: "session w uuid = None" "map_find (client_map w2) uuid = Some p" "session w2 uuid = Some ?c" "storage_ok w2"
      using spec ok2 cr wl(5) by (simp_all add: storage_get_def)
    have k2: "storage_lock w2 = Some MainThread" "responses w2 = responses w"
      using cr Some wl(2,8) by (auto simp: storage_create_def split: if_splits option.splits)
    have "state ?c = DISCONNECTED" by (simp add: new_client_def)
    then obtain f w3 where w3: "client_connect (waits e) (b_host be) (b_port be) p w2 = Some (f, w3)"
      "storage_ok w3" "keeps w2 w3" "settled f (session w3 uuid)"
      using client_connect_settles [of w2 uuid p ?c "waits e" "b_host be" "b_port be"] s ws by blast
    have k3: "storage_lock w3 = Some MainThread" "responses w3 = responses w" using w3(3) k2 by (simp_all add: keeps_def)
    then have "onConnect s e req w = Some ((if f then respond_body OK (sid_body (getCallback (getQueries req)) uuid)
        else respond SERVICE_UNAVAILABLE) (w3\<lparr>storage_lock := None\<rparr>))"
      using q Some cr w3(1) wl(1) uuid by (simp add: onConnect_def unlock_storage_def Let_def)
    moreover have "storage_ok (w3\<lparr>storage_lock := None\<rparr>)" "settled f (session (w3\<lparr>storage_lock := None\<rparr>) uuid)"
      using w3(2,4) by (simp_all add: frame_simps)
    ultimately show ?thesis using s(1) k3 by (intro disjI2 conjI exI [of _ f] exI [of _ "w3\<lparr>storage_lock := None\<rparr>"]) simp_all
  qed
qed

section \<open>Properties\<close>

text \<open>
  C15. A new session: whatever the loop thread does meanwhile, as long as the last wait runs into its
  deadline, \<open>onConnect\<close> returns, gives the mutex back, leaves the table consistent and answers
  exactly once. The answer is 200 with the identifier only if the channel has a backend and the session
  is in the table and \<open>CONNECTED\<close>; 404, changing nothing, exactly if the channel has no backend; and
  503 otherwise, when the session is not in the table or not connected nor connecting.
\<close>

theorem connect_new_spec:
  assumes ok: "storage_ok w" "storage_lock w = None" and new: "\<And>p. new_addr e = Some p \<Longrightarrow> clients w p = None"
    and q: "getSessionId (getQueries req) = []" "getOrigin req = Some orig" "\<not> uuid_is_null (new_uuid e)"
    and ws: "list_all (\<lambda>wt. loop_change (snd wt)) (waits e)" "waits e \<noteq> []" "fst (last (waits e))"
  shows "\<exists>w' r. onConnect s e req w = Some w' \<and> storage_ok w' \<and> storage_lock w' = None \<and> responses w' = responses w @ [r]
    \<and> (let uuid = uuid_unparse (new_uuid e); b = getBackend (matches s) (config s) (getChannel (getQueries req)) orig in
       (b \<noteq> None \<and> r = sendResponseBody OK (sid_body (getCallback (getQueries req)) uuid)
         \<and> session w uuid = None \<and> settled True (session w' uuid))
       \<or> (b = None \<and> w' = respond NOT_FOUND w \<and> r = sendResponse NOT_FOUND)
       \<or> (b \<noteq> None \<and> r = sendResponse SERVICE_UNAVAILABLE
         \<and> (session w' = session w \<or> settled False (session w' uuid))))"
proof (cases "getBackend (matches s) (config s) (getChannel (getQueries req)) orig")
  case None
  then have "onConnect s e req w = Some (respond NOT_FOUND w)" using q by (simp add: onConnect_def)
  then show ?thesis using None ok by (simp add: frame_simps)
next
  case (Some be)
  have "\<forall>p. new_addr e = Some p \<longrightarrow> clients w p = None" using new by blast
  from connect_backend [OF ok this q Some ws refl] show ?thesis
  proof (elim disjE conjE exE)
    assume "onConnect s e req w = Some (respond SERVICE_UNAVAILABLE w)"
    then show ?thesis using Some ok by (simp add: frame_simps)
  next
    fix f w' assume "session w (uuid_unparse (new_uuid e)) = None" and w': "onConnect s e req w = Some
      ((if f then respond_body OK (sid_body (getCallback (getQueries req)) (uuid_unparse (new_uuid e))) else respond SERVICE_UNAVAILABLE) w')"
      "storage_ok w'" "storage_lock w' = None" "responses w' = responses w" "settled f (session w' (uuid_unparse (new_uuid e)))"
    then show ?thesis using Some by (cases f) (simp_all add: frame_simps)
  qed
qed

definition channel_server :: server where
  "channel_server = \<lparr>config = Some [\<lparr>key = ''ch1'', r_backend = \<lparr>b_host = ''10.0.0.1'', b_port = 80,
     b_websocket = False, b_origins = []\<rparr>\<rparr>], matches = exact_match, client_timeout = 30,
     b64_encode = (\<lambda>b. Some (map of_u8 b))\<rparr>"

definition channel_env :: environment where
  "channel_env = [''REQUEST_METHOD'' \<mapsto> ''GET'', ''QUERY_STRING'' \<mapsto> ''c=connect&ch=ch1'']"

definition channel_request :: request where
  "channel_request = \<lparr>envs = read_envs channel_env, queries = [(''c'', ''connect''), (''ch'', ''ch1'')]\<rparr>"

definition timeout_env :: connect_env where
  "timeout_env = \<lparr>new_uuid = replicate 16 7, new_addr = Some 7, garbage_port = 0, garbage_access = 0,
     waits = [(True, \<lambda>w. w)]\<rparr>"

theorem connect_new_spec_witness:
  "\<exists>w' r. onConnect channel_server timeout_env channel_request (storage_new 1) = Some w' \<and> responses w' = [r]
     \<and> r \<noteq> sendResponse NOT_FOUND"
proof -
  have q: "getSessionId (getQueries channel_request) = []" "getOrigin channel_request = Some []"
    by (simp_all add: channel_request_def channel_env_def getQueries_def getter_defs lookup_query_def getOrigin_def env_get_def)
  have u: "\<not> uuid_is_null (new_uuid timeout_env)"
    by (simp add: timeout_env_def uuid_is_null_def all_zero_iff)
  have ws: "list_all (\<lambda>wt. loop_change (snd wt)) (waits timeout_env)" "waits timeout_env \<noteq> []" "fst (last (waits timeout_env))"
    by (simp_all add: timeout_env_def loop_change_def)
  have b: "getBackend (matches channel_server) (config channel_server) (getChannel (getQueries channel_request)) [] \<noteq> None"
    by (simp add: getBackend_def channel_server_def channel_request_def getQueries_def getter_defs lookup_query_def
        exact_match_def isAllowOrigin_def)
  have d: "dec_of_nat 200 = ''200''" "dec_of_nat 404 = ''404''" "dec_of_nat 503 = ''503''" by code_simp+
  have ne: "sendResponseBody c t \<noteq> sendResponse NOT_FOUND" if "c = OK" for c t
    using that by (simp add: sendResponseBody_def sendResponse_def c_str_def create_response_body_def create_response_def
        d crlf_def)
  have ne2: "sendResponse SERVICE_UNAVAILABLE \<noteq> sendResponse NOT_FOUND"
    by (simp add: sendResponse_def c_str_def create_response_def d crlf_def)
  have new: "clients (storage_new 1) p = None" for p by (simp add: storage_new_def)
  have l: "storage_lock (storage_new 1) = None" "responses (storage_new 1) = []" by (simp_all add: storage_new_def)
  from connect_new_spec [OF storage_ok_new l(1) new q u ws, of channel_server] b ne ne2 l(2) show ?thesis
    unfolding Let_def by auto
qed

text \<open>
  A request \<open>connect\<close> that names its session is answered 410, also when that session exists and
  is connected: the code looks up the empty identifier instead of the one it was given. Nothing changes.
\<close>

theorem connect_resume_gone:
  assumes "storage_lock w = None" "getSessionId (getQueries req) \<noteq> []" "storage_get [] w = None"
  shows "onConnect s e req w = Some (respond GONE w)"
  using assms by (simp add: onConnect_def frame_simps lock_unlock)

theorem connect_resume_gone_witness:
  "storage_get ''a'' example_world = Some 7
   \<and> onConnect example_server timeout_env (example_request ''a'') example_world = Some (respond GONE example_world)"
  using connect_resume_gone [OF example_world_simps(1), of "example_request ''a''" example_server timeout_env]
  by (simp add: example_request_simps example_world_simps(5)) (simp add: example_world_unfold storage_get_def)

end
