(* ===== verification/Client_Runs.thy ===== *)
theory Client_Runs
  imports Client
begin

text \<open>
  Sequences of operations on one client, in any order the two threads may produce them, with a record
  of what went in and out. Three facts hold of every sequence: the state machine, the two byte streams,
  and how often closing the connection is asked for.
\<close>

section \<open>Operations and traces\<close>

datatype client_op =
    OpConnect string int | OpWake bool | OpDisconnect | OpRead int | OpWrite string
  | OpLoopConnect connect_io | OpLoopWrite "nat \<Rightarrow> write_io" | OpOnConnect int int
  | OpOnRead bool bytes int | OpOnTimer int

text \<open>What libuv delivered: the state of the client then, whether \<open>malloc\<close> answered, and the bytes.\<close>

type_synonym arrival = "client_state \<times> bool \<times> bytes"

record trace =
  cl :: client
  arrived :: "arrival list"
  handed_out :: bytes
  accepted :: "string list"
  sent :: "bytes list"
  closes :: nat
  overrides :: nat

text \<open>The next client; an override is a client that leaves \<open>DISCONNECTING\<close>.\<close>

definition move_to :: "client \<Rightarrow> trace \<Rightarrow> trace" where
  "move_to c t = t\<lparr>cl := c,
     overrides := overrides t + (if state (cl t) = DISCONNECTING \<and> state c \<noteq> DISCONNECTING then 1 else 0)\<rparr>"

definition count_closes :: "effect list \<Rightarrow> trace \<Rightarrow> trace" where
  "count_closes es t = t\<lparr>closes := closes t + length (filter (\<lambda>e. e = UvClose) es)\<rparr>"

definition request_close :: "bool \<Rightarrow> trace \<Rightarrow> trace" where
  "request_close b t = t\<lparr>closes := closes t + (if b then 1 else 0)\<rparr>"

definition buffer_bytes :: "tcp_buffer \<Rightarrow> bytes" where
  "buffer_bytes b = (case data b of None \<Rightarrow> [] | Some d \<Rightarrow> d)"

fun apply_op :: "(string \<Rightarrow> bytes option) \<Rightarrow> client_op \<Rightarrow> trace \<Rightarrow> trace" where
  "apply_op b64 (OpConnect h p) t = move_to (fst (connect_begin h p (cl t))) t"
| "apply_op b64 (OpWake err) t =
     (case connect_wake err (cl t) of
        (c, GiveUp) \<Rightarrow> (case disconnect_begin c of (c', b) \<Rightarrow> request_close b (move_to c' t))
      | (c, _) \<Rightarrow> move_to c t)"
| "apply_op b64 OpDisconnect t = (case disconnect_begin (cl t) of (c, b) \<Rightarrow> request_close b (move_to c t))"
| "apply_op b64 (OpRead now) t =
     (case client_read now (cl t) of
        (n, b, c) \<Rightarrow> (move_to c t)\<lparr>handed_out := handed_out t @ (if n > 0 then buffer_bytes b else [])\<rparr>)"
| "apply_op b64 (OpWrite d) t =
     (if write_allowed (cl t) then (move_to (write_put d (cl t)) t)\<lparr>accepted := accepted t @ [d]\<rparr> else t)"
| "apply_op b64 (OpLoopConnect io) t = (case loop_connect io (cl t) of (c, es) \<Rightarrow> count_closes es (move_to c t))"
| "apply_op b64 (OpLoopWrite io) t =
     (case loop_write b64 io (cl t) of (c, bs) \<Rightarrow> (move_to c t)\<lparr>sent := sent t @ bs\<rparr>)"
| "apply_op b64 (OpOnConnect now status) t =
     (case on_connect now status (cl t) of (c, es) \<Rightarrow> count_closes es (move_to c t))"
| "apply_op b64 (OpOnRead alloc_ok d n) t =
     (case on_read alloc_ok d n (cl t) of
        (c, es) \<Rightarrow> (count_closes es (move_to c t))\<lparr>arrived := arrived t @ [(state (cl t), alloc_ok, take (nat n) d)]\<rparr>)"
| "apply_op b64 (OpOnTimer now) t = (case on_timer now (cl t) of (c, es) \<Rightarrow> count_closes es (move_to c t))"

definition fresh_trace :: "client \<Rightarrow> trace" where
  "fresh_trace c = \<lparr>cl = c, arrived = [], handed_out = [], accepted = [], sent = [], closes = 0, overrides = 0\<rparr>"

lemmas op_defs = connect_begin_def connect_wake_def disconnect_begin_def client_read_def write_put_def
  loop_connect_def loop_write_def loop_disconnect_def on_connect_def on_read_def on_timer_def fail_connect_def

lemmas trace_defs = move_to_def count_closes_def request_close_def

lemmas op_splits = option.split option.split_asm if_split if_split_asm prod.split prod.split_asm family.split family.split_asm

section \<open>One operation\<close>

fun allowed_move :: "client_state \<Rightarrow> client_op \<Rightarrow> client_state \<Rightarrow> bool" where
  "allowed_move s (OpConnect h p) s' = (s \<in> {DISCONNECTED, FAIL_CONNECT} \<and> s' = CONNECTING)"
| "allowed_move s (OpWake err) s' = (err \<and> s = CONNECTING \<and> s' = DISCONNECTING)"
| "allowed_move s OpDisconnect s' = (s \<in> {CONNECTING, CONNECTED} \<and> s' = DISCONNECTING)"
| "allowed_move s (OpLoopConnect io) s' = (s' = FAIL_CONNECT)"
| "allowed_move s (OpOnConnect now status) s' =
     (if status = 0 \<and> s = CONNECTING then s' = CONNECTED else s' = FAIL_CONNECT)"
| "allowed_move s (OpOnRead alloc_ok d n) s' = (n < 0 \<and> s = CONNECTED \<and> s' = DISCONNECTING)"
| "allowed_move s (OpOnTimer now) s' = (s \<in> {CONNECTED, CONNECTING, FAIL_CONNECT} \<and> s' = DISCONNECTING)"
| "allowed_move s op s' = False"

lemma apply_op_state:
  "state (cl (apply_op b64 op t)) = state (cl t) \<or> allowed_move (state (cl t)) op (state (cl (apply_op b64 op t)))"
  by (cases op; cases "state (cl t)")
    (simp_all add: op_defs trace_defs timer_expires_def read_allowed_def Let_def case_prod_unfold split: option.split family.split)

lemma apply_op_id: "client_id (cl (apply_op b64 op t)) = client_id (cl t)"
  by (cases op) (auto simp: op_defs trace_defs Let_def split: op_splits connect_next.splits)

lemma apply_op_closes:
  "closes t = overrides t + (if state (cl t) = DISCONNECTING then 1 else 0) \<Longrightarrow>
   closes (apply_op b64 op t) = overrides (apply_op b64 op t) + (if state (cl (apply_op b64 op t)) = DISCONNECTING then 1 else 0)"
  by (cases op; cases "state (cl t)")
    (simp_all add: op_defs trace_defs timer_expires_def read_allowed_def Let_def case_prod_unfold split: option.split family.split)

section \<open>The two streams\<close>

text \<open>libuv never reports more bytes than its buffer holds.\<close>

fun op_ok :: "client_op \<Rightarrow> bool" where
  "op_ok (OpOnRead alloc_ok d n) = (nat n \<le> length d)"
| "op_ok op = True"

definition arrived_bytes :: "arrival list \<Rightarrow> bytes" where
  "arrived_bytes as = concat (map (\<lambda>(s, ok, d). d) as)"

definition deliverable :: "arrival \<Rightarrow> bool" where
  "deliverable = (\<lambda>(s, ok, d). s = CONNECTED \<and> ok)"

lemma arrived_bytes_lost:
  "arrived_bytes (filter deliverable as) = arrived_bytes as \<longleftrightarrow> (\<forall>(s, ok, d) \<in> set as. d \<noteq> [] \<longrightarrow> s = CONNECTED \<and> ok)"
proof (induction as)
  case (Cons a as)
  have le: "length (arrived_bytes (filter deliverable as)) \<le> length (arrived_bytes as)" for as
    by (induction as) (auto simp: arrived_bytes_def)
  obtain s ok d where a: "a = (s, ok, d)" by (cases a)
  show ?case
  proof (cases "deliverable a \<or> d = []")
    case True
    then show ?thesis using Cons a by (auto simp: arrived_bytes_def deliverable_def)
  next
    case False
    then have "length (arrived_bytes (filter deliverable (a # as))) < length (arrived_bytes (a # as))"
      using le [of as] a by (cases d) (simp_all add: arrived_bytes_def)
    then have "arrived_bytes (filter deliverable (a # as)) \<noteq> arrived_bytes (a # as)" by auto
    then show ?thesis using False a by (auto simp: deliverable_def)
  qed
qed (simp add: arrived_bytes_def)

definition stream_in :: "trace \<Rightarrow> bool" where
  "stream_in t \<longleftrightarrow> list_all wf_buffer (read_queue (cl t))
     \<and> arrived_bytes (filter deliverable (arrived t)) = handed_out t @ concat (map buffer_bytes (read_queue (cl t)))"

lemma stream_in_keep:
  "stream_in t \<Longrightarrow> read_queue (cl t') = read_queue (cl t) \<Longrightarrow> arrived t' = arrived t \<Longrightarrow> handed_out t' = handed_out t
   \<Longrightarrow> stream_in t'"
  by (simp add: stream_in_def)

lemma wf_buffer_size: "wf_buffer b \<Longrightarrow> siz b > 0 \<or> buffer_bytes b = []"
  by (auto simp: wf_buffer_def buffer_bytes_def split: option.splits)

lemma stream_in_read:
  assumes "stream_in t"
  shows "stream_in (apply_op b64 (OpRead now) t)"
proof (cases "read_queue (cl t)")
  case Nil
  with assms show ?thesis
    by (auto simp: stream_in_def client_read_def trace_defs empty_buffer_def)
next
  case (Cons b q)
  with assms have b: "wf_buffer b" by (simp add: stream_in_def)
  with assms Cons wf_buffer_size [OF b] show ?thesis
    by (auto simp: stream_in_def client_read_def trace_defs copy_buffer_wf Let_def)
qed

lemma stream_in_on_read:
  assumes "stream_in t" "nat n \<le> length d"
  shows "stream_in (apply_op b64 (OpOnRead alloc_ok d n) t)"
proof -
  have "buffer_bytes (copy_buffer \<lparr>data = Some (take (nat n) d), siz = n\<rparr>) = take (nat n) d" if "n > 0"
    using that by (simp add: copy_buffer_def buffer_bytes_def)
  then show ?thesis
    using assms wf_read_buffer [OF _ assms(2)]
    by (auto simp: stream_in_def on_read_def loop_disconnect_def trace_defs list_put_def arrived_bytes_def deliverable_def)
qed

lemma stream_in_op: "stream_in t \<Longrightarrow> op_ok op \<Longrightarrow> stream_in (apply_op b64 op t)"
proof (cases op)
  case (OpRead now)
  then show "stream_in t \<Longrightarrow> ?thesis" by (simp only: stream_in_read)
next
  case (OpOnRead alloc_ok d n)
  then show "stream_in t \<Longrightarrow> op_ok op \<Longrightarrow> ?thesis" by (simp only: stream_in_on_read op_ok.simps)
qed (auto elim!: stream_in_keep simp: op_defs trace_defs Let_def case_prod_unfold
    split: option.split family.split connect_next.split)

text \<open>Messages for the backend: those taken out of the queue were sent, decoded, in order.\<close>

definition stream_out :: "(string \<Rightarrow> bytes option) \<Rightarrow> trace \<Rightarrow> bool" where
  "stream_out b64 t \<longleftrightarrow> (\<exists>taken. accepted t = taken @ write_queue (cl t) \<and> list_all2 (decodes b64) taken (sent t))"

fun op_clean :: "(string \<Rightarrow> bytes option) \<Rightarrow> client_op \<Rightarrow> bool" where
  "op_clean b64 (OpLoopWrite io) = io_succeeds io"
| "op_clean b64 (OpWrite d) = (Option.bind (url_decode True d) b64 \<noteq> None)"
| "op_clean b64 op = True"

lemma stream_out_keep:
  "stream_out b64 t \<Longrightarrow> write_queue (cl t') = write_queue (cl t) \<Longrightarrow> accepted t' = accepted t \<Longrightarrow> sent t' = sent t
   \<Longrightarrow> stream_out b64 t'"
  by (simp add: stream_out_def)

definition messages_decode :: "(string \<Rightarrow> bytes option) \<Rightarrow> trace \<Rightarrow> bool" where
  "messages_decode b64 t \<longleftrightarrow> (\<forall>d \<in> set (write_queue (cl t)). Option.bind (url_decode True d) b64 \<noteq> None)"

lemma decoded_list:
  "\<forall>d \<in> set q. Option.bind (url_decode True d) b64 \<noteq> None \<Longrightarrow> \<exists>bs. list_all2 (decodes b64) q bs"
proof (induction q)
  case (Cons d q)
  then obtain bs where "list_all2 (decodes b64) q bs" by auto
  moreover obtain b where "decodes b64 d b" using Cons.prems by (auto simp: decodes_def)
  ultimately show ?case by (meson list.rel_intros(2))
qed (rule exI [of _ "[]"], simp)

lemma stream_out_op:
  assumes "stream_out b64 t \<and> messages_decode b64 t" "op_clean b64 op"
  shows "stream_out b64 (apply_op b64 op t) \<and> messages_decode b64 (apply_op b64 op t)"
proof (cases op)
  case (OpLoopWrite io)
  obtain taken where taken: "accepted t = taken @ write_queue (cl t)" "list_all2 (decodes b64) taken (sent t)"
    using assms by (auto simp: stream_out_def)
  obtain bs where bs: "list_all2 (decodes b64) (write_queue (cl t)) bs"
    using decoded_list [of "write_queue (cl t)" b64] assms(1) unfolding messages_decode_def by blast
  have "io_succeeds io" using assms(2) OpLoopWrite by simp
  then have "write_loop b64 io 0 (write_queue (cl t)) = (bs, [])" using bs by (rule write_loop_all)
  then show ?thesis using OpLoopWrite taken list_all2_appendI [OF taken(2) bs]
    by (simp add: stream_out_def messages_decode_def loop_write_def trace_defs)
next
  case (OpWrite d)
  then show ?thesis using assms
    by (auto simp: stream_out_def messages_decode_def write_put_def list_put_def trace_defs)
qed (use assms in \<open>auto elim!: stream_out_keep simp: messages_decode_def op_defs trace_defs Let_def case_prod_unfold
    split: option.split family.split connect_next.split\<close>)

section \<open>Properties\<close>

text \<open>
  C20. The state machine of a client: every operation, in every state, leaves the state alone or makes
  the move named for it. In particular a client becomes \<open>CONNECTED\<close> only by a successful connection
  callback in \<open>CONNECTING\<close>, never becomes \<open>DISCONNECTED\<close> again, and once \<open>DISCONNECTING\<close> can
  only go to \<open>FAIL_CONNECT\<close>. Its identifier never changes.
\<close>

theorem client_transitions:
  "(state (cl (apply_op b64 op t)) = state (cl t) \<or> allowed_move (state (cl t)) op (state (cl (apply_op b64 op t))))
   \<and> client_id (cl (apply_op b64 op t)) = client_id (cl t)"
  using apply_op_state apply_op_id by blast

text \<open>
  C18. The bytes from the backend on their way to the browser, whatever the order of operations. What
  \<open>read\<close> has returned, followed by what is still in the read queue, is every chunk that libuv delivered
  to a client in \<open>CONNECTED\<close> and for which \<open>malloc\<close> answered, complete, once each and in order. So a
  byte is lost exactly when its chunk arrives in another state, or when \<open>malloc\<close> fails: \<open>onRead\<close> then
  drops the chunk without a word, and the session goes on with a gap in its stream.
\<close>

theorem client_stream_in:
  assumes "read_queue c = []" "list_all op_ok ops" "t = fold (apply_op b64) ops (fresh_trace c)"
  shows "handed_out t @ concat (map buffer_bytes (read_queue (cl t)))
      = concat [d. (s, malloc_ok, d) \<leftarrow> arrived t, s = CONNECTED \<and> malloc_ok]
    \<and> (handed_out t @ concat (map buffer_bytes (read_queue (cl t))) = concat [d. (s, malloc_ok, d) \<leftarrow> arrived t]
       \<longleftrightarrow> (\<forall>(s, malloc_ok, d) \<in> set (arrived t). d \<noteq> [] \<longrightarrow> s = CONNECTED \<and> malloc_ok))"
proof -
  have "stream_in t \<Longrightarrow> stream_in (fold (apply_op b64) ops t)" for t
    using assms(2) by (induction ops arbitrary: t) (simp_all add: stream_in_op)
  moreover have "stream_in (fresh_trace c)" using assms(1) by (simp add: stream_in_def fresh_trace_def arrived_bytes_def)
  ultimately have "arrived_bytes (filter deliverable (arrived t)) = handed_out t @ concat (map buffer_bytes (read_queue (cl t)))"
    by (simp add: stream_in_def assms(3))
  moreover have "arrived_bytes (filter deliverable as) = concat [d. (s, malloc_ok, d) \<leftarrow> as, s = CONNECTED \<and> malloc_ok]"
    "arrived_bytes as = concat [d. (s, malloc_ok, d) \<leftarrow> as]" for as
    by (induction as) (auto simp: arrived_bytes_def deliverable_def)
  ultimately show ?thesis using arrived_bytes_lost [of "arrived t"] by metis
qed

text \<open>The second chunk is dropped for want of memory, and the browser gets the bytes around it.\<close>

definition example_ops :: "client_op list" where
  "example_ops = [OpConnect ''10.0.0.1'' 80, OpOnConnect 5 0, OpOnRead True [1, 2, 3, 9] 3, OpRead 6,
     OpOnRead False [7, 8] 2, OpOnRead True [4] 1, OpOnTimer 99, OpRead 100]"

definition example_client :: client where
  "example_client = new_client 0 0 ''id'' [] 30"

theorem client_stream_in_witness:
  "\<exists>t. t = fold (apply_op (\<lambda>_. None)) example_ops (fresh_trace example_client)
   \<and> handed_out t @ concat (map buffer_bytes (read_queue (cl t))) = [1, 2, 3, 4]
   \<and> handed_out t @ concat (map buffer_bytes (read_queue (cl t))) \<noteq> concat [d. (s, malloc_ok, d) \<leftarrow> arrived t]"
proof -
  define t where "t = fold (apply_op (\<lambda>_. None)) example_ops (fresh_trace example_client)"
  have v: "arrived t = [(CONNECTED, True, [1, 2, 3]), (CONNECTED, False, [7, 8]), (CONNECTED, True, [4])]"
    by (simp add: t_def example_ops_def example_client_def new_client_def fresh_trace_def op_defs trace_defs
        read_allowed_def list_put_def copy_buffer_def buffer_bytes_def timer_expires_def)
  have "list_all op_ok example_ops" "read_queue example_client = []"
    by (simp_all add: example_ops_def example_client_def new_client_def)
  from client_stream_in [OF this(2,1) t_def] show ?thesis
    by (intro exI [of _ t]) (simp add: v t_def [symmetric])
qed

text \<open>
  C19. Messages for the backend: as long as every accepted message decodes and libuv and the allocator
  answer, the decoded messages are given to libuv once each, in the order \<open>write\<close> accepted them, and
  the others are still in the write queue.
\<close>

theorem client_stream_out:
  assumes "write_queue c = []" "list_all (op_clean b64) ops"
  shows "\<exists>taken. accepted (fold (apply_op b64) ops (fresh_trace c)) =
      taken @ write_queue (cl (fold (apply_op b64) ops (fresh_trace c)))
    \<and> list_all2 (decodes b64) taken (sent (fold (apply_op b64) ops (fresh_trace c)))"
proof -
  have "stream_out b64 t \<and> messages_decode b64 t \<Longrightarrow>
    stream_out b64 (fold (apply_op b64) ops t) \<and> messages_decode b64 (fold (apply_op b64) ops t)" for t
    using assms(2) by (induction ops arbitrary: t) (simp_all add: stream_out_op)
  moreover have "stream_out b64 (fresh_trace c) \<and> messages_decode b64 (fresh_trace c)"
    using assms(1) by (simp add: stream_out_def messages_decode_def fresh_trace_def)
  ultimately show ?thesis by (simp add: stream_out_def)
qed

theorem client_stream_out_witness:
  "\<exists>taken. accepted (fold (apply_op (\<lambda>s. Some (map to_u8 s))) [OpConnect ''h'' 80, OpWrite ''a%41'', OpLoopWrite
      (\<lambda>_. \<lparr>url_alloc = True, write_alloc = True, uv_write = 0\<rparr>), OpWrite ''b''] (fresh_trace example_client))
    = taken @ [''b'']"
proof -
  let ?ops = "[OpConnect ''h'' 80, OpWrite ''a%41'', OpLoopWrite
      (\<lambda>_. \<lparr>url_alloc = True, write_alloc = True, uv_write = 0\<rparr>), OpWrite ''b'']"
  have "write_queue (cl (fold (apply_op (\<lambda>s. Some (map to_u8 s))) ?ops (fresh_trace example_client))) = [''b'']"
    by (simp add: example_client_def new_client_def fresh_trace_def op_defs trace_defs write_allowed_def
        list_put_def write_loop_Cons url_decode_def)
  moreover have "list_all (op_clean (\<lambda>s. Some (map to_u8 s))) ?ops"
    by (simp add: io_succeeds_def url_decode_def)
  ultimately show ?thesis
    using client_stream_out [of example_client "\<lambda>s. Some (map to_u8 s)" ?ops]
    by (simp only: example_client_def new_client_def client.simps) blast
qed

text \<open>
  How often closing is asked for, by a request \<open>DISCONNECT\<close>, a read error or the timer: in
  every sequence of operations, as often as \<open>DISCONNECTING\<close> was overridden by \<open>FAIL_CONNECT\<close>,
  and once more when the client is \<open>DISCONNECTING\<close>. Without an override the handle is closed at
  most once.
\<close>

theorem client_close_count:
  assumes "state c \<noteq> DISCONNECTING"
  shows "closes (fold (apply_op b64) ops (fresh_trace c)) = overrides (fold (apply_op b64) ops (fresh_trace c))
    + (if state (cl (fold (apply_op b64) ops (fresh_trace c))) = DISCONNECTING then 1 else 0)"
proof -
  have "closes t = overrides t + (if state (cl t) = DISCONNECTING then 1 else 0) \<Longrightarrow>
    closes (fold (apply_op b64) ops t) = overrides (fold (apply_op b64) ops t)
      + (if state (cl (fold (apply_op b64) ops t)) = DISCONNECTING then 1 else 0)" for t
    by (induction ops arbitrary: t) (simp_all add: apply_op_closes)
  then show ?thesis using assms by (simp add: fresh_trace_def)
qed

text \<open>A connection that succeeds after \<open>connect\<close> gave up: its handle is closed twice.\<close>

theorem client_close_count_witness:
  "closes (fold (apply_op (\<lambda>_. None)) [OpConnect ''h'' 80, OpWake True, OpOnConnect 5 0, OpOnTimer 6]
     (fresh_trace example_client)) = 2"
proof -
  let ?t = "fold (apply_op (\<lambda>_. None)) [OpConnect ''h'' 80, OpWake True, OpOnConnect 5 0, OpOnTimer 6]
     (fresh_trace example_client)"
  have v: "overrides ?t = 1" "state (cl ?t) = DISCONNECTING"
    by (simp_all add: example_client_def new_client_def fresh_trace_def op_defs trace_defs timer_expires_def)
  have "state example_client \<noteq> DISCONNECTING" by (simp add: example_client_def new_client_def)
  from client_close_count [OF this] have "closes ?t = 1 + 1" by (simp only: v simp_thms if_True)
  then show ?thesis by (simp only: one_add_one)
qed

end
