(* ===== verification/Server_Poll.thy ===== *)
theory Server_Poll
  imports Server_Connect Client_Runs
begin

text \<open>
  \<open>onPoll\<close>: which bytes a poll takes from the session and what it answers; the bound on the size of
  an answer; and a message on its whole way from a \<open>POST\<close> to libuv.
\<close>

section \<open>The loop that reads\<close>

lemma read_closed: "\<not> read_allowed c \<Longrightarrow> client_read t c = (- 1, empty_buffer, c)"
  by (simp add: client_read_def)

lemma read_empty: "read_allowed c \<Longrightarrow> read_queue c = [] \<Longrightarrow> client_read t c = (0, empty_buffer, c\<lparr>last_access := t\<rparr>)"
  by (simp add: client_read_def)

lemma read_some: "read_allowed c \<Longrightarrow> read_queue c = b # q \<Longrightarrow> wf_buffer b \<Longrightarrow>
    client_read t c = (int (length (buffer_bytes b)), b, c\<lparr>last_access := t, read_queue := q\<rparr>)"
  by (auto simp: client_read_def copy_buffer_wf wf_buffer_def buffer_bytes_def split: option.splits)

definition full_buffer :: "tcp_buffer \<Rightarrow> bool" where
  "full_buffer b \<longleftrightarrow> wf_buffer b \<and> buffer_bytes b \<noteq> []"

lemma buffer_bytes_data: "(case data b of None \<Rightarrow> [] | Some d \<Rightarrow> d) = buffer_bytes b"
  by (simp add: buffer_bytes_def)

text \<open>
  The loop unrolled, without the code: the client that the \<open>n\<close>-th \<open>read\<close> finds when all before it took
  a buffer, and the bytes of the first \<open>k\<close> buffers.
\<close>

definition after_read :: "poll_env \<Rightarrow> nat \<Rightarrow> client \<Rightarrow> client" where
  "after_read e n c = c\<lparr>last_access := poll_now e n, read_queue := tl (read_queue c)\<rparr>"

primrec at_read :: "poll_env \<Rightarrow> client \<Rightarrow> nat \<Rightarrow> client" where
  "at_read e c 0 = poll_meanwhile e 0 c"
| "at_read e c (Suc n) = poll_meanwhile e (Suc n) (after_read e n (at_read e c n))"

definition bytes_read :: "poll_env \<Rightarrow> client \<Rightarrow> nat \<Rightarrow> bytes" where
  "bytes_read e c k = concat (map (\<lambda>i. buffer_bytes (hd (read_queue (at_read e c i)))) [0..<k])"

text \<open>
  The loop takes \<open>k\<close> buffers: the session is open, a buffer is there, the allocator answers and less
  than 16384 bytes are read, each time. Then it ends, with the client \<open>c'\<close> and the result \<open>r\<close>, for the
  first of the reasons that applies: 16384 bytes are reached; the session is closing; there is nothing
  more to read; a buffer is taken and there is no memory for its bytes.
\<close>

definition poll_takes :: "poll_env \<Rightarrow> client \<Rightarrow> nat \<Rightarrow> bool" where
  "poll_takes e c k \<longleftrightarrow> (\<forall>i<k. (state (at_read e c i) = CONNECTING \<or> state (at_read e c i) = CONNECTED)
     \<and> read_queue (at_read e c i) \<noteq> [] \<and> poll_alloc e i \<and> length (bytes_read e c i) < DATA_THRESHOLD)"

definition poll_ends :: "poll_env \<Rightarrow> client \<Rightarrow> nat \<Rightarrow> client \<Rightarrow> poll_result \<Rightarrow> bool" where
  "poll_ends e c k c' r \<longleftrightarrow> poll_takes e c k \<and>
     (if DATA_THRESHOLD \<le> length (bytes_read e c k) then
        c' = after_read e (k - 1) (at_read e c (k - 1)) \<and> r = PollData (bytes_read e c k)
      else if state (at_read e c k) \<noteq> CONNECTING \<and> state (at_read e c k) \<noteq> CONNECTED then
        c' = at_read e c k \<and> r = PollGone
      else if read_queue (at_read e c k) = [] then
        c' = (at_read e c k)\<lparr>last_access := poll_now e k\<rparr> \<and> r = PollData (bytes_read e c k)
      else \<not> poll_alloc e k \<and> c' = after_read e k (at_read e c k) \<and> r = PollNoMemory)"

lemma bytes_read_simps [simp]:
  "bytes_read e c 0 = []"
  "bytes_read e c (Suc k) = bytes_read e c k @ buffer_bytes (hd (read_queue (at_read e c k)))"
  by (simp_all add: bytes_read_def)

definition full_queue :: "client \<Rightarrow> bool" where
  "full_queue c \<longleftrightarrow> list_all full_buffer (read_queue c)"

lemma at_read_full:
  assumes "\<forall>n c. full_queue c \<longrightarrow> full_queue (poll_meanwhile e n c)" "full_queue c" "poll_takes e c k"
  shows "full_queue (at_read e c k)"
  using assms(3)
proof (induction k)
  case (Suc k)
  then have "full_queue (at_read e c k)" by (simp add: poll_takes_def)
  then have "full_queue (after_read e k (at_read e c k))"
    by (cases "read_queue (at_read e c k)") (simp_all add: full_queue_def after_read_def)
  then show ?case using assms(1) by simp
qed (use assms(1,2) in simp)

lemma poll_takes_Suc:
  "poll_takes e c (Suc k) \<longleftrightarrow> poll_takes e c k \<and> (state (at_read e c k) = CONNECTING \<or> state (at_read e c k) = CONNECTED)
     \<and> read_queue (at_read e c k) \<noteq> [] \<and> poll_alloc e k \<and> length (bytes_read e c k) < DATA_THRESHOLD"
  by (auto simp: poll_takes_def less_Suc_eq)

lemma poll_loop_ends:
  "\<forall>n c. full_queue c \<longrightarrow> full_queue (poll_meanwhile e n c) \<Longrightarrow> full_queue c0 \<Longrightarrow> poll_takes e c0 n \<Longrightarrow>
   poll_meanwhile e n c = at_read e c0 n \<Longrightarrow> acc = bytes_read e c0 n \<Longrightarrow> got = length acc \<Longrightarrow> length acc < DATA_THRESHOLD \<Longrightarrow>
   \<exists>k. poll_ends e c0 k (fst (poll_loop e n c acc got)) (snd (poll_loop e n c acc got))"
proof (induction e n c acc got rule: poll_loop.induct)
  case (1 e n c acc got)
  let ?c = "at_read e c0 n"
  note loop = poll_loop.simps [of e n c] "1.prems"(4)
  have full: "full_queue ?c" using at_read_full "1.prems"(1-3) by blast
  have opn: "read_allowed ?c \<longleftrightarrow> state ?c = CONNECTING \<or> state ?c = CONNECTED" by (auto simp: read_allowed_def)
  consider "\<not> read_allowed ?c" | "read_allowed ?c" "read_queue ?c = []" | b q where "read_allowed ?c" "read_queue ?c = b # q"
    by (cases "read_queue ?c") auto
  then show ?case
  proof cases
    case 1
    then show ?thesis using "1.prems"(3,5,7) opn
      by (intro exI [of _ n]) (simp add: loop read_closed poll_ends_def)
  next
    case 2
    then show ?thesis using "1.prems"(3,5,7) opn
      by (intro exI [of _ n]) (auto simp: loop read_empty poll_ends_def)
  next
    case 3
    then have b: "wf_buffer b" "buffer_bytes b \<noteq> []" using full by (simp_all add: full_queue_def full_buffer_def)
    let ?acc = "acc @ buffer_bytes b" and ?c' = "after_read e n ?c"
    have rd: "client_read (poll_now e n) ?c = (int (length (buffer_bytes b)), b, ?c')"
      using read_some [OF 3 b(1)] 3(2) by (simp add: after_read_def)
    show ?thesis
    proof (cases "poll_alloc e n")
      case False
      then show ?thesis using "1.prems"(3,5,7) opn 3 b(2)
        by (intro exI [of _ n]) (auto simp: loop rd poll_ends_def)
    next
      case True
      have takes: "poll_takes e c0 (Suc n)" using True "1.prems"(3,5,7) opn 3 by (simp add: poll_takes_Suc)
      have acc: "?acc = bytes_read e c0 (Suc n)" using "1.prems"(5) 3(2) by simp
      have step: "poll_loop e n c acc got =
          (if length ?acc < DATA_THRESHOLD then poll_loop e (n + 1) ?c' ?acc (length ?acc) else (?c', PollData ?acc))"
        using b(2) True "1.prems"(6) by (simp add: loop rd buffer_bytes_data)
      show ?thesis
      proof (cases "length ?acc < DATA_THRESHOLD")
        case False
        then show ?thesis using step takes acc by (intro exI [of _ "Suc n"]) (simp add: poll_ends_def)
      next
        case less: True
        have len: "length acc + length (buffer_bytes b) = length (bytes_read e c0 (Suc n))" by (metis acc length_append)
        have r: "(int (length (buffer_bytes b)), b, ?c') = client_read (poll_now e n) (poll_meanwhile e n c)"
          using rd "1.prems"(4) by simp
        have "\<exists>k. poll_ends e c0 k (fst (poll_loop e (n + 1) ?c' ?acc (length ?acc))) (snd (poll_loop e (n + 1) ?c' ?acc (length ?acc)))"
          using "1.IH" [OF r refl _ _ _ refl refl] less b(2) True "1.prems"(1,2,6) takes acc len
          by (simp add: buffer_bytes_data del: bytes_read_simps(2))
        then show ?thesis using step less by simp
      qed
    qed
  qed
qed

text \<open>The size of an answer while the loop thread keeps adding data.\<close>

definition chunks_below :: "nat \<Rightarrow> client \<Rightarrow> bool" where
  "chunks_below m c \<longleftrightarrow> list_all (\<lambda>b. wf_buffer b \<and> length (buffer_bytes b) \<le> m) (read_queue c)"

lemma read_below:
  assumes "chunks_below m c" "client_read t c = (sz, b, c')"
  shows "chunks_below m c'" "length (buffer_bytes b) \<le> m" "sz > 0 \<Longrightarrow> nat sz = length (buffer_bytes b)"
  using assms
  by (cases "read_queue c"; cases "read_allowed c";
      auto simp: chunks_below_def read_closed read_empty read_some empty_buffer_def buffer_bytes_def)+

lemma poll_loop_below:
  "\<forall>n c. chunks_below m c \<longrightarrow> chunks_below m (poll_meanwhile e n c) \<Longrightarrow> chunks_below m c \<Longrightarrow> got = length acc \<Longrightarrow>
   length acc < DATA_THRESHOLD \<Longrightarrow> snd (poll_loop e n c acc got) = PollData res \<Longrightarrow> length res < DATA_THRESHOLD + m"
proof (induction e n c acc got rule: poll_loop.induct)
  case (1 e n c acc got)
  obtain sz b c' where r: "client_read (poll_now e n) (poll_meanwhile e n c) = (sz, b, c')"
    by (metis prod_cases3)
  have below: "chunks_below m (poll_meanwhile e n c)" using "1.prems"(1,2) by blast
  note rb = read_below [OF below r]
  let ?acc = "acc @ buffer_bytes b"
  consider "sz < 0" | "sz = 0" | "sz > 0" "\<not> poll_alloc e n" | "sz > 0" "poll_alloc e n" by linarith
  then show ?case
  proof cases
    case 4
    have step: "poll_loop e n c acc got =
        (if length ?acc < DATA_THRESHOLD then poll_loop e (n + 1) c' ?acc (length ?acc) else (c', PollData ?acc))"
      using 4 rb(3) "1.prems"(3) by (simp add: poll_loop.simps [of e n c] r buffer_bytes_data)
    show ?thesis
    proof (cases "length ?acc < DATA_THRESHOLD")
      case True
      have "got + nat sz = length ?acc" using rb(3) 4 "1.prems"(3) by simp
      then show ?thesis
        using "1.IH" [OF r [symmetric] refl _ 4(1) _ refl refl] 4 rb True "1.prems" step
        by (simp add: buffer_bytes_data)
    next
      case False
      then have "res = ?acc" using step "1.prems"(5) by simp
      then show ?thesis using rb(2) "1.prems"(4) by simp
    qed
  qed (use r "1.prems" in \<open>simp_all add: poll_loop.simps [of e n c]\<close>)
qed

lemma client_read_id: "client_id (snd (snd (client_read t c))) = client_id c"
  by (simp add: client_read_def Let_def split: option.split prod.split)

lemma poll_loop_id:
  "\<forall>n c. client_id (poll_meanwhile e n c) = client_id c \<Longrightarrow> client_id (fst (poll_loop e n c acc got)) = client_id c"
proof (induction e n c acc got rule: poll_loop.induct)
  case (1 e n c acc got)
  obtain sz b c' where r: "client_read (poll_now e n) (poll_meanwhile e n c) = (sz, b, c')"
    by (metis prod_cases3)
  have c': "client_id c' = client_id c"
    using client_read_id [of "poll_now e n" "poll_meanwhile e n c"] r "1.prems" by simp
  then show ?case using "1.IH" [OF r [symmetric] refl _ _ _ refl refl] "1.prems"
    by (simp add: poll_loop.simps [of e n c] r Let_def)
qed

text \<open>A poll of a session in the table: what the loop does to it, and the answer.\<close>

definition poll_answer :: "server \<Rightarrow> string \<Rightarrow> poll_result \<Rightarrow> string" where
  "poll_answer s callback r = (case r of
       PollGone \<Rightarrow> sendResponse GONE
     | PollNoMemory \<Rightarrow> sendResponse INTERNAL_SERVER_ERROR
     | PollData acc \<Rightarrow>
         if acc = [] then sendResponseBody OK (poll_body callback [])
         else case b64_encode s acc of None \<Rightarrow> sendResponse INTERNAL_SERVER_ERROR
           | Some body \<Rightarrow> sendResponseBody OK (poll_body callback body))"

lemma poll_handler:
  assumes "getSessionId (getQueries req) = cid" "cid \<noteq> []" "lock_storage MainThread w = Some w1" "storage_get cid w1 = Some p"
    "clients w1 p = Some c" "poll_loop e 0 c [] 0 = (c', r)"
    "unlock_storage MainThread ((poll_world e w1)\<lparr>clients := (clients (poll_world e w1))(p \<mapsto> c')\<rparr>) = Some w3"
  shows "onPoll s e req w = Some (w3\<lparr>responses := responses w3 @ [poll_answer s (getCallback (getQueries req)) r]\<rparr>)"
  using assms
  by (auto simp: onPoll_def Let_def poll_answer_def respond_def respond_body_def split: poll_result.split option.split)

lemma poll_session:
  assumes ok: "storage_ok w" "storage_lock w = None" and e: "loop_change (poll_world e)"
    "\<forall>n c. client_id (poll_meanwhile e n c) = client_id c"
    and c: "getSessionId (getQueries req) = cid" "cid \<noteq> []" "session w cid = Some c"
  shows "\<exists>w'. onPoll s e req w = Some w' \<and> storage_ok w' \<and> storage_lock w' = None
    \<and> session w' = (session (poll_world e (locked w)))(cid \<mapsto> fst (poll_loop e 0 c [] 0))
    \<and> responses w' = responses w @ [poll_answer s (getCallback (getQueries req)) (snd (poll_loop e 0 c [] 0))]"
proof -
  note wl = locked_facts [OF ok]
  let ?w = "poll_world e (locked w)" and ?c' = "fst (poll_loop e 0 c [] 0)"
  obtain p where p: "storage_get cid w = Some p" "clients (locked w) p = Some c" "client_id c = cid"
    using storage_get_session [OF ok(1), of cid] c(3) wl(7) by auto
  have k: "storage_ok ?w" "keeps (locked w) ?w" using e(1) wl(4) by (simp_all add: loop_change_def)
  then have "map_find (client_map ?w) cid = Some p" using p(1) wl(9) by (simp add: keeps_def storage_get_def)
  then obtain c1 where c1: "clients ?w p = Some c1" "client_id c1 = cid" using storage_ok_find [OF k(1)] by blast
  let ?w2 = "?w\<lparr>clients := (clients ?w)(p \<mapsto> ?c')\<rparr>"
  have "client_id ?c' = client_id c1" using poll_loop_id [OF e(2), of 0 c "[]" 0] p(3) c1(2) by simp
  then have w2: "storage_ok ?w2" "session ?w2 = (session ?w)(cid \<mapsto> ?c')"
    using storage_ok_update [OF k(1) c1(1)] c1(2) by simp_all
  have "unlock_storage MainThread ?w2 = Some (?w2\<lparr>storage_lock := None\<rparr>)" "responses ?w2 = responses w"
    using k(2) wl(2,8) by (simp_all add: keeps_def frame_simps)
  with poll_handler [OF c(1,2) wl(1) _ p(2), of e ?c' "snd (poll_loop e 0 c [] 0)" _ s] p(1) wl(6) show ?thesis
    using w2 by (auto simp: frame_simps)
qed

section \<open>Properties\<close>

text \<open>
  C17. Every branch of a poll, whatever the loop thread does meanwhile to the client and to the rest of
  the table, and whatever the allocator answers. 400 without an identifier and 410 for an unknown session
  change nothing. Otherwise the poll takes buffers one after another as they are at that moment, and ends
  as \<open>poll_ends\<close> says: with 200 and the base64 text of exactly the bytes taken (an empty body when there
  are none, 500 when they cannot be encoded) as soon as 16384 bytes are reached or nothing is left, with
  410 when the session is closing and with 500 when there is no memory (in both cases what was taken is
  gone). It changes nothing but the session, and answers once.
\<close>

theorem poll_spec:
  assumes ok: "storage_ok w" "storage_lock w = None" and e: "loop_change (poll_world e)"
    "\<forall>n c. client_id (poll_meanwhile e n c) = client_id c" "\<forall>n c. full_queue c \<longrightarrow> full_queue (poll_meanwhile e n c)"
    and bufs: "\<forall>c. session w (getSessionId (getQueries req)) = Some c \<longrightarrow> full_queue c"
  shows "\<exists>w'. onPoll s e req w = Some w' \<and> storage_ok w' \<and> storage_lock w' = None \<and>
    (let cid = getSessionId (getQueries req); answer = (\<lambda>body. sendResponseBody OK (poll_body (getCallback (getQueries req)) body)) in
     case (if cid = [] then None else session w cid) of
       None \<Rightarrow> w' = respond (if cid = [] then BAD_REQUEST else GONE) w
     | Some c \<Rightarrow> \<exists>k c' r. poll_ends e c k c' r \<and> session w' = (session (poll_world e (locked w)))(cid \<mapsto> c')
         \<and> responses w' = responses w @ [case r of
             PollGone \<Rightarrow> sendResponse GONE
           | PollNoMemory \<Rightarrow> sendResponse INTERNAL_SERVER_ERROR
           | PollData taken \<Rightarrow> if taken = [] then answer []
               else case b64_encode s taken of None \<Rightarrow> sendResponse INTERNAL_SERVER_ERROR | Some b \<Rightarrow> answer b])"
proof -
  define cid where "cid = getSessionId (getQueries req)"
  note wl = locked_facts [OF ok]
  show ?thesis
  proof (cases "if cid = [] then None else session w cid")
    case None
    then have "onPoll s e req w = Some (respond (if cid = [] then BAD_REQUEST else GONE) w)"
      using wl storage_get_session [OF ok(1), of cid]
      by (auto simp: onPoll_def cid_def [symmetric] frame_simps split: if_splits)
    then show ?thesis using None ok by (simp add: cid_def [symmetric] frame_simps del: if_split)
  next
    case (Some c)
    then have ne: "cid \<noteq> []" and s: "session w cid = Some c" by (simp_all split: if_splits)
    let ?r = "poll_loop e 0 c [] 0"
    obtain w' where w': "onPoll s e req w = Some w'" "storage_ok w'" "storage_lock w' = None"
      "session w' = (session (poll_world e (locked w)))(cid \<mapsto> fst ?r)"
      "responses w' = responses w @ [poll_answer s (getCallback (getQueries req)) (snd ?r)]"
      using poll_session [OF ok e(1,2) cid_def [symmetric] ne s] by blast
    have "full_queue c" using bufs s by (simp add: cid_def)
    moreover have "poll_takes e c 0" "length ([] :: bytes) < DATA_THRESHOLD" by (simp_all add: poll_takes_def DATA_THRESHOLD_def)
    ultimately obtain k where k: "poll_ends e c k (fst ?r) (snd ?r)" using poll_loop_ends [OF e(3), of c 0 c "[]" 0] by auto
    show ?thesis
      unfolding Let_def cid_def [symmetric] Some option.case
      by (rule exI [of _ w'], intro conjI w'(1-3), rule exI [of _ k], rule exI [of _ "fst ?r"], rule exI [of _ "snd ?r"],
          intro conjI k w'(4), simp only: w'(5) poll_answer_def)
  qed
qed

definition example_poll :: poll_env where
  "example_poll = \<lparr>poll_now = (\<lambda>_. 1), poll_alloc = (\<lambda>_. True), poll_meanwhile = (\<lambda>_ c. c), poll_world = (\<lambda>w. w)\<rparr>"

text \<open>One buffer is taken; then the backend closes the connection, and the byte is lost.\<close>

definition closing_poll :: poll_env where
  "closing_poll = example_poll\<lparr>poll_meanwhile := (\<lambda>n c. if n = 0 then c else c\<lparr>state := DISCONNECTING\<rparr>)\<rparr>"

definition full_world :: world where
  "full_world = example_world\<lparr>clients := (clients example_world)(7 \<mapsto>
     (new_client 0 0 ''a'' [''x''] 30)\<lparr>state := CONNECTED, read_queue := [\<lparr>data = Some [9], siz = 1\<rparr>]\<rparr>)\<rparr>"

lemma full_world_ok:
  "storage_ok full_world" "storage_lock full_world = None" "responses full_world = []"
  "session full_world ''a'' = Some ((new_client 0 0 ''a'' [''x''] 30)\<lparr>state := CONNECTED, read_queue := [\<lparr>data = Some [9], siz = 1\<rparr>]\<rparr>)"
  using storage_ok_update [OF example_world_ok example_world_simps(4),
      of "(new_client 0 0 ''a'' [''x''] 30)\<lparr>state := CONNECTED, read_queue := [\<lparr>data = Some [9], siz = 1\<rparr>]\<rparr>"]
  by (simp_all add: full_world_def example_world_simps new_client_def)

lemma closing_ends:
  assumes "poll_ends closing_poll c k c' r" "state c = CONNECTED" "read_queue c = [\<lparr>data = Some [9], siz = 1\<rparr>]"
  shows "r = PollGone \<and> read_queue c' = []"
proof -
  have at: "at_read closing_poll c 0 = c" "state (at_read closing_poll c 1) = DISCONNECTING" "read_queue (at_read closing_poll c 1) = []"
    using assms(3) by (simp_all add: closing_poll_def example_poll_def after_read_def)
  have "poll_takes closing_poll c k" using assms(1) by (simp add: poll_ends_def)
  then have "\<not> 1 < k" using at(2) by (auto simp: poll_takes_def)
  then consider "k = 0" | "k = 1" by linarith
  then show ?thesis
  proof cases
    case 1
    then show ?thesis using assms at by (simp add: poll_ends_def DATA_THRESHOLD_def closing_poll_def example_poll_def)
  next
    case 2
    have "length (bytes_read closing_poll c 1) = 1" using at(1) assms(3) by (simp add: buffer_bytes_def)
    then show ?thesis using 2 assms(1) at by (simp add: poll_ends_def DATA_THRESHOLD_def)
  qed
qed

theorem poll_spec_witness:
  "\<exists>w' c'. onPoll example_server closing_poll (example_request ''a'') full_world = Some w'
     \<and> responses w' = [sendResponse GONE] \<and> session w' ''a'' = Some c' \<and> read_queue c' = []"
proof -
  let ?c = "(new_client 0 0 ''a'' [''x''] 30)\<lparr>state := CONNECTED, read_queue := [\<lparr>data = Some [9], siz = 1\<rparr>]\<rparr>"
  have e: "loop_change (poll_world closing_poll)" "\<forall>n c. client_id (poll_meanwhile closing_poll n c) = client_id c"
    "\<forall>n c. full_queue c \<longrightarrow> full_queue (poll_meanwhile closing_poll n c)"
    by (simp_all add: closing_poll_def example_poll_def loop_change_def full_queue_def)
  have q: "getSessionId (getQueries (example_request ''a'')) = ''a''" by (simp add: example_request_simps)
  have b: "\<forall>c. session full_world (getSessionId (getQueries (example_request ''a''))) = Some c \<longrightarrow> full_queue c"
    unfolding q full_world_ok(4) by (simp add: full_queue_def full_buffer_def wf_buffer_def buffer_bytes_def)
  obtain w' k c' r where w': "onPoll example_server closing_poll (example_request ''a'') full_world = Some w'"
    "poll_ends closing_poll ?c k c' r" "session w' ''a'' = Some c'"
    "r = PollGone \<longrightarrow> responses w' = [sendResponse GONE]"
    using poll_spec [OF full_world_ok(1,2) e b, of example_server] unfolding q Let_def by (auto simp: full_world_ok)
  have "r = PollGone \<and> read_queue c' = []" by (rule closing_ends [OF w'(2)]) simp_all
  then show ?thesis using w' by blast
qed

text \<open>
  C28. However fast the loop thread adds data while a poll runs, the poll ends (\<open>poll_loop\<close> is
  total), and it takes less than 16384 bytes more than the largest buffer.
\<close>

theorem poll_bound:
  assumes "\<forall>n c. chunks_below m c \<longrightarrow> chunks_below m (poll_meanwhile e n c)" "chunks_below m c"
    "poll_loop e 0 c [] 0 = (c', PollData res)"
  shows "length res < DATA_THRESHOLD + m"
proof -
  have "length ([] :: bytes) < DATA_THRESHOLD" by (simp add: DATA_THRESHOLD_def)
  then show ?thesis using poll_loop_below [OF assms(1,2), of 0 "[]" 0 res] assms(3) by simp
qed

text \<open>A loop thread that adds a byte before every read: the poll still ends.\<close>

definition feeding :: "client \<Rightarrow> client" where
  "feeding c = c\<lparr>state := CONNECTED, read_queue := [\<lparr>data = Some [7], siz = 1\<rparr>]\<rparr>"

theorem poll_bound_witness:
  "\<exists>res. snd (poll_loop \<lparr>poll_now = (\<lambda>_. 1), poll_alloc = (\<lambda>_. True), poll_meanwhile = (\<lambda>n c. if n < 3 then feeding c else c), poll_world = (\<lambda>w. w)\<rparr>
      0 (feeding example_client) [] 0) = PollData res \<and> res = [7, 7, 7] \<and> length res < DATA_THRESHOLD + 1"
proof -
  let ?e = "\<lparr>poll_now = (\<lambda>_. 1), poll_alloc = (\<lambda>_. True), poll_meanwhile = (\<lambda>n c. if n < 3 then feeding c else c), poll_world = (\<lambda>w. w)\<rparr>"
  obtain c' where c': "poll_loop ?e 0 (feeding example_client) [] 0 = (c', PollData [7, 7, 7])"
    by (simp add: poll_loop.simps feeding_def client_read_def read_allowed_def copy_buffer_def empty_buffer_def DATA_THRESHOLD_def)
  have "\<forall>n c. chunks_below 1 c \<longrightarrow> chunks_below 1 (poll_meanwhile ?e n c)" "chunks_below 1 (feeding example_client)"
    by (simp_all add: feeding_def chunks_below_def wf_buffer_def buffer_bytes_def)
  from poll_bound [OF this c'] show ?thesis using c' by simp
qed

text \<open>
  C16. A message on its whole way: when a browser posts the URL-encoded base64 text of some bytes to a
  connected session, and the loop then handles the request, libuv is given exactly these bytes for the
  client of that session, once. \<open>b64_decode\<close> is only required to decode this text.
\<close>

theorem message_delivered:
  assumes "storage_ok w" "storage_lock w = None" "getOrigin req = Some orig" "getSessionId (getQueries req) \<noteq> []"
    "session w (getSessionId (getQueries req)) = Some c" "isAllowOrigin (matches s) orig (allow_origins c)"
    "state c = CONNECTED" "write_queue c = []" "requests w = []"
    "url_encode True b64 = Some (getData (getQueries req))" "nul_free b64" "b64 \<noteq> []" "b64_decode b64 = Some bs"
    "\<And>n. io_succeeds (writes (io n))"
  shows "\<exists>p w1 w2. storage_get (getSessionId (getQueries req)) w = Some p \<and> onPost s req w = Some w1
    \<and> responses w1 = responses w @ [sendResponse NO_CONTENT]
    \<and> on_async b64_decode io 0 w1 = Some ([(p, Send bs)], w2) \<and> requests w2 = []
    \<and> session w2 = session w"
proof -
  define cid where "cid = getSessionId (getQueries req)"
  define d where "d = getData (getQueries req)"
  have dec: "url_decode True d = Some b64" using url_codec_inverse [OF assms(10)] assms(11) by (simp add: d_def c_str_id)
  have "d \<noteq> []" using assms(12) dec by (auto simp: url_decode_def c_str_def)
  moreover have "write_allowed c" using assms(7) by (simp add: write_allowed_def)
  ultimately obtain w1 p where w1: "onPost s req w = Some w1" "storage_ok w1" "storage_get cid w = Some p"
    "responses w1 = responses w @ [sendResponse NO_CONTENT]" "requests w1 = [(WRITE, p)]"
    "session w1 = (session w)(cid \<mapsto> c\<lparr>write_queue := [d]\<rparr>)" "clients w1 p = Some (c\<lparr>write_queue := [d]\<rparr>)"
    using post_put [OF assms(1,2,3) cid_def [symmetric] _ _ assms(6) d_def [symmetric]] assms(4,5,8,9)
    by (auto simp: cid_def [symmetric])
  have "list_all2 (decodes b64_decode) [d] [bs]" using dec assms(13) by (simp add: decodes_def)
  then have "write_loop b64_decode (writes (io 0)) 0 [d] = ([bs], [])" using assms(14) write_loop_all by blast
  then have lw: "loop_write b64_decode (writes (io 0)) (c\<lparr>write_queue := [d]\<rparr>) = (c\<lparr>write_queue := []\<rparr>, [bs])"
    by (simp add: loop_write_def)
  have c0: "c\<lparr>write_queue := []\<rparr> = c" using assms(8) by (cases c) simp
  let ?w2 = "w1\<lparr>requests := [], clients := (clients w1)(p \<mapsto> c)\<rparr>"
  have a: "on_async b64_decode io 0 w1 = Some ([(p, Send bs)], ?w2)"
    by (simp add: on_async.simps w1(5) on_client_def w1(7) lw c0)
  have ok1: "storage_ok (w1\<lparr>requests := []\<rparr>)" using w1(2) by (simp add: frame_simps)
  have "client_id c = cid" using storage_get_session [OF assms(1), of cid] assms(5) by (auto simp: cid_def)
  then have "session ?w2 = (session w1)(cid \<mapsto> c)"
    using storage_ok_update [OF ok1, of p "c\<lparr>write_queue := [d]\<rparr>" c] w1(7) by (simp add: frame_simps)
  then have "session ?w2 = session w" using w1(6) assms(5) by (auto simp: cid_def fun_eq_iff)
  then show ?thesis using a w1(1,3,4) by (auto simp: cid_def)
qed

definition connected_world :: world where
  "connected_world = example_world\<lparr>clients := (clients example_world)(7 \<mapsto> (new_client 0 0 ''a'' [''x''] 30)\<lparr>state := CONNECTED\<rparr>)\<rparr>"

definition example_io :: "nat \<Rightarrow> request_io" where
  "example_io n = \<lparr>conn = \<lparr>tcp_init = 0, req_alloc = True, addrinfo = Some AF_INET, tcp_connect = 0\<rparr>,
     writes = (\<lambda>_. \<lparr>url_alloc = True, write_alloc = True, uv_write = 0\<rparr>)\<rparr>"

lemma connected_world_ok:
  "storage_ok connected_world" "storage_lock connected_world = None" "requests connected_world = []"
  "responses connected_world = []"
  "session connected_world ''a'' = Some ((new_client 0 0 ''a'' [''x''] 30)\<lparr>state := CONNECTED\<rparr>)"
  using storage_ok_update [OF example_world_ok example_world_simps(4), of "(new_client 0 0 ''a'' [''x''] 30)\<lparr>state := CONNECTED\<rparr>"]
  by (simp_all add: connected_world_def example_world_simps new_client_def)

theorem message_delivered_witness:
  "\<exists>p w1 w2. onPost example_server (example_request ''a'') connected_world = Some w1
     \<and> on_async (\<lambda>t. if t = ''QQ'' then Some [65] else None) example_io 0 w1 = Some ([(p, Send [65])], w2)"
proof -
  have e: "url_encode True ''QQ'' = Some ''QQ''" by code_simp
  have io: "io_succeeds (writes (example_io n))" for n by (simp add: io_succeeds_def example_io_def)
  show ?thesis
    using message_delivered [OF connected_world_ok(1,2) example_request_simps(4), of "''a''" _ example_server "''QQ''"
        "\<lambda>t. if t = ''QQ'' then Some [65] else None" "[65]" example_io] e io connected_world_ok
    by (auto simp: example_request_simps new_client_def isAllowOrigin_def)
qed

end
