(* ===== verification/Poll_Memory.thy ===== *)
theory Poll_Memory
  imports Tcp_Buffer Server_Poll
begin

text \<open>
  The loop of \<open>onPoll\<close> with its memory: the buffer of each turn, the block \<open>data\<close> that grows by
  \<open>realloc\<close>, and the places where they are freed. The lemmas show that the loop implements
  \<open>poll_loop\<close> of \<open>Server\<close>; the property says what is allocated when it ends.
\<close>

section \<open>The code\<close>

text \<open>
  The addresses the allocator answers in turn \<open>n\<close>, given the memory: in the assignment of \<open>read\<close>, and
  for \<open>data\<close>, whose old block is already released so that it can be used again; and what the loop thread
  does to the queue before the turn.
\<close>

record poll_memory =
  assign_addr :: "nat \<Rightarrow> memory \<Rightarrow> nat option"
  data_addr :: "nat \<Rightarrow> memory \<Rightarrow> nat option"
  store_meanwhile :: "nat \<Rightarrow> store \<Rightarrow> store"

definition release :: "ptr \<Rightarrow> memory \<Rightarrow> memory" where
  "release p m = (case p of None \<Rightarrow> m | Some a \<Rightarrow> m(a := None))"

text \<open>\<open>malloc\<close> or \<open>realloc\<close> that answered \<open>a\<close>, and \<open>memcpy\<close> of the bytes of \<open>buf\<close> to its end.\<close>

definition data_append :: "nat \<Rightarrow> ptr \<Rightarrow> nat \<Rightarrow> tcp_buffer_t \<Rightarrow> memory \<Rightarrow> (ptr \<times> memory) option" where
  "data_append a d total_siz buf m =
     (case (if d = None then Some [] else Option.bind d m, Option.bind (buf_data buf) (release d m)) of
        (Some old, Some new) \<Rightarrow>
          if length new < nat (buf_siz buf) then None
          else Some (Some a, (release d m)(a \<mapsto> take total_siz old @ take (nat (buf_siz buf)) new))
      | _ \<Rightarrow> None)"

definition free_data :: "ptr \<Rightarrow> memory \<Rightarrow> memory option" where
  "free_data d m = (case d of None \<Rightarrow> Some m | Some p \<Rightarrow> if m p = None then None else Some (m(p := None)))"

datatype mem_result = MemGone | MemNoMemory | MemData

text \<open>The field \<open>read_queue\<close> of the client stands for the values of the queue in memory.\<close>

function poll_mem :: "poll_env \<Rightarrow> poll_memory \<Rightarrow> nat \<Rightarrow> client \<Rightarrow> ptr \<Rightarrow> nat \<Rightarrow> store \<Rightarrow>
    (client \<times> mem_result \<times> ptr \<times> nat \<times> store) option" where
  "poll_mem e pm n c d total_siz s =
     (let c1 = poll_meanwhile e n c; s1 = store_meanwhile pm n s
      in if \<not> read_allowed c1 then Some (c1, MemGone, d, total_siz, s1)
         else case store_consume (assign_addr pm n (snd s1)) buffer_default s1 of
           None \<Rightarrow> None
         | Some (got, buf, q, m) \<Rightarrow>
             (let c2 = c1\<lparr>last_access := poll_now e n, read_queue := values_in (q, m)\<rparr>
              in if got \<and> buf_siz buf > 0 then
                   (case data_addr pm n (release d m) of
                      None \<Rightarrow> Option.bind (free_data d m) (\<lambda>m1.
                        map_option (\<lambda>m2. (c2, MemNoMemory, None, total_siz, q, m2)) (buffer_destroy buf m1))
                    | Some a \<Rightarrow> Option.bind (data_append a d total_siz buf m) (\<lambda>(d', m1).
                        Option.bind (buffer_destroy buf m1) (\<lambda>m2.
                        let total_siz' = total_siz + nat (buf_siz buf)
                        in if total_siz' < DATA_THRESHOLD then poll_mem e pm (n + 1) c2 d' total_siz' (q, m2)
                           else Some (c2, MemData, d', total_siz', q, m2))))
                 else map_option (\<lambda>m2. (c2, MemData, d, total_siz, q, m2)) (buffer_destroy buf m)))"
  by pat_completeness auto
termination
  by (relation "measure (\<lambda>(e, pm, n, c, d, total_siz, s). DATA_THRESHOLD - total_siz)") auto

declare poll_mem.simps [simp del]

text \<open>The rest of \<open>onPoll\<close>: the bytes are encoded and \<open>data\<close> is freed, but not when \<open>read\<close> failed.\<close>

definition poll_in_memory :: "poll_env \<Rightarrow> poll_memory \<Rightarrow> client \<Rightarrow> store \<Rightarrow> (client \<times> poll_result \<times> ptr \<times> store) option" where
  "poll_in_memory e pm c s =
     Option.bind (poll_mem e pm 0 c None 0 s) (\<lambda>(c', r, d, total_siz, s').
       case r of
         MemGone \<Rightarrow> Some (c', PollGone, d, s')
       | MemNoMemory \<Rightarrow> Some (c', PollNoMemory, d, s')
       | MemData \<Rightarrow>
           if total_siz > 0 then
             Option.bind (Option.bind d (snd s')) (\<lambda>bytes.
             map_option (\<lambda>m. (c', PollData (take total_siz bytes), None, fst s', m)) (free_data d (snd s')))
           else Some (c', PollData [], d, s'))"

section \<open>One turn\<close>

text \<open>The block \<open>data\<close> as a buffer, which holds the bytes taken so far.\<close>

definition data_buffer :: "ptr \<Rightarrow> bytes \<Rightarrow> tcp_buffer_t list" where
  "data_buffer d acc = (case d of None \<Rightarrow> [] | Some p \<Rightarrow> [\<lparr>buf_data = Some p, buf_siz = int (length acc)\<rparr>])"

definition data_holds :: "ptr \<Rightarrow> bytes \<Rightarrow> memory \<Rightarrow> bool" where
  "data_holds d acc m \<longleftrightarrow> (case d of None \<Rightarrow> acc = [] | Some p \<Rightarrow> m p = Some acc \<and> acc \<noteq> [])"

lemma data_holds_value:
  "data_holds d acc m \<longleftrightarrow> (d = None \<longrightarrow> acc = []) \<and> (d \<noteq> None \<longrightarrow> acc \<noteq> [])
     \<and> (\<forall>b \<in> set (data_buffer d acc). data (value_of m b) = Some acc)"
  by (auto simp: data_holds_def data_buffer_def value_of_def split: option.split)

lemma release_owns:
  assumes "owns (data_buffer d acc @ bs) m"
  shows "owns bs (release d m)" "\<forall>x \<in> set bs. value_of (release d m) x = value_of m x" "free_data d m = Some (release d m)"
  using assms destroy_owns [of "\<lparr>buf_data = d, buf_siz = int (length acc)\<rparr>" bs m]
  by (auto simp: data_buffer_def release_def free_data_def buffer_destroy_def split: option.splits if_splits)

lemma append_owns:
  assumes o: "owns (data_buffer d acc @ buf # bs) m" and h: "data_holds d acc m" "buf_siz buf > 0"
    and a: "release d m a = None"
  shows "\<exists>m' new. data_append a d (length acc) buf m = Some (Some a, m') \<and> data (value_of m buf) = Some new
    \<and> nat (buf_siz buf) = length new \<and> owns (data_buffer (Some a) (acc @ new) @ buf # bs) m' \<and> data_holds (Some a) (acc @ new) m'
    \<and> (\<forall>x \<in> set (buf # bs). value_of m' x = value_of m x)"
proof -
  note r = release_owns [OF o]
  obtain p new where p: "buf_data buf = Some p" "release d m p = Some new" "new \<noteq> []" "buf_siz buf = int (length new)"
    using owns_member [OF r(1), of buf] h(2) by (auto split: option.splits)
  then have v: "data (value_of m buf) = Some new" using r(2) by (auto simp: value_of_def)
  have old: "(if d = None then Some [] else Option.bind d m) = Some acc"
    using h(1) by (auto simp: data_holds_def split: option.splits)
  let ?m = "(release d m)(a \<mapsto> acc @ new)"
  have "data_append a d (length acc) buf m = Some (Some a, ?m)"
    unfolding data_append_def old using p by simp
  moreover have "owns (data_buffer (Some a) (acc @ new) @ buf # bs) ?m"
    using own_block(1) [OF r(1) a, of "acc @ new"] p(3) by (simp add: data_buffer_def)
  moreover have "\<forall>x \<in> set (buf # bs). value_of ?m x = value_of m x"
    using own_block(2) [OF r(1) a, of "acc @ new"] p(3) r(2) by simp
  ultimately show ?thesis using p v by (auto simp: data_holds_def)
qed

section \<open>The loop\<close>

text \<open>
  What is assumed of the outside: the allocator answers free addresses, has memory for the assignments
  and refuses \<open>data\<close> when the surroundings of \<open>poll_loop\<close> say so; the loop thread keeps the memory in
  order, adds to both queues the same values and leaves the buffers of others alone.
\<close>

definition allocator_ok :: "poll_env \<Rightarrow> poll_memory \<Rightarrow> bool" where
  "allocator_ok e pm \<longleftrightarrow> (\<forall>n m. finite (dom m) \<longrightarrow>
     (case assign_addr pm n m of None \<Rightarrow> False | Some a \<Rightarrow> m a = None)
     \<and> (case data_addr pm n m of None \<Rightarrow> \<not> poll_alloc e n | Some a \<Rightarrow> poll_alloc e n \<and> m a = None))"

definition meanwhile_ok :: "poll_env \<Rightarrow> poll_memory \<Rightarrow> bool" where
  "meanwhile_ok e pm \<longleftrightarrow> (\<forall>n bs s c. store_ok bs s \<and> read_queue c = values_in s \<longrightarrow>
     store_ok bs (store_meanwhile pm n s) \<and> read_queue (poll_meanwhile e n c) = values_in (store_meanwhile pm n s)
     \<and> (\<forall>b \<in> set bs. value_of (snd (store_meanwhile pm n s)) b = value_of (snd s) b))"

lemma allocator_at:
  assumes "allocator_ok e pm" "finite (dom m)"
  shows "\<exists>a. assign_addr pm n m = Some a \<and> m a = None"
    "if poll_alloc e n then \<exists>a. data_addr pm n m = Some a \<and> m a = None else data_addr pm n m = None"
proof -
  have "(case assign_addr pm n m of None \<Rightarrow> False | Some a \<Rightarrow> m a = None)
      \<and> (case data_addr pm n m of None \<Rightarrow> \<not> poll_alloc e n | Some a \<Rightarrow> poll_alloc e n \<and> m a = None)"
    using assms unfolding allocator_ok_def by blast
  then show "\<exists>a. assign_addr pm n m = Some a \<and> m a = None"
    "if poll_alloc e n then \<exists>a. data_addr pm n m = Some a \<and> m a = None else data_addr pm n m = None"
    by (simp_all split: option.splits)
qed

lemma store_ok_siz: "store_ok (b # bs) s \<Longrightarrow> 0 \<le> buf_siz b"
proof -
  assume "store_ok (b # bs) s"
  then obtain vs where "owns (b # vs) (snd s)" by (auto simp: store_ok_def holds_def)
  then show "0 \<le> buf_siz b" using owns_member [of "b # vs" "snd s" b] by (auto split: option.splits)
qed

lemma store_ok_finite: "store_ok bs s \<Longrightarrow> finite (dom (snd s))"
  by (auto simp: store_ok_def holds_def owns_def)

lemma finite_release: "finite (dom m) \<Longrightarrow> finite (dom (release d m))"
  by (auto simp: release_def split: option.split)

lemma data_holds_keep:
  "data_holds d acc m \<Longrightarrow> \<forall>b \<in> set (data_buffer d acc). value_of m' b = value_of m b \<Longrightarrow> data_holds d acc m'"
  by (simp add: data_holds_value)

lemma store_ok_release:
  assumes "store_ok (data_buffer d acc @ bs) s"
  shows "store_ok bs (fst s, release d (snd s)) \<and> free_data d (snd s) = Some (release d (snd s))"
proof -
  obtain xs ys where h: "holds (data_buffer d acc @ bs) xs ys [] s" using assms by (auto simp: store_ok_def)
  then have "owns (data_buffer d acc @ bs @ node_values (heap (fst s)) (xs @ ys)) (snd s)" by (simp add: holds_def)
  note r = release_owns [OF this]
  then have "holds bs xs ys [] (fst s, release d (snd s))" using h by (simp add: holds_def)
  then show ?thesis using r(3) unfolding store_ok_def by blast
qed

lemma store_ok_swap: "store_ok (b # bs) s \<Longrightarrow> store_ok (bs @ [b]) s"
proof -
  assume "store_ok (b # bs) s"
  then obtain xs ys where h: "holds (b # bs) xs ys [] s" by (auto simp: store_ok_def)
  let ?vs = "node_values (heap (fst s)) (xs @ ys @ [])"
  have "owns ((b # bs) @ ?vs) (snd s)" using h by (simp add: holds_def)
  then have "owns ((bs @ [b]) @ ?vs) (snd s)" by (rule owns_perm [rotated]) simp
  then show "store_ok (bs @ [b]) s" using h unfolding store_ok_def holds_def by blast
qed

text \<open>A turn that takes a buffer: the bytes go to the end of \<open>data\<close>, the buffer is destroyed.\<close>

lemma store_append:
  assumes ok: "store_ok (buf # data_buffer d acc) s" and h: "data_holds d acc (snd s)" "buf_siz buf > 0"
    and a: "release d (snd s) a = None"
  shows "\<exists>m1 m2 new. data_append a d (length acc) buf (snd s) = Some (Some a, m1) \<and> buffer_destroy buf m1 = Some m2
    \<and> data (value_of (snd s) buf) = Some new \<and> nat (buf_siz buf) = length new
    \<and> store_ok (data_buffer (Some a) (acc @ new)) (fst s, m2) \<and> data_holds (Some a) (acc @ new) m2
    \<and> values_in (fst s, m2) = values_in s"
proof -
  have "store_ok (data_buffer d acc @ [buf]) s" using store_ok_swap [OF ok] .
  then obtain xs ys where g: "holds (data_buffer d acc @ [buf]) xs ys [] s" by (auto simp: store_ok_def)
  let ?vs = "node_values (heap (fst s)) (xs @ ys)"
  have o: "owns (data_buffer d acc @ buf # ?vs) (snd s)" using g by (simp add: holds_def)
  obtain m1 new where m1: "data_append a d (length acc) buf (snd s) = Some (Some a, m1)" "data (value_of (snd s) buf) = Some new"
    "nat (buf_siz buf) = length new" "owns (data_buffer (Some a) (acc @ new) @ buf # ?vs) m1" "data_holds (Some a) (acc @ new) m1"
    "\<forall>x \<in> set (buf # ?vs). value_of m1 x = value_of (snd s) x"
    using append_owns [OF o h a] by blast
  let ?s1 = "(fst s, m1)"
  have "owns ((buf # data_buffer (Some a) (acc @ new)) @ ?vs) m1" by (rule owns_perm [OF _ m1(4)]) simp
  then have "holds (buf # data_buffer (Some a) (acc @ new)) xs ys [] ?s1" using g by (simp add: holds_def)
  then have "store_ok (buf # data_buffer (Some a) (acc @ new)) ?s1" unfolding store_ok_def by blast
  from store_destroy [OF this] obtain m2 where m2: "buffer_destroy buf m1 = Some m2"
    "store_ok (data_buffer (Some a) (acc @ new)) (fst s, m2)" "values_in (fst s, m2) = values_in ?s1"
    "\<forall>x \<in> set (data_buffer (Some a) (acc @ new)). value_of m2 x = value_of m1 x" by auto
  have "values_in ?s1 = values_in s" using m1(6) contents_in [OF g] by (auto simp: values_in_def)
  then show ?thesis using m1(1-3) m2 data_holds_keep [OF m1(5) m2(4)] by auto
qed

text \<open>How the loop may end, against the result of \<open>poll_loop\<close>.\<close>

definition ends_as :: "poll_result \<Rightarrow> mem_result \<Rightarrow> ptr \<Rightarrow> nat \<Rightarrow> store \<Rightarrow> bool" where
  "ends_as res r d total_siz s \<longleftrightarrow> (case r of
       MemGone \<Rightarrow> res = PollGone \<and> (\<exists>acc. store_ok (data_buffer d acc) s \<and> data_holds d acc (snd s))
     | MemNoMemory \<Rightarrow> res = PollNoMemory \<and> d = None \<and> store_ok [] s
     | MemData \<Rightarrow> (\<exists>acc. res = PollData acc \<and> total_siz = length acc \<and> store_ok (data_buffer d acc) s \<and> data_holds d acc (snd s)))"

text \<open>
  One turn: both loops end, or both go on with the same bytes. \<open>linked_state\<close> is what holds between
  two turns.
\<close>

definition linked_state :: "ptr \<Rightarrow> bytes \<Rightarrow> nat \<Rightarrow> client \<Rightarrow> store \<Rightarrow> bool" where
  "linked_state d acc got c s \<longleftrightarrow> store_ok (data_buffer d acc) s \<and> data_holds d acc (snd s) \<and> read_queue c = values_in s
     \<and> got = length acc"

definition agree :: "poll_env \<Rightarrow> poll_memory \<Rightarrow> nat \<Rightarrow> client \<Rightarrow> bytes \<Rightarrow> nat \<Rightarrow> ptr \<Rightarrow> store \<Rightarrow> bool" where
  "agree e pm n c acc got d s \<longleftrightarrow> (\<exists>r d' tot s'. poll_mem e pm n c d got s = Some (fst (poll_loop e n c acc got), r, d', tot, s')
     \<and> ends_as (snd (poll_loop e n c acc got)) r d' tot s')"

lemma agreeI:
  "poll_loop e n c acc got = (c', res) \<Longrightarrow> poll_mem e pm n c d got s = Some (c', r, d', tot, s') \<Longrightarrow> ends_as res r d' tot s' \<Longrightarrow>
   agree e pm n c acc got d s"
  unfolding agree_def by auto

lemma poll_turn_taken:
  assumes st: "linked_state d acc got c s" and al: "allocator_ok e pm" and read: "read_allowed c"
    and c: "poll_meanwhile e n c0 = c" and s: "store_meanwhile pm n s0 = s"
  shows "agree e pm n c0 acc got d s0
    \<or> (\<exists>sz buf c' x s'. client_read (poll_now e n) c = (sz, buf, c') \<and> sz > 0 \<and> poll_alloc e n \<and> got + nat sz < DATA_THRESHOLD
        \<and> linked_state (Some x) (acc @ take (nat sz) (case data buf of None \<Rightarrow> [] | Some d \<Rightarrow> d)) (got + nat sz) c' s'
        \<and> poll_mem e pm n c0 d got s0 = poll_mem e pm (n + 1) c' (Some x) (got + nat sz) s')"
proof -
  note loop = poll_loop.simps [of e n c0 acc got] and mem = poll_mem.simps [of e pm n c0 d got s0] and env = c s
  have ok: "store_ok (data_buffer d acc) s" "data_holds d acc (snd s)" "read_queue c = values_in s" "got = length acc"
    using st by (simp_all add: linked_state_def)
  obtain a where a: "assign_addr pm n (snd s) = Some a" "snd s a = None"
    using allocator_at(1) [OF al store_ok_finite [OF ok(1)]] by blast
  obtain got' b q m where b: "store_consume (Some a) buffer_default s = Some (got', b, q, m)" "got' \<or> buf_siz b = 0"
    "client_read (poll_now e n) c = (buf_siz b, value_of m b, c\<lparr>last_access := poll_now e n, read_queue := values_in (q, m)\<rparr>)"
    "store_ok (b # data_buffer d acc) (q, m)" "\<forall>x \<in> set (data_buffer d acc). value_of m x = value_of (snd s) x"
    using store_consume_read [OF ok(1) a(2) ok(3) read, of "poll_now e n"] by auto
  let ?c = "c\<lparr>last_access := poll_now e n, read_queue := values_in (q, m)\<rparr>"
  have dh: "data_holds d acc m" using data_holds_keep [OF ok(2) b(5)] .
  have fin: "finite (dom (release d m))" using finite_release store_ok_finite [OF b(4)] by simp
  have cr: "store_ok [b] (q, release d m)" "free_data d m = Some (release d m)"
    using store_ok_release [OF store_ok_swap [OF b(4)]] by simp_all
  consider "buf_siz b = 0" | "buf_siz b > 0" "\<not> poll_alloc e n" | "buf_siz b > 0" "poll_alloc e n"
    using store_ok_siz [OF b(4)] by linarith
  then show ?thesis
  proof cases
    case 1
    obtain m2 where m2: "buffer_destroy b m = Some m2" "store_ok (data_buffer d acc) (q, m2)"
      "\<forall>x \<in> set (data_buffer d acc). value_of m2 x = value_of m x"
      using store_destroy [OF b(4)] by auto
    have "poll_loop e n c0 acc got = (?c, PollData acc)" using b(3) 1 by (simp add: loop env)
    moreover have "poll_mem e pm n c0 d got s0 = Some (?c, MemData, d, got, q, m2)"
      using read a(1) b(1) 1 m2(1) by (simp add: mem env Let_def)
    ultimately have "agree e pm n c0 acc got d s0"
      using m2(2) data_holds_keep [OF dh m2(3)] ok(4) by (intro agreeI) (auto simp: ends_as_def)
    then show ?thesis ..
  next
    case 2
    obtain m2 where m2: "buffer_destroy b (release d m) = Some m2" "store_ok [] (q, m2)"
      using store_destroy [OF cr(1)] by auto
    have "poll_loop e n c0 acc got = (?c, PollNoMemory)" using b(3) 2 by (simp add: loop env)
    moreover have "poll_mem e pm n c0 d got s0 = Some (?c, MemNoMemory, None, got, q, m2)"
      using read a(1) b(1,2) 2 m2(1) cr(2) allocator_at(2) [OF al fin, of n] by (auto simp: mem env Let_def)
    ultimately have "agree e pm n c0 acc got d s0" using m2(2) by (intro agreeI) (auto simp: ends_as_def)
    then show ?thesis ..
  next
    case 3
    obtain x where x: "data_addr pm n (release d m) = Some x" "release d m x = None"
      using allocator_at(2) [OF al fin, of n] 3(2) by auto
    obtain m1 m2 new where t: "data_append x d got b m = Some (Some x, m1)" "buffer_destroy b m1 = Some m2"
      "data (value_of m b) = Some new" "nat (buf_siz b) = length new"
      "store_ok (data_buffer (Some x) (acc @ new)) (q, m2)" "data_holds (Some x) (acc @ new) m2"
      "values_in (q, m2) = values_in (q, m)"
      using store_append [OF b(4), of x] dh 3(1) x(2) ok(4) by auto
    let ?got = "got + nat (buf_siz b)"
    have mem3: "poll_mem e pm n c0 d got s0 = (if ?got < DATA_THRESHOLD then poll_mem e pm (n + 1) ?c (Some x) ?got (q, m2)
        else Some (?c, MemData, Some x, ?got, q, m2))"
      using read a(1) b(1,2) 3 x(1) t(1,2) by (auto simp: mem env Let_def)
    have new: "acc @ new = acc @ take (nat (buf_siz b)) (case data (value_of m b) of None \<Rightarrow> [] | Some d \<Rightarrow> d)" using t(3,4) by simp
    show ?thesis
    proof (cases "?got < DATA_THRESHOLD")
      case True
      have "linked_state (Some x) (acc @ new) ?got ?c (q, m2)" using t ok(4) by (simp add: linked_state_def)
      then show ?thesis using True b(3) 3 mem3 unfolding new by auto
    next
      case False
      have "poll_loop e n c0 acc got = (?c, PollData (acc @ new))" using b(3) 3 False t(3,4) by (simp add: loop env Let_def)
      then have "agree e pm n c0 acc got d s0"
        using mem3 False t(4-6) ok(4) by (intro agreeI) (auto simp: ends_as_def)
      then show ?thesis ..
    qed
  qed
qed

lemma poll_mem_run:
  "meanwhile_ok e pm \<Longrightarrow> allocator_ok e pm \<Longrightarrow> linked_state d acc got c s \<Longrightarrow> agree e pm n c acc got d s"
proof (induction e n c acc got arbitrary: d s rule: poll_loop.induct)
  case (1 e n c acc got)
  let ?c = "poll_meanwhile e n c" and ?s = "store_meanwhile pm n s"
  have "store_ok (data_buffer d acc) s" "read_queue c = values_in s" using "1.prems"(3) by (simp_all add: linked_state_def)
  then have mw: "store_ok (data_buffer d acc) ?s" "read_queue ?c = values_in ?s"
    "\<forall>b \<in> set (data_buffer d acc). value_of (snd ?s) b = value_of (snd s) b"
    using "1.prems"(1) unfolding meanwhile_ok_def by blast+
  then have st: "linked_state d acc got ?c ?s" using "1.prems"(3) data_holds_keep [OF _ mw(3)] by (simp add: linked_state_def)
  show ?case
  proof (cases "read_allowed ?c")
    case False
    have "poll_loop e n c acc got = (?c, PollGone)" using False by (simp add: poll_loop.simps [of e n c] client_read_def)
    moreover have "poll_mem e pm n c d got s = Some (?c, MemGone, d, got, ?s)" using False by (simp add: poll_mem.simps [of e pm n c] Let_def)
    ultimately show ?thesis using st by (intro agreeI) (auto simp: ends_as_def linked_state_def)
  next
    case True
    show ?thesis
      using poll_turn_taken [OF st "1.prems"(2) True refl refl]
    proof (elim disjE exE conjE)
      fix sz buf c' x s'
      assume r: "client_read (poll_now e n) ?c = (sz, buf, c')" "sz > 0" "poll_alloc e n" "got + nat sz < DATA_THRESHOLD"
        and l: "linked_state (Some x) (acc @ take (nat sz) (case data buf of None \<Rightarrow> [] | Some d \<Rightarrow> d)) (got + nat sz) c' s'"
        and m: "poll_mem e pm n c d got s = poll_mem e pm (n + 1) c' (Some x) (got + nat sz) s'"
      have "agree e pm (n + 1) c' (acc @ take (nat sz) (case data buf of None \<Rightarrow> [] | Some d \<Rightarrow> d)) (got + nat sz) (Some x) s'"
        using "1.IH" [OF r(1) [symmetric] refl _ r(2) _ refl refl r(4) "1.prems"(1,2) l] r(2,3) by simp
      then show ?thesis using r m by (simp add: agree_def poll_loop.simps [of e n c acc got])
    qed
  qed
qed

section \<open>Properties\<close>

text \<open>
  C21. The memory of a poll. The loop of \<open>onPoll\<close> on the buffers in memory takes the same bytes, leaves the
  client the same and ends in the same way as \<open>poll_loop\<close>; it never follows a null or dangling pointer,
  copies beyond a block or frees twice, whatever free addresses the allocator answers, also when it has
  no memory for \<open>data\<close>; and when the handler is done the memory consists of the blocks of the queued
  buffers again, except when \<open>read\<close> fails after it succeeded: then the block \<open>data\<close> stays allocated.
\<close>

theorem poll_memory:
  assumes "store_ok [] s" "read_queue c = values_in s" "allocator_ok e pm" "meanwhile_ok e pm"
  shows "\<exists>d s'. poll_in_memory e pm c s = Some (fst (poll_loop e 0 c [] 0), snd (poll_loop e 0 c [] 0), d, s')
    \<and> (if snd (poll_loop e 0 c [] 0) = PollGone then \<exists>acc. store_ok (data_buffer d acc) s' \<and> data_holds d acc (snd s')
       else d = None \<and> store_ok [] s')"
proof -
  have "linked_state None [] 0 c s" using assms(1,2) by (simp add: linked_state_def data_buffer_def data_holds_def)
  from poll_mem_run [OF assms(4,3) this] obtain r d tot s' where
    run: "poll_mem e pm 0 c None 0 s = Some (fst (poll_loop e 0 c [] 0), r, d, tot, s')" and
    r: "ends_as (snd (poll_loop e 0 c [] 0)) r d tot s'" unfolding agree_def by blast
  show ?thesis
  proof (cases r)
    case MemData
    then obtain acc where acc: "snd (poll_loop e 0 c [] 0) = PollData acc" "tot = length acc"
      "store_ok (data_buffer d acc) s'" "data_holds d acc (snd s')" using r by (auto simp: ends_as_def)
    have "store_ok [] (fst s', release d (snd s'))" "free_data d (snd s') = Some (release d (snd s'))"
      using store_ok_release [of d acc "[]" s'] acc(3) by simp_all
    then show ?thesis using run MemData acc
      by (cases d) (auto simp: poll_in_memory_def data_holds_def data_buffer_def)
  qed (use run r in \<open>auto simp: poll_in_memory_def ends_as_def\<close>)
qed

text \<open>One byte is taken, then the connection is lost: the block at 200 stays allocated.\<close>

partial_function (option) example_alloc :: "nat \<Rightarrow> memory \<Rightarrow> nat option" where
  "example_alloc a m = (if m a = None then Some a else example_alloc (Suc a) m)"

declare example_alloc.simps [code]

definition lossy_env :: poll_env where
  "lossy_env = \<lparr>poll_now = (\<lambda>_. 0), poll_alloc = (\<lambda>_. True),
     poll_meanwhile = (\<lambda>n c. if n = 0 then c else c\<lparr>state := DISCONNECTING\<rparr>), poll_world = (\<lambda>w. w)\<rparr>"

definition example_memory :: poll_memory where
  "example_memory = \<lparr>assign_addr = (\<lambda>_. example_alloc 100), data_addr = (\<lambda>_. example_alloc 200), store_meanwhile = (\<lambda>_ s. s)\<rparr>"

lemma example_alloc_fresh: "finite (dom m) \<Longrightarrow> \<exists>b. example_alloc a m = Some b \<and> m b = None"
proof (induction "card (dom m \<inter> {a..})" arbitrary: a rule: less_induct)
  case less
  show ?case
  proof (cases "m a")
    case None
    then show ?thesis by (simp add: example_alloc.simps)
  next
    case (Some x)
    then have "a \<in> dom m" by (rule domI)
    then have "a \<in> dom m \<inter> {a..}" "a \<notin> dom m \<inter> {Suc a..}" by simp_all
    moreover have "dom m \<inter> {Suc a..} \<subseteq> dom m \<inter> {a..}" by auto
    ultimately have "dom m \<inter> {Suc a..} \<subset> dom m \<inter> {a..}" by blast
    then have "card (dom m \<inter> {Suc a..}) < card (dom m \<inter> {a..})" using less.prems by (simp add: psubset_card_mono)
    from less.hyps [OF this less.prems] show ?thesis using Some by (simp add: example_alloc.simps [of a])
  qed
qed

lemma example_memory_ok: "allocator_ok lossy_env example_memory" "meanwhile_ok lossy_env example_memory"
proof -
  show "allocator_ok lossy_env example_memory"
    unfolding allocator_ok_def
  proof (intro allI impI)
    fix n m assume "finite (dom (m :: memory))"
    from example_alloc_fresh [OF this, of 100] example_alloc_fresh [OF this, of 200]
    show "(case assign_addr example_memory n m of None \<Rightarrow> False | Some a \<Rightarrow> m a = None)
        \<and> (case data_addr example_memory n m of None \<Rightarrow> \<not> poll_alloc lossy_env n | Some a \<Rightarrow> poll_alloc lossy_env n \<and> m a = None)"
      by (auto simp: example_memory_def lossy_env_def)
  qed
  show "meanwhile_ok lossy_env example_memory"
    by (simp add: meanwhile_ok_def example_memory_def lossy_env_def)
qed

definition example_poller :: client where
  "example_poller = open_client\<lparr>read_queue := [\<lparr>data = Some [9], siz = 1\<rparr>]\<rparr>"

lemma lossy_run:
  "case poll_in_memory lossy_env example_memory example_poller one_byte of
     None \<Rightarrow> False | Some (c, r, d, s) \<Rightarrow> r = PollGone \<and> d = Some 200 \<and> snd s 200 = Some [9]"
  by code_simp

theorem poll_memory_witness:
  "\<exists>acc s'. poll_in_memory lossy_env example_memory example_poller one_byte
      = Some (fst (poll_loop lossy_env 0 example_poller [] 0), PollGone, Some 200, s')
    \<and> store_ok (data_buffer (Some 200) acc) s'"
proof -
  have q: "read_queue example_poller = values_in one_byte" by (simp add: example_poller_def one_byte_ok(2))
  from poll_memory [OF one_byte_ok(1) q example_memory_ok] lossy_run show ?thesis
    by (auto split: if_splits)
qed

end
