(* ===== verification/Step_Systems.thy ===== *)
theory Step_Systems
  imports Main
begin

text \<open>
  Transition systems given by a partial step function: the states reached by steps that satisfy a
  condition on the state and the event, the runs of a list of events, and the interface of an invariant.
\<close>

inductive reaches :: "('s \<Rightarrow> 'e \<Rightarrow> bool) \<Rightarrow> ('s \<Rightarrow> 'e \<Rightarrow> 's option) \<Rightarrow> 's \<Rightarrow> 's \<Rightarrow> bool"
  for allowed :: "'s \<Rightarrow> 'e \<Rightarrow> bool" and next_of :: "'s \<Rightarrow> 'e \<Rightarrow> 's option" and init :: 's where
  reaches_init: "reaches allowed next_of init init"
| reaches_step: "reaches allowed next_of init s \<Longrightarrow> allowed s e \<Longrightarrow> next_of s e = Some s' \<Longrightarrow>
    reaches allowed next_of init s'"

fun run_events :: "('s \<Rightarrow> 'e \<Rightarrow> 's option) \<Rightarrow> 'e list \<Rightarrow> 's \<Rightarrow> 's option" where
  "run_events next_of [] s = Some s"
| "run_events next_of (e # es) s = (case next_of s e of None \<Rightarrow> None | Some s' \<Rightarrow> run_events next_of es s')"

lemma run_events_reaches:
  "run_events next_of es s = Some s' \<Longrightarrow> reaches (\<lambda>_ _. True) next_of init s \<Longrightarrow> reaches (\<lambda>_ _. True) next_of init s'"
  by (induction es arbitrary: s) (auto split: option.splits intro: reaches_step)

text \<open>The runs all of whose steps are allowed.\<close>

fun run_allowed :: "('s \<Rightarrow> 'e \<Rightarrow> bool) \<Rightarrow> ('s \<Rightarrow> 'e \<Rightarrow> 's option) \<Rightarrow> 'e list \<Rightarrow> 's \<Rightarrow> 's option" where
  "run_allowed allowed next_of [] s = Some s"
| "run_allowed allowed next_of (e # es) s =
     (if allowed s e then (case next_of s e of None \<Rightarrow> None | Some s' \<Rightarrow> run_allowed allowed next_of es s') else None)"

lemma run_allowed_reaches:
  "run_allowed allowed next_of es s = Some s' \<Longrightarrow> reaches allowed next_of init s \<Longrightarrow> reaches allowed next_of init s'"
  by (induction es arbitrary: s) (auto split: option.splits if_splits intro: reaches_step)

lemma run_events_append:
  "run_events next_of (es @ fs) s = Option.bind (run_events next_of es s) (run_events next_of fs)"
  by (induction es arbitrary: s) (auto split: option.split)

lemma reaches_mono:
  assumes "reaches allowed next_of init s" "\<And>s e. allowed s e \<Longrightarrow> allowed' s e"
  shows "reaches allowed' next_of init s"
  using assms by (induction rule: reaches.induct) (auto intro: reaches.intros)

locale step_invariant =
  fixes allowed :: "'s \<Rightarrow> 'e \<Rightarrow> bool" and next_of :: "'s \<Rightarrow> 'e \<Rightarrow> 's option" and init :: 's
    and invar :: "'s \<Rightarrow> bool"
  assumes invar_init: "invar init"
    and invar_step: "invar s \<Longrightarrow> allowed s e \<Longrightarrow> next_of s e = Some s' \<Longrightarrow> invar s'"
begin

lemma reaches_invar: "reaches allowed next_of init s \<Longrightarrow> invar s"
  by (induction rule: reaches.induct) (auto intro: invar_init invar_step)

end

text \<open>Two invariants hold together, and the second may use the first.\<close>

locale invariant_pair = step_invariant +
  fixes invar2 :: "'a \<Rightarrow> bool"
  assumes invar2_init: "invar2 init"
    and invar2_step: "invar s \<Longrightarrow> invar2 s \<Longrightarrow> allowed s e \<Longrightarrow> next_of s e = Some s' \<Longrightarrow> invar2 s'"
begin

lemma reaches_both: "reaches allowed next_of init s \<Longrightarrow> invar s \<and> invar2 s"
  by (induction rule: reaches.induct) (auto intro: invar_init invar_step invar2_init invar2_step)

end

end
