(* ===== verification/System.thy ===== *)
theory System
  imports Server_Poll Queue_Threads Step_Systems
begin

text \<open>
  The two threads together. The main thread runs the handlers of \<open>Server\<close>, the loop thread the
  callbacks of \<open>Loop\<close>; a step of either is one section of the code under a mutex, or one access to a
  shared queue, and the steps interleave in any order. What libuv may call back is part of the state: the
  connection requests in flight, the handles being closed, the handles being read. A step of the loop
  thread can fail in two ways, by using a client that was deleted or by closing a handle twice (which
  libuv answers by aborting the program); both are results of a step, so that they can be excluded or
  exhibited. Pointers are identities of clients and never reused, so that a pointer to a deleted client
  stays recognisable as one.
\<close>

section \<open>The steps\<close>

text \<open>
  Where the main thread is: accepting requests; or inside a handler, holding the mutex of the table and
  (but for \<open>MUnlock\<close>) a pointer to a client: about to call \<open>connect\<close>, in its wait, about to call
  \<open>disconnect\<close>, past the test of \<open>disconnect\<close>, about to test whether the origin and the message of a
  \<open>POST\<close> are accepted, past that test and the test of \<open>write\<close>, past the enqueueing, in the loop of
  \<open>onPoll\<close> with so many bytes read, or about to release the mutex.
\<close>

datatype main_pc =
    MIdle | MConnect nat string int | MWait nat | MDisconnect nat | MPostDisconnect nat
  | MWrite nat string string | MWritePut nat string | MPostWrite nat | MRead nat nat | MUnlock

text \<open>The loop thread is between callbacks, or waits for the mutex of the table in one.\<close>

datatype loop_pc = LIdle | LClose nat | LTimer

record system =
  wld :: world
  mpc :: main_pc
  lpc :: loop_pc
  connecting :: "nat list"
  closing :: "nat list"
  reading :: "nat list"
  allocated :: "nat list"

datatype 's result = Blocked | Freed | ClosedTwice | Step 's

datatype event =
    Connect "nat option" int int string "string list" int string int
  | ConnectBegin | Wake bool | Disconnect string | DisconnectBegin | PostDisconnect
  | Post string string string | WriteTest matcher | WritePut | PostWrite | Poll string | Read int bool | Unlock
  | Async request_io | ConnectCallback int int nat | CloseStart nat | CloseEnd
  | ReadCallback bool bytes int nat | TimerStart | TimerEnd int

definition start_system :: "nat \<Rightarrow> system" where
  "start_system n = \<lparr>wld = storage_new n, mpc = MIdle, lpc = LIdle, connecting = [], closing = [], reading = [], allocated = []\<rparr>"

text \<open>A handler starts by taking the mutex of the table and looking its session up.\<close>

definition enter :: "string \<Rightarrow> (nat \<Rightarrow> main_pc) \<Rightarrow> system \<Rightarrow> system result" where
  "enter cid pc s =
     (if mpc s \<noteq> MIdle then Blocked
      else case lock_storage MainThread (wld s) of
        None \<Rightarrow> Blocked
      | Some w \<Rightarrow> Step (s\<lparr>wld := w, mpc := (case storage_get cid w of None \<Rightarrow> MUnlock | Some p \<Rightarrow> pc p)\<rparr>))"

text \<open>A section of a member function on a client, and what happens next.\<close>

definition member :: "nat \<Rightarrow> (client \<Rightarrow> client \<times> 'r) \<Rightarrow> ('r \<Rightarrow> world \<Rightarrow> system result) \<Rightarrow> system \<Rightarrow> system result" where
  "member p f next s =
     (case on_client p f (wld s) of None \<Rightarrow> Freed | Some (r, w) \<Rightarrow> next r w)"

text \<open>The effects of a callback on libuv. Closing a handle that is being closed aborts.\<close>

fun effect_step :: "nat \<Rightarrow> effect \<Rightarrow> system \<Rightarrow> system result" where
  "effect_step p (UvConnect h pt) s = Step (s\<lparr>connecting := p # connecting s\<rparr>)"
| "effect_step p UvReadStart s = Step (s\<lparr>reading := p # reading s\<rparr>)"
| "effect_step p UvClose s =
     (if p \<in> set (closing s) then ClosedTwice
      else Step (s\<lparr>closing := p # closing s, reading := removeAll p (reading s)\<rparr>))"
| "effect_step p Signal s = Step s"
| "effect_step p NewReq s = Step s"
| "effect_step p FreeReq s = Step s"

fun effect_steps :: "(nat \<times> effect) list \<Rightarrow> system \<Rightarrow> system result" where
  "effect_steps [] s = Step s"
| "effect_steps ((p, e) # es) s =
     (case effect_step p e s of Step s' \<Rightarrow> effect_steps es s' | Blocked \<Rightarrow> Blocked
      | Freed \<Rightarrow> Freed | ClosedTwice \<Rightarrow> ClosedTwice)"

definition effects_of :: "(nat \<times> action) list \<Rightarrow> (nat \<times> effect) list" where
  "effects_of as = concat (map (\<lambda>(p, a). case a of Effect e \<Rightarrow> [(p, e)] | Send _ \<Rightarrow> []) as)"

fun is_connect :: "effect \<Rightarrow> bool" where
  "is_connect (UvConnect h pt) = True"
| "is_connect e = False"

text \<open>\<open>uv_tcp_connect\<close> that fails leaves no request behind: only the last effect counts.\<close>

definition submitted :: "(nat \<times> effect) list \<Rightarrow> (nat \<times> effect) list" where
  "submitted es = (if FreeReq \<in> snd ` set es then filter (\<lambda>(p, e). \<not> is_connect e) es else es)"

text \<open>
  The steps of the main thread. \<open>WriteTest\<close> is the rest of \<open>onPost\<close> up to the end of the section of
  \<open>write\<close> under the mutex of the client (the allowed origins of a client never change); \<open>Read\<close> is one
  turn of the loop of \<open>onPoll\<close>, with the answers of the clock and of the allocator.
\<close>

fun main_step :: "event \<Rightarrow> system \<Rightarrow> system result" where
  "main_step (Connect addr port0 access0 cid origins tmo h pt) s =
     (if mpc s \<noteq> MIdle then Blocked
      else case lock_storage MainThread (wld s) of
        None \<Rightarrow> Blocked
      | Some w \<Rightarrow>
          (case storage_create addr port0 access0 cid origins tmo w of
             (None, w') \<Rightarrow> Step (s\<lparr>wld := w', mpc := MUnlock\<rparr>)
           | (Some p, w') \<Rightarrow>
               if p \<in> set (allocated s) then Blocked
               else Step (s\<lparr>wld := w', mpc := MConnect p h pt, allocated := p # allocated s\<rparr>)))"
| "main_step ConnectBegin s =
     (case mpc s of
        MConnect p h pt \<Rightarrow> member p (connect_begin h pt) (\<lambda>r w.
          case r of Return b \<Rightarrow> Step (s\<lparr>wld := w, mpc := MUnlock\<rparr>)
          | _ \<Rightarrow> Step (s\<lparr>wld := loop_execute CONNECT p w, mpc := MWait p\<rparr>)) s
      | _ \<Rightarrow> Blocked)"
| "main_step (Wake err) s =
     (case mpc s of
        MWait p \<Rightarrow> member p (connect_wake err) (\<lambda>r w.
          case r of Return b \<Rightarrow> Step (s\<lparr>wld := w, mpc := MUnlock\<rparr>)
          | Wait \<Rightarrow> Step (s\<lparr>wld := w\<rparr>)
          | GiveUp \<Rightarrow> Step (s\<lparr>wld := w, mpc := MDisconnect p\<rparr>)) s
      | _ \<Rightarrow> Blocked)"
| "main_step (Disconnect cid) s = enter cid MDisconnect s"
| "main_step DisconnectBegin s =
     (case mpc s of
        MDisconnect p \<Rightarrow> member p disconnect_begin (\<lambda>post w.
          Step (s\<lparr>wld := w, mpc := (if post then MPostDisconnect p else MUnlock)\<rparr>)) s
      | _ \<Rightarrow> Blocked)"
| "main_step PostDisconnect s =
     (case mpc s of
        MPostDisconnect p \<Rightarrow> Step (s\<lparr>wld := loop_execute DISCONNECT p (wld s), mpc := MUnlock\<rparr>)
      | _ \<Rightarrow> Blocked)"
| "main_step (Post cid orig d) s = enter cid (\<lambda>p. MWrite p orig d) s"
| "main_step (WriteTest match_of) s =
     (case mpc s of
        MWrite p orig d \<Rightarrow> member p (\<lambda>c. (c, isAllowOrigin match_of orig (allow_origins c) \<and> d \<noteq> [] \<and> write_allowed c)) (\<lambda>b w.
          Step (s\<lparr>wld := w, mpc := (if b then MWritePut p d else MUnlock)\<rparr>)) s
      | _ \<Rightarrow> Blocked)"
| "main_step WritePut s =
     (case mpc s of
        MWritePut p d \<Rightarrow> member p (\<lambda>c. (write_put d c, ())) (\<lambda>_ w. Step (s\<lparr>wld := w, mpc := MPostWrite p\<rparr>)) s
      | _ \<Rightarrow> Blocked)"
| "main_step PostWrite s =
     (case mpc s of
        MPostWrite p \<Rightarrow> Step (s\<lparr>wld := loop_execute WRITE p (wld s), mpc := MUnlock\<rparr>)
      | _ \<Rightarrow> Blocked)"
| "main_step (Poll cid) s = enter cid (\<lambda>p. MRead p 0) s"
| "main_step (Read now alloc_ok) s =
     (case mpc s of
        MRead p got \<Rightarrow> member p (\<lambda>c. case client_read now c of (n, b, c') \<Rightarrow> (c', n)) (\<lambda>n w.
          Step (s\<lparr>wld := w, mpc := (if n > 0 \<and> alloc_ok \<and> got + nat n < DATA_THRESHOLD then MRead p (got + nat n) else MUnlock)\<rparr>)) s
      | _ \<Rightarrow> Blocked)"
| "main_step Unlock s =
     (case mpc s of
        MUnlock \<Rightarrow>
          (case unlock_storage MainThread (wld s) of None \<Rightarrow> Blocked | Some w \<Rightarrow> Step (s\<lparr>wld := w, mpc := MIdle\<rparr>))
      | _ \<Rightarrow> Blocked)"
| "main_step _ s = Blocked"

text \<open>
  A callback runs when the loop thread is between callbacks and libuv owes it: a connection callback for
  a request in flight, a close callback for a handle that is being closed and has no request in flight,
  a read callback for a handle that is being read. \<open>base64\<close> decoding is an argument.
\<close>

fun loop_step :: "(string \<Rightarrow> bytes option) \<Rightarrow> event \<Rightarrow> system \<Rightarrow> system result" where
  "loop_step b64 (Async io) s =
     (if lpc s \<noteq> LIdle then Blocked
      else case list_get (requests (wld s)) of
        (None, _) \<Rightarrow> Blocked
      | (Some r, q) \<Rightarrow>
          (case handle_request b64 io r (wld s\<lparr>requests := q\<rparr>) of
             None \<Rightarrow> Freed
           | Some (as, w) \<Rightarrow> effect_steps (submitted (effects_of as)) (s\<lparr>wld := w\<rparr>)))"
| "loop_step b64 (ConnectCallback now status p) s =
     (if lpc s \<noteq> LIdle \<or> p \<notin> set (connecting s) then Blocked
      else case loop_on_connect now status p (wld s) of
        None \<Rightarrow> Freed
      | Some (as, w) \<Rightarrow> effect_steps (effects_of as) (s\<lparr>wld := w, connecting := remove1 p (connecting s)\<rparr>))"
| "loop_step b64 (CloseStart p) s =
     (if lpc s \<noteq> LIdle \<or> p \<notin> set (closing s) \<or> p \<in> set (connecting s) then Blocked
      else if clients (wld s) p = None then Freed
      else Step (s\<lparr>lpc := LClose p\<rparr>))"
| "loop_step b64 CloseEnd s =
     (case lpc s of
        LClose p \<Rightarrow>
          (if storage_lock (wld s) \<noteq> None then Blocked
           else case loop_on_disconnect p (wld s) of
             None \<Rightarrow> Freed
           | Some w \<Rightarrow> Step (s\<lparr>wld := w, lpc := LIdle, closing := removeAll p (closing s)\<rparr>))
      | _ \<Rightarrow> Blocked)"
| "loop_step b64 (ReadCallback alloc_ok d n p) s =
     (if lpc s \<noteq> LIdle \<or> p \<notin> set (reading s) then Blocked
      else case loop_on_read alloc_ok d n p (wld s) of
        None \<Rightarrow> Freed
      | Some (as, w) \<Rightarrow> effect_steps (effects_of as) (s\<lparr>wld := w\<rparr>))"
| "loop_step b64 TimerStart s = (if lpc s \<noteq> LIdle then Blocked else Step (s\<lparr>lpc := LTimer\<rparr>))"
| "loop_step b64 (TimerEnd now) s =
     (case lpc s of
        LTimer \<Rightarrow>
          (if storage_lock (wld s) \<noteq> None then Blocked
           else case loop_on_timer now (wld s) of
             None \<Rightarrow> Freed
           | Some (as, w) \<Rightarrow> effect_steps (effects_of as) (s\<lparr>wld := w, lpc := LIdle\<rparr>))
      | _ \<Rightarrow> Blocked)"
| "loop_step b64 _ s = Blocked"

definition of_main :: "event \<Rightarrow> bool" where
  "of_main e \<longleftrightarrow> (case e of Async _ \<Rightarrow> False | ConnectCallback _ _ _ \<Rightarrow> False | CloseStart _ \<Rightarrow> False | CloseEnd \<Rightarrow> False
     | ReadCallback _ _ _ _ \<Rightarrow> False | TimerStart \<Rightarrow> False | TimerEnd _ \<Rightarrow> False | _ \<Rightarrow> True)"

definition sys_step :: "(string \<Rightarrow> bytes option) \<Rightarrow> event \<Rightarrow> system \<Rightarrow> system result" where
  "sys_step b64 e s = (if of_main e then main_step e s else loop_step b64 e s)"

definition sys_next :: "(string \<Rightarrow> bytes option) \<Rightarrow> system \<Rightarrow> event \<Rightarrow> system option" where
  "sys_next b64 s e = (case sys_step b64 e s of Step s' \<Rightarrow> Some s' | _ \<Rightarrow> None)"

abbreviation sys_reachable :: "(string \<Rightarrow> bytes option) \<Rightarrow> nat \<Rightarrow> system \<Rightarrow> bool" where
  "sys_reachable b64 n \<equiv> reaches (\<lambda>_ _. True) (sys_next b64) (start_system n)"

lemma sys_next_Some: "sys_next b64 s e = Some s' \<longleftrightarrow> sys_step b64 e s = Step s'"
  by (simp add: sys_next_def split: result.split)

end
