(* ===== verification/System_Safety.thy ===== *)
theory System_Safety
  imports System
begin

text \<open>
  Invariants of the two threads. What matters about one client is a predicate on the client and on its
  view, the parts of the state that mention it; a step that touches one client keeps the views of all
  others, so every step needs one local argument. From the invariant follow: the main thread never uses a
  deleted client, no client is connecting outside \<open>connect\<close>, the table stays consistent and within
  its capacity, no message is stranded, and the only pointers that can dangle are those in the request
  queue.
\<close>

section \<open>Views\<close>

fun pc_client :: "main_pc \<Rightarrow> nat option" where
  "pc_client MIdle = None"
| "pc_client (MConnect p h pt) = Some p"
| "pc_client (MWait p) = Some p"
| "pc_client (MDisconnect p) = Some p"
| "pc_client (MPostDisconnect p) = Some p"
| "pc_client (MWrite p orig d) = Some p"
| "pc_client (MWritePut p d) = Some p"
| "pc_client (MPostWrite p) = Some p"
| "pc_client (MRead p got) = Some p"
| "pc_client MUnlock = None"

definition pc_at :: "main_pc \<Rightarrow> nat \<Rightarrow> main_pc" where
  "pc_at m p = (if pc_client m = Some p then m else MIdle)"

lemma pc_at_simps [simp]:
  "pc_at MIdle p = MIdle" "pc_at MUnlock p = MIdle"
  "pc_client m = Some p \<Longrightarrow> pc_at m p = m" "pc_client m = None \<Longrightarrow> pc_at m p = MIdle"
  "pc_client m = Some q \<Longrightarrow> q \<noteq> p \<Longrightarrow> pc_at m p = MIdle"
  by (simp_all add: pc_at_def)

record view =
  v_pc :: main_pc
  v_closing :: bool
  v_connecting :: bool
  v_reading :: bool
  v_reqs :: "request_type list"
  v_alloc :: bool
  v_close :: bool

definition reqs_of :: "nat \<Rightarrow> (request_type \<times> nat) list \<Rightarrow> request_type list" where
  "reqs_of p rs = map fst (filter (\<lambda>r. snd r = p) rs)"

definition view :: "system \<Rightarrow> nat \<Rightarrow> view" where
  "view s p = \<lparr>v_pc = pc_at (mpc s) p,
     v_closing = (p \<in> set (closing s)), v_connecting = (p \<in> set (connecting s)), v_reading = (p \<in> set (reading s)),
     v_reqs = reqs_of p (requests (wld s)), v_alloc = (p \<in> set (allocated s)), v_close = (lpc s = LClose p)\<rparr>"

lemma reqs_of_simps [simp]:
  "reqs_of p [] = []" "reqs_of p ((t, q) # rs) = (if q = p then t # reqs_of p rs else reqs_of p rs)"
  "reqs_of p (rs @ rs') = reqs_of p rs @ reqs_of p rs'"
  by (simp_all add: reqs_of_def)

definition ending :: "client \<Rightarrow> bool" where
  "ending c \<longleftrightarrow> state c = DISCONNECTING \<or> state c = FAIL_CONNECT"

text \<open>The invariant of one client, or of a pointer that has none.\<close>

definition dead_ok :: "view \<Rightarrow> bool" where
  "dead_ok v \<longleftrightarrow> v_pc v = MIdle \<and> \<not> v_closing v \<and> \<not> v_connecting v \<and> \<not> v_reading v \<and> \<not> v_close v
     \<and> (\<not> v_alloc v \<longrightarrow> v_reqs v = [])"

definition live_ok :: "client \<Rightarrow> view \<Rightarrow> bool" where
  "live_ok c v \<longleftrightarrow> v_alloc v \<and> (v_close v \<longrightarrow> v_closing v \<and> \<not> v_connecting v)
     \<and> \<not> (v_closing v \<and> v_reading v)
     \<and> (v_closing v \<or> request_type.DISCONNECT \<in> set (v_reqs v) \<or> (\<exists>p. v_pc v = MPostDisconnect p) \<longrightarrow> ending c)
     \<and> (state c = CONNECTING \<longrightarrow> (\<exists>p. v_pc v = MWait p \<or> v_pc v = MDisconnect p))
     \<and> ((\<exists>p h pt. v_pc v = MConnect p h pt) \<longrightarrow>
          state c = DISCONNECTED \<and> v_reqs v = [] \<and> \<not> v_closing v \<and> \<not> v_connecting v \<and> \<not> v_reading v)
     \<and> length (write_queue c) \<le> length (filter (\<lambda>t. t = WRITE) (v_reqs v)) + (if \<exists>p. v_pc v = MPostWrite p then 1 else 0)"

definition local_ok :: "client option \<Rightarrow> view \<Rightarrow> bool" where
  "local_ok co v \<longleftrightarrow> (case co of None \<Rightarrow> dead_ok v | Some c \<Rightarrow> live_ok c v)"

definition lock_ok :: "system \<Rightarrow> bool" where
  "lock_ok s \<longleftrightarrow> storage_lock (wld s) = (if mpc s = MIdle then None else Some MainThread)"

definition sys_inv :: "system \<Rightarrow> bool" where
  "sys_inv s \<longleftrightarrow> storage_ok (wld s) \<and> lock_ok s \<and> (\<forall>p. local_ok (clients (wld s) p) (view s p))"

lemma local_ok_simps [simp]: "local_ok None v = dead_ok v" "local_ok (Some c) v = live_ok c v"
  by (simp_all add: local_ok_def)

text \<open>A step that touches one client.\<close>

lemma inv_one:
  assumes "sys_inv s" "storage_ok (wld s')" "lock_ok s'"
    and "\<And>q. q \<noteq> p \<Longrightarrow> clients (wld s') q = clients (wld s) q \<and> view s' q = view s q"
    and "local_ok (clients (wld s') p) (view s' p)"
  shows "sys_inv s'"
  unfolding sys_inv_def using assms by (metis sys_inv_def)

lemma inv_live: "sys_inv s \<Longrightarrow> clients (wld s) p = Some c \<Longrightarrow> live_ok c (view s p)"
  unfolding sys_inv_def by (metis local_ok_simps(2))

lemma inv_dead: "sys_inv s \<Longrightarrow> clients (wld s) p = None \<Longrightarrow> dead_ok (view s p)"
  unfolding sys_inv_def by (metis local_ok_simps(1))

lemma view_simps [simp]:
  "v_pc (view s p) = pc_at (mpc s) p"
  "v_closing (view s p) = (p \<in> set (closing s))" "v_connecting (view s p) = (p \<in> set (connecting s))"
  "v_reading (view s p) = (p \<in> set (reading s))" "v_reqs (view s p) = reqs_of p (requests (wld s))"
  "v_alloc (view s p) = (p \<in> set (allocated s))" "v_close (view s p) = (lpc s = LClose p)"
  by (simp_all add: view_def)

lemma pc_client_live:
  assumes "sys_inv s" "pc_client (mpc s) = Some p"
  shows "\<exists>c. clients (wld s) p = Some c \<and> live_ok c (view s p)"
proof (cases "clients (wld s) p")
  case None
  then have "v_pc (view s p) = MIdle" using inv_dead [OF assms(1)] by (simp only: dead_ok_def)
  then have "mpc s = MIdle" using assms(2) by simp
  then show ?thesis using assms(2) by simp
next
  case (Some c)
  then show ?thesis using inv_live [OF assms(1)] by blast
qed

abbreviation put_client :: "nat \<Rightarrow> client \<Rightarrow> world \<Rightarrow> world" where
  "put_client p c w \<equiv> w\<lparr>clients := (clients w)(p \<mapsto> c)\<rparr>"

lemma member_run:
  assumes "sys_inv s" "pc_client (mpc s) = Some p" "\<And>c. client_id (fst (f c)) = client_id c"
  shows "\<exists>c. clients (wld s) p = Some c \<and> live_ok c (view s p)
    \<and> (\<forall>k. member p f k s = k (snd (f c)) (put_client p (fst (f c)) (wld s)))
    \<and> storage_ok (put_client p (fst (f c)) (wld s))"
proof -
  obtain c where c: "clients (wld s) p = Some c" "live_ok c (view s p)" using pc_client_live [OF assms(1,2)] by blast
  have "storage_ok (put_client p (fst (f c)) (wld s))"
    using storage_ok_update [OF _ c(1) assms(3)] assms(1) by (simp add: sys_inv_def)
  then show ?thesis using c by (simp add: member_def on_client_Some)
qed

text \<open>What is asked of a step.\<close>

definition safe :: "system result \<Rightarrow> bool" where
  "safe r \<longleftrightarrow> (case r of Step s' \<Rightarrow> sys_inv s' | Blocked \<Rightarrow> True | Freed \<Rightarrow> False | ClosedTwice \<Rightarrow> False)"

lemma safe_simps [simp]: "safe (Step s') = sys_inv s'" "safe Blocked" "\<not> safe Freed" "\<not> safe ClosedTwice"
  by (simp_all add: safe_def)

section \<open>The main thread\<close>

lemma enter_safe:
  assumes "sys_inv s" "\<And>p. pc p = MDisconnect p \<or> pc p = MRead p 0 \<or> (\<exists>orig d. pc p = MWrite p orig d)"
  shows "safe (enter cid pc s)"
proof (cases "mpc s = MIdle")
  case True
  with assms(1) have l: "storage_lock (wld s) = None" by (simp add: sys_inv_def lock_ok_def)
  let ?w = "wld s\<lparr>storage_lock := Some MainThread\<rparr>"
  let ?pc = "case storage_get cid ?w of None \<Rightarrow> MUnlock | Some p \<Rightarrow> pc p"
  let ?s = "s\<lparr>wld := ?w, mpc := ?pc\<rparr>"
  have st: "enter cid pc s = Step ?s" using True l by (simp add: enter_def lock_storage_def)
  have ok: "storage_ok ?w" using assms(1) by (simp add: sys_inv_def frame_simps)
  have pc: "pc_client (pc p) = Some p \<and> pc p \<noteq> MIdle" for p using assms(2) [of p] by auto
  have "sys_inv ?s"
  proof (cases "storage_get cid ?w")
    case None
    then show ?thesis using assms(1) ok True
      by (auto simp: sys_inv_def lock_ok_def local_ok_def dead_ok_def live_ok_def view_def split: option.splits)
  next
    case (Some p)
    obtain c where c: "clients (wld s) p = Some c"
      using storage_ok_find [OF ok, of cid p] Some by (auto simp: storage_get_def)
    have "live_ok c (view s p)" using inv_live [OF assms(1) c] .
    then have "live_ok c (view ?s p)"
      using True assms(2) [of p] Some by (auto simp: live_ok_def)
    then show ?thesis
      using assms(1) ok True c Some pc by (intro inv_one [of s ?s p]) (auto simp: lock_ok_def view_def)
  qed
  then show ?thesis using st by simp
qed (simp add: enter_def)

text \<open>After a member function: the client is \<open>c'\<close>, possibly a request is posted, the handler goes on.\<close>

lemma after_member:
  assumes "sys_inv s" "pc_client (mpc s) = Some p" "storage_ok (put_client p c' (wld s))"
    "pc' \<noteq> MIdle" "pc_client pc' = None \<or> pc_client pc' = Some p"
  shows "live_ok c' (view (s\<lparr>wld := put_client p c' (wld s), mpc := pc'\<rparr>) p) \<Longrightarrow>
      sys_inv (s\<lparr>wld := put_client p c' (wld s), mpc := pc'\<rparr>)"
    and "live_ok c' (view (s\<lparr>wld := loop_execute t p (put_client p c' (wld s)), mpc := pc'\<rparr>) p) \<Longrightarrow>
      sys_inv (s\<lparr>wld := loop_execute t p (put_client p c' (wld s)), mpc := pc'\<rparr>)"
proof -
  have m: "mpc s \<noteq> MIdle" using assms(2) by auto
  then have l: "storage_lock (wld s) = Some MainThread" using assms(1) by (simp add: sys_inv_def lock_ok_def)
  have pc: "pc_client pc' \<noteq> Some q" "pc_client (mpc s) \<noteq> Some q" if "q \<noteq> p" for q using that assms(2,5) by auto
  show "sys_inv (s\<lparr>wld := put_client p c' (wld s), mpc := pc'\<rparr>)"
    if "live_ok c' (view (s\<lparr>wld := put_client p c' (wld s), mpc := pc'\<rparr>) p)"
    using assms m l that by (intro inv_one [OF assms(1), of _ p]) (auto simp: lock_ok_def view_def pc)
  show "sys_inv (s\<lparr>wld := loop_execute t p (put_client p c' (wld s)), mpc := pc'\<rparr>)"
    if "live_ok c' (view (s\<lparr>wld := loop_execute t p (put_client p c' (wld s)), mpc := pc'\<rparr>) p)"
    using assms m l that
    by (intro inv_one [OF assms(1), of _ p])
      (auto simp: lock_ok_def view_def pc loop_execute_def list_put_def frame_simps)
qed

lemma member_safe:
  assumes "sys_inv s" "pc_client (mpc s) = Some p" "\<And>c. client_id (fst (f c)) = client_id c"
    "\<And>c. live_ok c (view s p) \<Longrightarrow> storage_ok (put_client p (fst (f c)) (wld s)) \<Longrightarrow>
      safe (k (snd (f c)) (put_client p (fst (f c)) (wld s)))"
  shows "safe (member p f k s)"
  using member_run [where f = f, OF assms(1-3)] assms(4) by metis

lemma connect_begin_safe:
  assumes "sys_inv s"
  shows "safe (main_step ConnectBegin s)"
proof (cases "mpc s")
  case (MConnect p h pt)
  then have pc: "pc_client (mpc s) = Some p" by simp
  show ?thesis unfolding main_step.simps MConnect main_pc.case
  proof (rule member_safe [OF assms pc connect_begin_id])
    fix c assume c: "live_ok c (view s p)" and ok: "storage_ok (put_client p (fst (connect_begin h pt c)) (wld s))"
    have "state c = DISCONNECTED" using c MConnect by (simp add: live_ok_def)
    then have cb: "connect_begin h pt c = (c\<lparr>host := h, port := pt, state := CONNECTING\<rparr>, Wait)"
      by (simp add: connect_begin_def)
    show "safe (case snd (connect_begin h pt c) of
        Return b \<Rightarrow> Step (s\<lparr>wld := put_client p (fst (connect_begin h pt c)) (wld s), mpc := MUnlock\<rparr>)
      | _ \<Rightarrow> Step (s\<lparr>wld := loop_execute request_type.CONNECT p (put_client p (fst (connect_begin h pt c)) (wld s)), mpc := MWait p\<rparr>))"
      using c MConnect ok unfolding cb fst_conv snd_conv connect_next.case safe_simps
      by (intro after_member(2) [OF assms pc]) (auto simp: live_ok_def loop_execute_def list_put_def)
  qed
qed simp_all

lemma wake_safe:
  assumes "sys_inv s"
  shows "safe (main_step (Wake err) s)"
proof (cases "mpc s")
  case (MWait p)
  then have pc: "pc_client (mpc s) = Some p" by simp
  show ?thesis unfolding main_step.simps MWait main_pc.case
  proof (rule member_safe [OF assms pc connect_wake_id])
    fix c assume c: "live_ok c (view s p)" and ok: "storage_ok (put_client p (fst (connect_wake err c)) (wld s))"
    have same: "fst (connect_wake err c) = c" by (auto simp: connect_wake_def)
    let ?w = "put_client p c (wld s)"
    have r: "(\<exists>b. snd (connect_wake err c) = Return b) \<Longrightarrow> state c \<noteq> CONNECTING"
      by (auto simp: connect_wake_def split: if_splits)
    have m: "s\<lparr>wld := ?w\<rparr> = s\<lparr>wld := ?w, mpc := MWait p\<rparr>" using MWait by (cases s) simp
    show "safe (case snd (connect_wake err c) of
        Return b \<Rightarrow> Step (s\<lparr>wld := put_client p (fst (connect_wake err c)) (wld s), mpc := MUnlock\<rparr>)
      | Wait \<Rightarrow> Step (s\<lparr>wld := put_client p (fst (connect_wake err c)) (wld s)\<rparr>)
      | GiveUp \<Rightarrow> Step (s\<lparr>wld := put_client p (fst (connect_wake err c)) (wld s), mpc := MDisconnect p\<rparr>))"
    proof (cases "snd (connect_wake err c)")
      case (Return b)
      then show ?thesis using ok c r MWait unfolding same
        by (auto intro!: after_member(1) [OF assms pc] simp: live_ok_def)
    next
      case Wait
      have "sys_inv (s\<lparr>wld := ?w, mpc := MWait p\<rparr>)"
        using ok c MWait unfolding same by (intro after_member(1) [OF assms pc]) (auto simp: live_ok_def)
      then have "sys_inv (s\<lparr>wld := ?w\<rparr>)" by (subst m)
      then show ?thesis using Wait unfolding same by simp
    next
      case GiveUp
      then show ?thesis using ok c MWait unfolding same
        by (auto intro!: after_member(1) [OF assms pc] simp: live_ok_def)
    qed
  qed
qed simp_all

lemma disconnect_begin_safe:
  assumes "sys_inv s"
  shows "safe (main_step DisconnectBegin s)"
proof (cases "mpc s")
  case (MDisconnect p)
  then have pc: "pc_client (mpc s) = Some p" by simp
  show ?thesis unfolding main_step.simps MDisconnect main_pc.case
  proof (rule member_safe [OF assms pc disconnect_begin_id])
    fix c assume c: "live_ok c (view s p)" and ok: "storage_ok (put_client p (fst (disconnect_begin c)) (wld s))"
    let ?pc = "if snd (disconnect_begin c) then MPostDisconnect p else MUnlock"
    have "live_ok (fst (disconnect_begin c)) (view (s\<lparr>wld := put_client p (fst (disconnect_begin c)) (wld s), mpc := ?pc\<rparr>) p)"
      using c MDisconnect by (cases "state c") (auto simp: live_ok_def disconnect_begin_def ending_def)
    then show "safe (Step (s\<lparr>wld := put_client p (fst (disconnect_begin c)) (wld s), mpc := ?pc\<rparr>))"
      unfolding safe_simps by (intro after_member(1) [OF assms pc ok]) auto
  qed
qed simp_all

text \<open>Steps that only post a request, or only move on.\<close>

lemma post_safe:
  assumes "sys_inv s" "pc_client (mpc s) = Some p"
    "\<And>c. live_ok c (view s p) \<Longrightarrow> live_ok c (view (s\<lparr>wld := loop_execute t p (wld s), mpc := MUnlock\<rparr>) p)"
  shows "safe (Step (s\<lparr>wld := loop_execute t p (wld s), mpc := MUnlock\<rparr>))"
proof -
  let ?s = "s\<lparr>wld := loop_execute t p (wld s), mpc := MUnlock\<rparr>"
  obtain c where c: "clients (wld s) p = Some c" "live_ok c (view s p)" using pc_client_live [OF assms(1,2)] by blast
  have m: "mpc s \<noteq> MIdle" using assms(2) by auto
  then have l: "storage_lock (wld s) = Some MainThread" using assms(1) by (simp add: sys_inv_def lock_ok_def)
  have "sys_inv ?s"
    using assms(1) m l c assms(2) assms(3) [OF c(2)]
    by (intro inv_one [OF assms(1), of _ p]) (auto simp: lock_ok_def view_def loop_execute_def list_put_def frame_simps sys_inv_def)
  then show ?thesis by simp
qed

lemma post_disconnect_safe:
  assumes "sys_inv s"
  shows "safe (main_step PostDisconnect s)"
proof (cases "mpc s")
  case (MPostDisconnect p)
  have "safe (Step (s\<lparr>wld := loop_execute request_type.DISCONNECT p (wld s), mpc := MUnlock\<rparr>))"
    by (rule post_safe [OF assms]) (simp_all add: MPostDisconnect live_ok_def loop_execute_def list_put_def)
  then show ?thesis by (simp add: MPostDisconnect)
qed simp_all

lemma post_write_safe:
  assumes "sys_inv s"
  shows "safe (main_step PostWrite s)"
proof (cases "mpc s")
  case (MPostWrite p)
  have "safe (Step (s\<lparr>wld := loop_execute WRITE p (wld s), mpc := MUnlock\<rparr>))"
    by (rule post_safe [OF assms]) (simp_all add: MPostWrite live_ok_def loop_execute_def list_put_def)
  then show ?thesis by (simp add: MPostWrite)
qed simp_all

lemma write_test_safe:
  assumes "sys_inv s"
  shows "safe (main_step (WriteTest match_of) s)"
proof (cases "mpc s")
  case (MWrite p orig d)
  then have pc: "pc_client (mpc s) = Some p" by simp
  let ?f = "\<lambda>c. (c, isAllowOrigin match_of orig (allow_origins c) \<and> d \<noteq> [] \<and> write_allowed c)"
  show ?thesis unfolding main_step.simps MWrite main_pc.case
  proof (rule member_safe [OF assms pc])
    fix c assume c: "live_ok c (view s p)" and ok: "storage_ok (put_client p (fst (?f c)) (wld s))"
    let ?pc = "if snd (?f c) then MWritePut p d else MUnlock"
    show "safe (Step (s\<lparr>wld := put_client p (fst (?f c)) (wld s), mpc := ?pc\<rparr>))"
      unfolding safe_simps fst_conv using c MWrite ok
      by (intro after_member(1) [OF assms pc]) (auto simp: live_ok_def)
  qed simp
qed simp_all

lemma write_put_safe:
  assumes "sys_inv s"
  shows "safe (main_step WritePut s)"
proof (cases "mpc s")
  case (MWritePut p d)
  then have pc: "pc_client (mpc s) = Some p" by simp
  show ?thesis unfolding main_step.simps MWritePut main_pc.case
  proof (rule member_safe [OF assms pc])
    fix c assume c: "live_ok c (view s p)"
      and ok: "storage_ok (put_client p (fst (write_put d c, ())) (wld s))"
    show "safe (Step (s\<lparr>wld := put_client p (fst (write_put d c, ())) (wld s), mpc := MPostWrite p\<rparr>))"
      unfolding safe_simps fst_conv using c MWritePut ok
      by (intro after_member(1) [OF assms pc]) (auto simp: live_ok_def write_put_def list_put_def ending_def)
  qed (simp add: write_put_def)
qed simp_all

lemma client_read_state: "state (snd (snd (client_read now c))) = state c \<and> write_queue (snd (snd (client_read now c))) = write_queue c"
  by (simp add: client_read_def Let_def split: option.split prod.split)

lemma read_safe:
  assumes "sys_inv s"
  shows "safe (main_step (Read now alloc_ok) s)"
proof (cases "mpc s")
  case (MRead p got)
  then have pc: "pc_client (mpc s) = Some p" by simp
  let ?f = "\<lambda>c. case client_read now c of (n, b, c') \<Rightarrow> (c', n)"
  have f: "?f c = (snd (snd (client_read now c)), fst (client_read now c))" for c by (simp add: case_prod_unfold)
  show ?thesis unfolding main_step.simps MRead main_pc.case
  proof (rule member_safe [OF assms pc])
    show "client_id (fst (?f c)) = client_id c" for c using client_read_id [of now c] by (simp add: f)
    fix c assume c: "live_ok c (view s p)" and ok: "storage_ok (put_client p (fst (?f c)) (wld s))"
    let ?c = "snd (snd (client_read now c))" and ?n = "snd (?f c)"
    let ?pc = "if ?n > 0 \<and> alloc_ok \<and> got + nat ?n < DATA_THRESHOLD then MRead p (got + nat ?n) else MUnlock"
    have l: "live_ok ?c (view (s\<lparr>wld := put_client p ?c (wld s), mpc := pc'\<rparr>) p)" if "pc' = MUnlock \<or> (\<exists>k. pc' = MRead p k)" for pc'
      using c MRead client_read_state [of now c] that by (auto simp: live_ok_def ending_def)
    have "?pc = MUnlock \<or> (\<exists>k. ?pc = MRead p k)" by simp
    from l [OF this] show "safe (Step (s\<lparr>wld := put_client p (fst (?f c)) (wld s), mpc := ?pc\<rparr>))"
      unfolding safe_simps f fst_conv using ok by (intro after_member(1) [OF assms pc]) (auto simp: f)
  qed
qed simp_all

lemma unlock_safe:
  assumes "sys_inv s"
  shows "safe (main_step Unlock s)"
proof (cases "mpc s = MUnlock")
  case True
  then have l: "storage_lock (wld s) = Some MainThread" using assms by (simp add: sys_inv_def lock_ok_def)
  let ?s = "s\<lparr>wld := wld s\<lparr>storage_lock := None\<rparr>, mpc := MIdle\<rparr>"
  have "local_ok (clients (wld ?s) p) (view ?s p)" for p
  proof -
    have "local_ok (clients (wld s) p) (view s p)" using assms by (simp add: sys_inv_def)
    moreover have "view ?s p = view s p" using True by (simp add: view_def)
    ultimately show ?thesis by simp
  qed
  then have "sys_inv ?s" using assms by (simp add: sys_inv_def lock_ok_def frame_simps)
  then show ?thesis using True l by (simp add: unlock_storage_def)
qed (simp split: main_pc.split)

lemma connect_safe:
  assumes "sys_inv s"
  shows "safe (main_step (Connect addr port0 access0 cid origins tmo h pt) s)"
proof (cases "mpc s = MIdle")
  case True
  with assms have l: "storage_lock (wld s) = None" by (simp add: sys_inv_def lock_ok_def)
  let ?w = "wld s\<lparr>storage_lock := Some MainThread\<rparr>"
  obtain a w' where cr: "storage_create addr port0 access0 cid origins tmo ?w = (a, w')" by (metis surj_pair)
  have okw: "storage_ok ?w" using assms by (simp add: sys_inv_def frame_simps)
  show ?thesis
  proof (cases a)
    case None
    then have w': "w' = ?w" using cr by (auto simp: storage_create_def split: option.splits if_splits)
    have "sys_inv (s\<lparr>wld := ?w, mpc := MUnlock\<rparr>)"
      using assms True by (auto simp: sys_inv_def lock_ok_def frame_simps local_ok_def dead_ok_def live_ok_def view_def split: option.splits)
    then show ?thesis using True l cr None w' by (simp add: lock_storage_def)
  next
    case (Some p)
    show ?thesis
    proof (cases "p \<in> set (allocated s)")
      case False
      have dead: "clients (wld s) p = None"
      proof (rule ccontr)
        assume "clients (wld s) p \<noteq> None"
        then obtain c where "live_ok c (view s p)" using inv_live [OF assms] by blast
        then show False using False by (simp add: live_ok_def)
      qed
      have d: "dead_ok (view s p)" using inv_dead [OF assms dead] .
      have "addr = Some p" and w': "w' = ?w\<lparr>clients := (clients ?w)(p \<mapsto> new_client port0 access0 cid origins tmo),
          client_map := map_insert cid p (client_map ?w)\<rparr>"
        using cr Some by (auto simp: storage_create_def split: option.splits if_splits)
      then have "storage_ok w'" using storage_create_ok [OF okw, of addr port0 access0 cid origins tmo] dead cr by simp
      then have "sys_inv (s\<lparr>wld := w', mpc := MConnect p h pt, allocated := p # allocated s\<rparr>)"
        using d True False
        by (intro inv_one [OF assms, of _ p])
          (auto simp: lock_ok_def w' view_def dead_ok_def live_ok_def new_client_def)
      then show ?thesis using True l cr Some False by (simp add: lock_storage_def)
    qed (use True l cr Some in \<open>simp add: lock_storage_def\<close>)
  qed
qed simp

lemmas main_steps_safe = connect_safe connect_begin_safe wake_safe disconnect_begin_safe post_disconnect_safe
  write_test_safe write_put_safe post_write_safe read_safe unlock_safe

lemma main_step_safe:
  assumes "sys_inv s"
  shows "safe (main_step e s)"
proof (cases e)
  case (Disconnect cid)
  then show ?thesis using enter_safe [OF assms, of MDisconnect cid] by simp
next
  case (Post cid orig d)
  then show ?thesis using enter_safe [OF assms, of "\<lambda>p. MWrite p orig d" cid] by simp
next
  case (Poll cid)
  then show ?thesis using enter_safe [OF assms, of "\<lambda>p. MRead p 0" cid] by simp
qed (use main_steps_safe [OF assms] in simp_all)

section \<open>The loop thread\<close>

text \<open>A step of the loop thread may fail, but not by what is excluded here.\<close>

definition sound :: "system result \<Rightarrow> bool" where
  "sound r \<longleftrightarrow> (case r of Step s' \<Rightarrow> sys_inv s' | Freed \<Rightarrow> False | _ \<Rightarrow> True)"

lemma sound_simps [simp]: "sound (Step s') = sys_inv s'" "sound Blocked" "sound ClosedTwice" "\<not> sound Freed"
  by (simp_all add: sound_def)

text \<open>A callback on a live client that changes it to \<open>c'\<close>.\<close>

lemma callback_inv:
  assumes "sys_inv s" "clients (wld s) p = Some c" "client_id c' = client_id c"
    and w: "clients (wld s') = (clients (wld s))(p \<mapsto> c')" "client_map (wld s') = client_map (wld s)"
      "max_clients (wld s') = max_clients (wld s)" "storage_lock (wld s') = storage_lock (wld s)"
    and "mpc s' = mpc s" "\<And>r. r \<noteq> p \<Longrightarrow> view s' r = view s r" "live_ok c' (view s' p)"
  shows "sys_inv s'"
proof (rule inv_one [OF assms(1), of s' p])
  have "storage_ok (put_client p c' (wld s))"
    using storage_ok_update [OF _ assms(2,3)] assms(1) by (simp add: sys_inv_def)
  then show "storage_ok (wld s')" by (simp add: storage_ok_def w)
  show "lock_ok s'" using assms(1) by (simp add: lock_ok_def sys_inv_def assms(8) w)
qed (use assms(9,10) in \<open>simp_all add: w\<close>)

abbreviation took :: "(request_type \<times> nat) list \<Rightarrow> nat \<Rightarrow> client \<Rightarrow> world \<Rightarrow> world" where
  "took q p c w \<equiv> w\<lparr>requests := q, clients := (clients w)(p \<mapsto> c)\<rparr>"

lemma loop_connect_state:
  "(fst (loop_connect io c) = fail_connect c \<and> effect_steps (submitted (map (\<lambda>e. (p, e)) (snd (loop_connect io c)))) s = Step s)
   \<or> (fst (loop_connect io c) = c
      \<and> effect_steps (submitted (map (\<lambda>e. (p, e)) (snd (loop_connect io c)))) s = Step (s\<lparr>connecting := p # connecting s\<rparr>))"
  by (cases "addrinfo io"; cases "the (addrinfo io)")
    (auto simp: loop_connect_def submitted_def Let_def)

lemma effects_of_simps [simp]:
  "effects_of (map (\<lambda>e. (p, Effect e)) es) = map (\<lambda>e. (p, e)) es"
  "effects_of (map (\<lambda>b. (p, Send b)) bs) = []" "effects_of [] = []"
  "effects_of ((p, Effect e) # as) = (p, e) # effects_of as"
  by (simp_all add: effects_of_def comp_def)

lemma live_ok_wrote:
  assumes "live_ok c v" "length wq \<le> length (write_queue c) - 1" "v_reqs v = WRITE # rs" "v' = v\<lparr>v_reqs := rs\<rparr>"
  shows "live_ok (c\<lparr>write_queue := wq\<rparr>) v'"
  unfolding live_ok_def
proof (intro conjI)
  have "length (write_queue c) \<le> length (filter (\<lambda>t. t = WRITE) (v_reqs v)) + (if \<exists>p. v_pc v = MPostWrite p then 1 else 0)"
    using assms(1) unfolding live_ok_def by blast
  then show "length (write_queue (c\<lparr>write_queue := wq\<rparr>))
      \<le> length (filter (\<lambda>t. t = WRITE) (v_reqs v')) + (if \<exists>p. v_pc v' = MPostWrite p then 1 else 0)"
    using assms(2-4) by (simp split: if_splits)
qed (use assms(1,3,4) in \<open>simp_all add: live_ok_def ending_def\<close>)

lemma took_view:
  assumes "requests (wld s) = (t, p) # q" "requests (wld s') = q" "mpc s' = mpc s" "lpc s' = lpc s" "allocated s' = allocated s"
    "r \<in> set (closing s') \<longleftrightarrow> r \<in> set (closing s)" "r \<in> set (connecting s') \<longleftrightarrow> r \<in> set (connecting s)"
    "r \<in> set (reading s') \<longleftrightarrow> r \<in> set (reading s)" "r \<noteq> p"
  shows "view s' r = view s r"
  using assms by (simp add: view_def)

lemma async_connect_sound:
  assumes i: "sys_inv s" and l: "lpc s = LIdle" and rq: "requests (wld s) = (CONNECT, p) # q" and c: "clients (wld s) p = Some c"
  shows "sound (loop_step b64 (Async io) s)"
proof -
  let ?c = "fst (loop_connect (conn io) c)" and ?es = "map (\<lambda>e. (p, e)) (snd (loop_connect (conn io) c))"
  let ?s = "s\<lparr>wld := took q p ?c (wld s)\<rparr>"
  have lv: "live_ok c (view s p)" using inv_live [OF i c] .
  have run: "loop_step b64 (Async io) s = effect_steps (submitted ?es) ?s"
    using l rq c by (simp add: on_client_Some [where w = "wld s\<lparr>requests := q\<rparr>"])
  from loop_connect_state [of "conn io" c p ?s] show ?thesis
  proof (elim disjE conjE)
    assume f: "?c = fail_connect c" "effect_steps (submitted ?es) ?s = Step ?s"
    have "sys_inv ?s" using lv l rq f(1)
      by (intro callback_inv [OF i c, of ?c] took_view [OF rq])
        (auto simp: live_ok_def fail_connect_def ending_def)
    then show ?thesis using run f(2) by simp
  next
    let ?s' = "?s\<lparr>connecting := p # connecting ?s\<rparr>"
    assume f: "?c = c" "effect_steps (submitted ?es) ?s = Step ?s'"
    have "sys_inv ?s'" using lv l rq f(1)
      by (intro callback_inv [OF i c, of ?c] took_view [OF rq]) (auto simp: live_ok_def ending_def)
    then show ?thesis using run f(2) by simp
  qed
qed

lemma async_write_sound:
  assumes i: "sys_inv s" and l: "lpc s = LIdle" and rq: "requests (wld s) = (WRITE, p) # q" and c: "clients (wld s) p = Some c"
  shows "sound (loop_step b64 (Async io) s)"
proof -
  let ?c = "fst (loop_write b64 (writes io) c)"
  let ?s = "s\<lparr>wld := took q p ?c (wld s)\<rparr>"
  have run: "loop_step b64 (Async io) s = Step ?s"
    using l rq c by (simp add: on_client_Some [where w = "wld s\<lparr>requests := q\<rparr>"] submitted_def)
  have c1: "?c = c\<lparr>write_queue := snd (write_loop b64 (writes io) 0 (write_queue c))\<rparr>"
    by (simp add: loop_write_def case_prod_unfold Let_def)
  have "length (snd (write_loop b64 (writes io) 0 (write_queue c))) \<le> length (write_queue c) - 1"
    using write_loop_length [of b64 "writes io" 0 "write_queue c"] by simp
  then have "live_ok ?c (view ?s p)"
    unfolding c1 by (rule live_ok_wrote [OF inv_live [OF i c]]) (use l rq in \<open>simp_all add: view_def\<close>)
  then have "sys_inv ?s" by (intro callback_inv [OF i c, of ?c] took_view [OF rq]) (simp_all add: c1)
  then show ?thesis using run by simp
qed

lemma async_sound:
  assumes i: "sys_inv s" and l: "lpc s = LIdle" and rq: "requests (wld s) = (t, p) # q" and c: "clients (wld s) p = Some c"
  shows "sound (loop_step b64 (Async io) s)"
proof (cases t)
  case UNDEFINED
  let ?s = "s\<lparr>wld := took q p c (wld s)\<rparr>"
  have "s\<lparr>wld := wld s\<lparr>requests := q\<rparr>\<rparr> = ?s" using c by (cases "wld s") (simp add: fun_upd_idem)
  moreover have "sys_inv ?s" using inv_live [OF i c] l rq UNDEFINED
    by (intro callback_inv [OF i c, of c] took_view [OF rq]) (auto simp: live_ok_def)
  ultimately show ?thesis using l rq UNDEFINED by (simp add: submitted_def)
next
  case CONNECT
  then show ?thesis using async_connect_sound [OF i l _ c] rq by blast
next
  case DISCONNECT
  let ?s = "s\<lparr>wld := took q p c (wld s), closing := p # closing s, reading := removeAll p (reading s)\<rparr>"
  have run: "loop_step b64 (Async io) s = (if p \<in> set (closing s) then ClosedTwice else Step ?s)"
    using l rq DISCONNECT c by (simp add: on_client_Some [where w = "wld s\<lparr>requests := q\<rparr>"] loop_disconnect_def submitted_def)
  have "sys_inv ?s" using inv_live [OF i c] l rq DISCONNECT
    by (intro callback_inv [OF i c, of c] took_view [OF rq]) (auto simp: live_ok_def)
  then show ?thesis using run by simp
next
  case WRITE
  then show ?thesis using async_write_sound [OF i l _ c] rq by blast
qed

lemma mem_connecting:
  assumes "sys_inv s" "p \<in> set (connecting s) \<or> p \<in> set (closing s) \<or> p \<in> set (reading s) \<or> lpc s = LClose p"
  shows "\<exists>c. clients (wld s) p = Some c \<and> live_ok c (view s p)"
proof (cases "clients (wld s) p")
  case None
  then show ?thesis using inv_dead [OF assms(1)] assms(2) by (auto simp: dead_ok_def)
qed (use inv_live [OF assms(1)] in blast)

lemma connect_callback_sound:
  assumes i: "sys_inv s"
  shows "sound (loop_step b64 (ConnectCallback now status p) s)"
proof (cases "lpc s = LIdle \<and> p \<in> set (connecting s)")
  case True
  then obtain c where c: "clients (wld s) p = Some c" and lv: "live_ok c (view s p)"
    using mem_connecting [OF i] by blast
  have in_r: "q \<in> set (remove1 p (connecting s)) \<longleftrightarrow> q \<in> set (connecting s)" if "q \<noteq> p" for q
    using that by (simp add: in_set_remove1)
  show ?thesis
  proof (cases "status \<noteq> 0 \<or> state c \<noteq> CONNECTING")
    case fail: True
    let ?s = "s\<lparr>wld := put_client p (fail_connect c) (wld s), connecting := remove1 p (connecting s)\<rparr>"
    have "sys_inv ?s"
      using lv True by (intro callback_inv [OF i c, of "fail_connect c"])
        (auto simp: live_ok_def view_def in_r fail_connect_def ending_def)
    then show ?thesis using True fail
      by (simp add: loop_on_connect_def on_client_Some [OF c] on_connect_def effects_of_def)
  next
    case False
    let ?c = "c\<lparr>state := CONNECTED, last_access := now\<rparr>"
    let ?s = "s\<lparr>wld := put_client p ?c (wld s), connecting := remove1 p (connecting s), reading := p # reading s\<rparr>"
    have "sys_inv ?s"
      using lv True False by (intro callback_inv [OF i c, of ?c])
        (auto simp: live_ok_def view_def in_r ending_def)
    then show ?thesis using True False
      by (simp add: loop_on_connect_def on_client_Some [OF c] on_connect_def effects_of_def)
  qed
qed auto

lemma read_callback_sound:
  assumes i: "sys_inv s"
  shows "sound (loop_step b64 (ReadCallback alloc_ok d n p) s)"
proof (cases "lpc s = LIdle \<and> p \<in> set (reading s)")
  case True
  then obtain c where c: "clients (wld s) p = Some c" and lv: "live_ok c (view s p)"
    using mem_connecting [OF i] by blast
  then have nc: "p \<notin> set (closing s)" using True by (auto simp: live_ok_def)
  let ?c = "fst (on_read alloc_ok d n c)"
  show ?thesis
  proof (cases "state c = CONNECTED \<and> n < 0")
    case close: True
    let ?s = "s\<lparr>wld := put_client p (c\<lparr>state := DISCONNECTING\<rparr>) (wld s), closing := p # closing s, reading := removeAll p (reading s)\<rparr>"
    have "sys_inv ?s"
      using lv True by (intro callback_inv [OF i c, of "c\<lparr>state := DISCONNECTING\<rparr>"])
        (auto simp: live_ok_def view_def ending_def)
    then show ?thesis using True close nc
      by (simp add: loop_on_read_def on_client_Some [OF c] on_read_def loop_disconnect_def)
  next
    case False
    then have st: "state ?c = state c \<and> write_queue ?c = write_queue c \<and> client_id ?c = client_id c" and e: "snd (on_read alloc_ok d n c) = []"
      by (auto simp: on_read_def)
    let ?s = "s\<lparr>wld := put_client p ?c (wld s)\<rparr>"
    have "live_ok ?c (view ?s p)" using lv st by (simp add: live_ok_def ending_def)
    then have "sys_inv ?s" using st by (intro callback_inv [OF i c, of ?c]) (auto simp: view_def)
    then show ?thesis using True e by (simp add: loop_on_read_def on_client_Some [OF c])
  qed
qed auto

lemma close_start_sound:
  assumes i: "sys_inv s"
  shows "sound (loop_step b64 (CloseStart p) s)"
proof (cases "lpc s = LIdle \<and> p \<in> set (closing s) \<and> p \<notin> set (connecting s)")
  case True
  then obtain c where c: "clients (wld s) p = Some c" and lv: "live_ok c (view s p)"
    using mem_connecting [OF i] by blast
  have "live_ok c (view (s\<lparr>lpc := LClose p\<rparr>) p)" using lv True by (simp add: live_ok_def)
  then have "sys_inv (s\<lparr>lpc := LClose p\<rparr>)"
    using True c i by (intro inv_one [OF i, of _ p]) (auto simp: view_def lock_ok_def sys_inv_def)
  then show ?thesis using True c by simp
qed auto

lemma loop_on_disconnect_run:
  assumes "storage_ok w" "clients w p = Some c" "storage_lock w = None"
  shows "\<exists>w'. loop_on_disconnect p w = Some w' \<and> storage_ok w' \<and> clients w' = (clients w)(p := None)
    \<and> requests w' = requests w \<and> storage_lock w' = None \<and> responses w' = responses w"
proof -
  let ?w = "w\<lparr>storage_lock := Some LoopThread\<rparr>"
  have ok: "storage_ok ?w" using assms(1) by (simp add: frame_simps)
  obtain w1 where w1: "storage_destroy (client_id c) ?w = Some w1" "storage_ok w1"
    using storage_destroy_ok [OF ok] by blast
  have "map_find (client_map ?w) (client_id c) = Some p" using storage_ok_live [OF assms(1,2)] by simp
  then have "w1 = ?w\<lparr>client_map := map_erase (client_id c) (client_map ?w), clients := (clients ?w)(p := None)\<rparr>"
    using w1(1) assms(2) by (simp add: storage_destroy_def)
  then show ?thesis using w1 assms(2,3)
    by (simp add: loop_on_disconnect_def lock_storage_def unlock_storage_def storage_ok_def)
qed

lemma close_end_sound:
  assumes i: "sys_inv s"
  shows "sound (loop_step b64 CloseEnd s)"
proof (cases "lpc s")
  case (LClose p)
  then obtain c where c: "clients (wld s) p = Some c" and lv: "live_ok c (view s p)"
    using mem_connecting [OF i] by blast
  show ?thesis
  proof (cases "storage_lock (wld s)")
    case None
    then have m: "mpc s = MIdle" using i by (auto simp: sys_inv_def lock_ok_def split: if_splits)
    obtain w where w: "loop_on_disconnect p (wld s) = Some w" "storage_ok w" "clients w = (clients (wld s))(p := None)"
      "requests w = requests (wld s)" "storage_lock w = None"
      using loop_on_disconnect_run [OF _ c None] i by (auto simp: sys_inv_def)
    let ?s = "s\<lparr>wld := w, lpc := LIdle, closing := removeAll p (closing s)\<rparr>"
    have "sys_inv ?s" using lv LClose w m
      by (intro inv_one [OF i, of _ p]) (auto simp: view_def lock_ok_def live_ok_def dead_ok_def)
    then show ?thesis using LClose None w(1) by simp
  qed (simp add: LClose)
qed simp_all

lemma timer_start_sound:
  assumes i: "sys_inv s"
  shows "sound (loop_step b64 TimerStart s)"
proof (cases "lpc s = LIdle")
  case True
  then have "view (s\<lparr>lpc := LTimer\<rparr>) p = view s p" for p by (simp add: view_def)
  then have "sys_inv (s\<lparr>lpc := LTimer\<rparr>)" using i by (simp add: sys_inv_def lock_ok_def)
  then show ?thesis using True by simp
qed simp

text \<open>The timer changes every client at once.\<close>

lemma timer_clients:
  assumes "storage_ok w" "storage_ok w'" "client_map w' = client_map w"
    "session w' = (\<lambda>i. map_option (\<lambda>c. fst (on_timer now c)) (session w i))"
  shows "clients w' p = map_option (\<lambda>c. fst (on_timer now c)) (clients w p)"
proof (cases "clients w p")
  case (Some c)
  then have f: "map_find (client_map w) (client_id c) = Some p" using storage_ok_live [OF assms(1)] by blast
  then have "session w (client_id c) = Some c" using Some by (simp add: session_def)
  then have "session w' (client_id c) = Some (fst (on_timer now c))" by (simp add: assms(4))
  then show ?thesis using f Some by (simp add: session_def assms(3))
next
  case None
  show ?thesis
  proof (cases "clients w' p")
    case (Some d)
    then have "map_find (client_map w) (client_id d) = Some p"
      using storage_ok_live [OF assms(2)] by (simp add: assms(3))
    then show ?thesis using storage_ok_find [OF assms(1)] None by fastforce
  qed (simp add: None)
qed

lemma loop_on_timer_run:
  assumes "storage_ok w" "storage_lock w = None"
  shows "\<exists>ps w'. loop_on_timer now w = Some (map (\<lambda>p. (p, Effect UvClose)) ps, w') \<and> storage_ok w'
    \<and> storage_lock w' = None \<and> requests w' = requests w \<and> responses w' = responses w \<and> client_map w' = client_map w
    \<and> (\<forall>p. clients w' p = map_option (\<lambda>c. fst (on_timer now c)) (clients w p))
    \<and> distinct ps \<and> (\<forall>p. p \<in> set ps \<longleftrightarrow> (\<exists>c. clients w p = Some c \<and> timer_expires now c))"
proof -
  let ?w = "w\<lparr>storage_lock := Some LoopThread\<rparr>"
  have ok: "storage_ok ?w" using assms(1) by (simp add: frame_simps)
  obtain ps w1 where w1: "storage_on_timer now ?w = Some (ps, w1)" "storage_ok w1" "w1 = ?w\<lparr>clients := clients w1\<rparr>"
    "session w1 = (\<lambda>i. map_option (\<lambda>c. fst (on_timer now c)) (session ?w i))"
    and ps: "distinct ps" "set ps = {p. \<exists>c. clients ?w p = Some c \<and> timer_expires now c}"
    using storage_timer_ok [OF ok] by blast
  have f: "client_map w1 = client_map w" "storage_lock w1 = Some LoopThread" "requests w1 = requests w" "responses w1 = responses w"
    using w1(3) by (metis world.select_convs world.surjective world.update_convs)+
  have "clients w1 p = map_option (\<lambda>c. fst (on_timer now c)) (clients w p)" for p
    using timer_clients [OF ok w1(2) _ w1(4)] f(1) by simp
  then show ?thesis using w1(1,2) f ps assms(2)
    by (auto simp: loop_on_timer_def lock_storage_def unlock_storage_def frame_simps)
qed

lemma effect_steps_close:
  "effect_steps (map (\<lambda>p. (p, UvClose)) ps) s =
    (if distinct ps \<and> set ps \<inter> set (closing s) = {}
     then Step (s\<lparr>closing := rev ps @ closing s, reading := filter (\<lambda>r. r \<notin> set ps) (reading s)\<rparr>)
     else ClosedTwice)"
proof (induction ps arbitrary: s)
  case (Cons p ps)
  have "filter (\<lambda>r. r \<notin> set ps) (removeAll p rs) = filter (\<lambda>r. r \<notin> set (p # ps)) rs" for rs
    by (auto simp: removeAll_filter_not_eq intro!: filter_cong)
  then show ?case by (auto simp: Cons.IH)
qed simp

lemma timer_end_sound:
  assumes i: "sys_inv s"
  shows "sound (loop_step b64 (TimerEnd now) s)"
proof (cases "lpc s")
  case LTimer
  show ?thesis
  proof (cases "storage_lock (wld s)")
    case None
    then have m: "mpc s = MIdle" using i by (auto simp: sys_inv_def lock_ok_def split: if_splits)
    obtain ps w where w: "loop_on_timer now (wld s) = Some (map (\<lambda>p. (p, Effect UvClose)) ps, w)" "storage_ok w"
      "storage_lock w = None" "requests w = requests (wld s)"
      "\<forall>p. clients w p = map_option (\<lambda>c. fst (on_timer now c)) (clients (wld s) p)"
      "\<forall>p. p \<in> set ps \<longleftrightarrow> (\<exists>c. clients (wld s) p = Some c \<and> timer_expires now c)"
      using loop_on_timer_run [OF _ None, of now] i unfolding sys_inv_def by blast
    let ?s = "s\<lparr>wld := w, lpc := LIdle\<rparr>"
    have run: "loop_step b64 (TimerEnd now) s = effect_steps (map (\<lambda>p. (p, UvClose)) ps) ?s"
      using LTimer None w(1) by (simp add: effects_of_def comp_def)
    let ?t = "?s\<lparr>closing := rev ps @ closing ?s, reading := filter (\<lambda>r. r \<notin> set ps) (reading ?s)\<rparr>"
    have "sys_inv ?t"
    proof -
      have "local_ok (clients (wld ?t) p) (view ?t p)" for p
      proof (cases "clients (wld s) p")
        case None
        then show ?thesis using inv_dead [OF i None] w LTimer by (simp add: dead_ok_def)
      next
        case (Some c)
        have lv: "live_ok c (view s p)" using inv_live [OF i Some] .
        show ?thesis
        proof (cases "timer_expires now c")
          case True
          then have "p \<in> set ps" using Some w(6) by blast
          then show ?thesis using lv Some True w LTimer m
            by (auto simp: live_ok_def on_timer_def loop_disconnect_def ending_def)
        next
          case False
          then have "p \<notin> set ps" using Some w(6) by simp
          then show ?thesis using lv Some False w LTimer m
            by (simp add: live_ok_def on_timer_def)
        qed
      qed
      then show ?thesis using w m by (simp add: sys_inv_def lock_ok_def)
    qed
    then show ?thesis using run effect_steps_close [of ps ?s] by simp
  qed (simp add: LTimer)
qed simp_all

lemma async_head_sound:
  assumes i: "sys_inv s" and live: "\<And>t p q. requests (wld s) = (t, p) # q \<Longrightarrow> clients (wld s) p \<noteq> None"
  shows "sound (loop_step b64 (Async io) s)"
proof (cases "lpc s = LIdle")
  case True
  show ?thesis
  proof (cases "requests (wld s)")
    case (Cons r q)
    then obtain t p where r: "requests (wld s) = (t, p) # q" by (cases r) auto
    then obtain c where "clients (wld s) p = Some c" using live by blast
    then show ?thesis using async_sound [OF i True r] by blast
  qed (simp add: True)
qed simp

lemmas callbacks_sound = connect_callback_sound read_callback_sound close_start_sound close_end_sound
  timer_start_sound timer_end_sound

text \<open>Only the handling of a request can use a deleted client.\<close>

lemma loop_step_sound:
  assumes "sys_inv s" "\<And>t p q. (\<exists>io. e = Async io) \<Longrightarrow> requests (wld s) = (t, p) # q \<Longrightarrow> clients (wld s) p \<noteq> None"
  shows "sound (loop_step b64 e s)"
proof (cases e)
  case (Async io)
  then show ?thesis using async_head_sound [OF assms(1)] assms(2) by simp
qed (use callbacks_sound [OF assms(1)] in simp_all)

lemma handle_request_dead:
  "clients w p = None \<Longrightarrow> t \<noteq> UNDEFINED \<Longrightarrow> handle_request b64 io (t, p) w = None"
  by (cases t) (simp_all add: on_client_def)

lemma undefined_never_posted:
  assumes "sys_inv s" "lpc s = LIdle" "requests (wld s) = (UNDEFINED, p) # q" "clients (wld s) p = None"
  shows "sys_inv (s\<lparr>wld := wld s\<lparr>requests := q\<rparr>\<rparr>)"
proof -
  let ?s = "s\<lparr>wld := wld s\<lparr>requests := q\<rparr>\<rparr>"
  have d: "dead_ok (view s p)" using inv_dead [OF assms(1,4)] .
  then have "dead_ok (view ?s p)" using assms(3) by (auto simp: dead_ok_def)
  then show ?thesis using assms
    by (intro inv_one [OF assms(1), of _ p]) (auto simp: sys_inv_def frame_simps lock_ok_def view_def)
qed

lemma sys_inv_step:
  assumes "sys_inv s" "sys_step b64 e s = Step s'"
  shows "sys_inv s'"
proof (cases "of_main e")
  case True
  then show ?thesis using assms main_step_safe [OF assms(1), of e] by (simp add: sys_step_def)
next
  case False
  then have st: "loop_step b64 e s = Step s'" using assms(2) by (simp add: sys_step_def)
  show ?thesis
  proof (cases "\<exists>io t p q. e = Async io \<and> requests (wld s) = (t, p) # q \<and> clients (wld s) p = None")
    case True
    then obtain io t p q where a: "e = Async io" "requests (wld s) = (t, p) # q" "clients (wld s) p = None" by blast
    then have l: "lpc s = LIdle" using st by (simp split: if_splits)
    have t: "t = UNDEFINED" using st a l handle_request_dead [of "wld s\<lparr>requests := q\<rparr>" p t b64 io] by (cases t) simp_all
    then have "s' = s\<lparr>wld := wld s\<lparr>requests := q\<rparr>\<rparr>" using st a l by (simp add: submitted_def)
    then show ?thesis using undefined_never_posted [OF assms(1) l] a t by simp
  next
    case False
    then have "sound (loop_step b64 e s)" by (intro loop_step_sound [OF assms(1)]) metis
    then show ?thesis using st by simp
  qed
qed

lemma sys_inv_start: "sys_inv (start_system n)"
proof -
  have "clients (storage_new n) p = None" "requests (storage_new n) = []" "storage_lock (storage_new n) = None" for p
    by (simp_all add: storage_new_def)
  then show ?thesis
    by (simp add: sys_inv_def start_system_def storage_ok_new lock_ok_def dead_ok_def view_def)
qed

interpretation sys: step_invariant "\<lambda>_ _. True" "sys_next b64" "start_system n" sys_inv
  for b64 :: "string \<Rightarrow> bytes option" and n :: nat
  by unfold_locales (auto simp: sys_inv_start sys_next_Some intro: sys_inv_step)

end
