(* ===== verification/System_Props.thy ===== *)
theory System_Props
  imports System_Safety
begin

text \<open>
  The properties of the two threads together that hold for every interleaving, and the two runs that
  reach a failure of the loop thread.
\<close>

section \<open>Helper lemmas\<close>

lemma effect_step_world: "effect_step p e s = Step s' \<Longrightarrow> wld s' = wld s \<and> mpc s' = mpc s \<and> lpc s' = lpc s"
  by (cases e) (auto split: if_splits)

lemma effect_steps_world: "effect_steps es s = Step s' \<Longrightarrow> wld s' = wld s \<and> mpc s' = mpc s \<and> lpc s' = lpc s"
proof (induction es arbitrary: s)
  case (Cons pe es)
  obtain p e where pe: "pe = (p, e)" by (cases pe)
  then obtain s1 where "effect_step p e s = Step s1" "effect_steps es s1 = Step s'"
    using Cons.prems by (auto split: result.splits)
  then show ?case using Cons.IH [of s1] effect_step_world by metis
qed simp

text \<open>No step of the loop thread moves the main thread, and none changes the capacity.\<close>

lemma loop_step_mpc: "loop_step b64 e s = Step s' \<Longrightarrow> mpc s' = mpc s"
  by (cases e) (auto split: if_splits option.splits loop_pc.splits prod.splits dest!: effect_steps_world)

lemma storage_create_max: "storage_create a p0 a0 cid os tmo w = (r, w') \<Longrightarrow> max_clients w' = max_clients w"
  by (auto simp: storage_create_def split: if_splits option.splits)

lemma storage_destroy_max: "storage_destroy cid w = Some w' \<Longrightarrow> max_clients w' = max_clients w"
  by (auto simp: storage_destroy_def split: if_splits option.splits)

lemma timer_loop_max: "timer_loop now it w = Some (ps, w') \<Longrightarrow> max_clients w' = max_clients w"
proof (induction now it w arbitrary: ps rule: timer_loop.induct)
  case (2 now cid p it w)
  then obtain es w1 qs where "on_client p (on_timer now) w = Some (es, w1)" "timer_loop now it w1 = Some (qs, w')"
    by (auto simp: bind_eq_Some_conv)
  then show ?case using "2.IH" on_client_world by fastforce
qed simp

lemma main_step_max: "main_step e s = Step s' \<Longrightarrow> max_clients (wld s') = max_clients (wld s)"
  by (cases e)
    (auto simp: enter_def member_def lock_storage_def unlock_storage_def loop_execute_def
      dest!: storage_create_max on_client_world
      split: if_splits option.splits main_pc.splits connect_next.splits prod.splits)

lemma loop_step_max: "loop_step b64 e s = Step s' \<Longrightarrow> max_clients (wld s') = max_clients (wld s)"
  by (cases e)
    (auto simp: loop_on_connect_def loop_on_read_def loop_on_disconnect_def loop_on_timer_def storage_on_timer_def
      lock_storage_def unlock_storage_def bind_eq_Some_conv
      dest!: effect_steps_world handle_request_world on_client_world storage_destroy_max timer_loop_max
      split: if_splits option.splits loop_pc.splits prod.splits)

lemma sys_step_max: "sys_step b64 e s = Step s' \<Longrightarrow> max_clients (wld s') = max_clients (wld s)"
  by (auto simp: sys_step_def main_step_max loop_step_max split: if_splits)

interpretation sys_max: invariant_pair "\<lambda>_ _. True" "sys_next b64" "start_system n" sys_inv
    "\<lambda>s. max_clients (wld s) = n"
  for b64 :: "string \<Rightarrow> bytes option" and n :: nat
  by unfold_locales (auto simp: start_system_def storage_new_def sys_next_Some dest: sys_step_max)

section \<open>Runs\<close>

definition good_io :: request_io where
  "good_io = \<lparr>conn = \<lparr>tcp_init = 0, req_alloc = True, addrinfo = Some AF_INET, tcp_connect = 0\<rparr>,
     writes = (\<lambda>_. \<lparr>url_alloc = True, write_alloc = True, uv_write = 0\<rparr>)\<rparr>"

definition no_b64 :: "string \<Rightarrow> bytes option" where
  "no_b64 t = None"

text \<open>A session that is opened; one that is opened while a first timer tick waits for the mutex.\<close>

definition open_run :: "event list" where
  "open_run = [Connect (Some 7) 0 0 ''a'' [] 30 ''h'' 80, ConnectBegin, Async good_io, ConnectCallback 5 0 7, Wake False, Unlock]"

text \<open>\<open>connect\<close> gives up, then the connection succeeds after all, and the timer finds the session failed.\<close>

definition late_connect_run :: "event list" where
  "late_connect_run = [Connect (Some 7) 0 0 ''a'' [] 30 ''h'' 80, ConnectBegin, Async good_io, Wake True, DisconnectBegin,
     ConnectCallback 5 0 7, PostDisconnect, Unlock, TimerStart, TimerEnd 6]"

text \<open>The backend goes away while a message is being written.\<close>

definition lost_backend_run :: "event list" where
  "lost_backend_run = open_run @ [Post ''a'' [] ''QQ'', WriteTest exact_match, ReadCallback True [] (- 1) 7, WritePut, PostWrite, Unlock,
     CloseStart 7, CloseEnd]"

definition after_run :: "event list \<Rightarrow> (system \<Rightarrow> bool) \<Rightarrow> bool" where
  "after_run es P \<longleftrightarrow> (case run_events (sys_next no_b64) es (start_system 1) of None \<Rightarrow> False | Some s \<Rightarrow> P s)"

lemma after_run_reachable:
  assumes "after_run es P"
  shows "\<exists>s. sys_reachable no_b64 1 s \<and> P s"
proof -
  obtain s where s: "run_events (sys_next no_b64) es (start_system 1) = Some s" "P s"
    using assms unfolding after_run_def by (cases "run_events (sys_next no_b64) es (start_system 1)") simp_all
  have "sys_reachable no_b64 1 s" by (rule run_events_reaches [OF s(1) reaches.reaches_init])
  then show ?thesis using s(2) by blast
qed

lemma result_tests [simp]:
  "(case r of Freed \<Rightarrow> True | _ \<Rightarrow> False) \<longleftrightarrow> r = Freed"
  "(case r of ClosedTwice \<Rightarrow> True | _ \<Rightarrow> False) \<longleftrightarrow> r = ClosedTwice"
  by (cases r; simp)+

lemma pc_tests [simp]:
  "(case m of MWait p \<Rightarrow> p = q | _ \<Rightarrow> False) \<longleftrightarrow> m = MWait q"
  "(case l of LIdle \<Rightarrow> False | _ \<Rightarrow> True) \<longleftrightarrow> l \<noteq> LIdle"
  by (cases m; cases l; simp)+

lemma write_head: "(case rs of (WRITE, p) # q \<Rightarrow> True | _ \<Rightarrow> False) \<longleftrightarrow> (\<exists>p q. rs = (WRITE, p) # q)"
  by (simp split: list.split prod.split request_type.split)

lemma late_connect: "after_run late_connect_run (\<lambda>s. case sys_step no_b64 (Async good_io) s of ClosedTwice \<Rightarrow> True | _ \<Rightarrow> False)"
  by code_simp

lemma lost_backend: "after_run lost_backend_run (\<lambda>s. case sys_step no_b64 (Async good_io) s of Freed \<Rightarrow> True | _ \<Rightarrow> False)"
  by code_simp

lemma lost_backend_write: "after_run lost_backend_run (\<lambda>s. (case requests (wld s) of (WRITE, p) # q \<Rightarrow> True | _ \<Rightarrow> False)
    \<and> (case sys_step no_b64 (Async good_io) s of Freed \<Rightarrow> True | _ \<Rightarrow> False))"
  by code_simp

text \<open>A timer tick starts while \<open>connect\<close> waits.\<close>

definition blocked_run :: "event list" where
  "blocked_run = [TimerStart, Connect (Some 7) 0 0 ''a'' [] 30 ''h'' 80, ConnectBegin]"

lemma blocked: "after_run blocked_run (\<lambda>s. (case mpc s of MWait p \<Rightarrow> p = 7 | _ \<Rightarrow> False) \<and> (case lpc s of LIdle \<Rightarrow> False | _ \<Rightarrow> True)
    \<and> (case clients (wld s) 7 of None \<Rightarrow> False | Some c \<Rightarrow> state c = CONNECTING)
    \<and> (case sys_step no_b64 (Wake True) s of Step s' \<Rightarrow> True | _ \<Rightarrow> False))"
  by code_simp

lemma opened: "after_run open_run (\<lambda>s. (case mpc s of MIdle \<Rightarrow> True | _ \<Rightarrow> False) \<and> requests (wld s) = []
    \<and> (case clients (wld s) 7 of None \<Rightarrow> False | Some c \<Rightarrow> write_queue c = []))"
  by code_simp

section \<open>The steps of a handler\<close>

text \<open>
  The steps by which a request is accepted, and a wait that returns without a deadline. A bound on the
  steps a handler still takes: the handlers but \<open>onPoll\<close> are straight lines, and a turn of the loop of
  \<open>onPoll\<close> that is not the last adds a byte below \<open>DATA_THRESHOLD\<close>.
\<close>

definition begins :: "event \<Rightarrow> bool" where
  "begins e \<longleftrightarrow> (case e of Connect addr port0 access0 cid origins tmo h pt \<Rightarrow> True | Disconnect cid \<Rightarrow> True
     | Post cid orig d \<Rightarrow> True | Poll cid \<Rightarrow> True | _ \<Rightarrow> False)"

definition early_wake :: "event \<Rightarrow> bool" where
  "early_wake e \<longleftrightarrow> (case e of Wake err \<Rightarrow> \<not> err | _ \<Rightarrow> False)"

fun steps_left :: "main_pc \<Rightarrow> nat" where
  "steps_left MIdle = 0"
| "steps_left MUnlock = 1"
| "steps_left (MPostDisconnect p) = 2"
| "steps_left (MDisconnect p) = 3"
| "steps_left (MWait p) = 4"
| "steps_left (MConnect p h pt) = 5"
| "steps_left (MPostWrite p) = 2"
| "steps_left (MWritePut p d) = 3"
| "steps_left (MWrite p orig d) = 4"
| "steps_left (MRead p got) = 2 + (DATA_THRESHOLD - got)"

lemma wake_deadline: "on_client p (connect_wake True) w \<noteq> Some (Wait, w')"
  by (auto simp: on_client_def connect_wake_def split: option.split if_splits)

lemma main_step_left:
  "main_step e s = Step s' \<Longrightarrow> of_main e \<Longrightarrow> \<not> begins e \<Longrightarrow>
   steps_left (mpc s') + (if early_wake e then 0 else 1) \<le> steps_left (mpc s)"
  by (cases e)
    (auto simp: member_def begins_def early_wake_def of_main_def wake_deadline
      split: option.splits main_pc.splits connect_next.splits prod.splits if_splits)

lemma run_left:
  "run_events (sys_next b64) es s = Some s' \<Longrightarrow> list_all (\<lambda>e. \<not> begins e) es \<Longrightarrow>
   steps_left (mpc s') + length (filter (\<lambda>e. of_main e \<and> \<not> early_wake e) es) \<le> steps_left (mpc s)"
proof (induction es arbitrary: s)
  case (Cons e es)
  then obtain s1 where s1: "sys_step b64 e s = Step s1" "run_events (sys_next b64) es s1 = Some s'"
    by (auto simp: sys_next_Some split: option.splits)
  have "steps_left (mpc s1) + (if of_main e \<and> \<not> early_wake e then 1 else 0) \<le> steps_left (mpc s)"
    using s1(1) main_step_left [of e s s1] loop_step_mpc [of b64 e s s1] Cons.prems(2)
    by (auto simp: sys_step_def split: if_splits)
  then show ?case using Cons.IH [OF s1(2)] Cons.prems(2) by (auto split: if_splits)
qed simp

lemma member_live:
  "clients (wld s) p = Some c \<Longrightarrow> member p f k s = k (snd (f c)) (put_client p (fst (f c)) (wld s))"
  by (simp add: member_def on_client_Some)

lemma holds_client:
  assumes "sys_inv s" "mpc s = m" "pc_client m = Some p"
  obtains c where "clients (wld s) p = Some c" "live_ok c (view s p)"
  using pc_client_live [OF assms(1), of p] assms(2,3) by blast

text \<open>A handler can always go on.\<close>

lemma handler_progress:
  assumes "sys_inv s" "mpc s \<noteq> MIdle"
  shows "\<exists>e s'. of_main e \<and> \<not> begins e \<and> \<not> early_wake e \<and> main_step e s = Step s'"
proof (cases "pc_client (mpc s)")
  case None
  then have "mpc s = MUnlock" using assms(2) by (cases "mpc s") simp_all
  moreover have "storage_lock (wld s) = Some MainThread" using assms by (simp add: sys_inv_def lock_ok_def)
  ultimately show ?thesis
    by (intro exI [of _ Unlock]) (simp add: unlock_storage_def of_main_def begins_def early_wake_def)
next
  case (Some p)
  obtain c where c: "clients (wld s) p = Some c" using holds_client [OF assms(1) refl Some] by blast
  define e where "e = (case mpc s of MConnect p h pt \<Rightarrow> ConnectBegin | MWait p \<Rightarrow> Wake True | MDisconnect p \<Rightarrow> DisconnectBegin
    | MPostDisconnect p \<Rightarrow> PostDisconnect | MWrite p orig d \<Rightarrow> WriteTest exact_match | MWritePut p d \<Rightarrow> WritePut
    | MPostWrite p \<Rightarrow> PostWrite | MRead p got \<Rightarrow> Read 0 True | _ \<Rightarrow> Unlock)"
  have "of_main e \<and> \<not> begins e \<and> \<not> early_wake e" using Some
    by (cases "mpc s") (simp_all add: e_def of_main_def begins_def early_wake_def)
  moreover have "\<exists>s'. main_step e s = Step s'" using Some c
    by (cases "mpc s") (auto simp: e_def member_live split: connect_next.split)
  ultimately show ?thesis by blast
qed

section \<open>What holds for every interleaving\<close>

text \<open>
  C3. The main thread never uses a client that the loop thread has deleted and never makes libuv abort:
  while a handler holds a pointer to a client it holds the mutex of the table.
\<close>

theorem main_thread_safe:
  assumes "sys_reachable b64 n s"
  shows "main_step e s \<noteq> Freed \<and> main_step e s \<noteq> ClosedTwice"
  using main_step_safe [OF sys.reaches_invar [OF assms], of e] by auto

theorem main_thread_safe_witness:
  "\<exists>s. sys_reachable no_b64 1 s \<and> clients (wld s) 7 \<noteq> None
    \<and> (main_step (Disconnect ''a'') s \<noteq> Freed \<and> main_step (Disconnect ''a'') s \<noteq> ClosedTwice)"
  using after_run_reachable [OF opened] main_thread_safe [of no_b64 1 _ "Disconnect ''a''"]
  by (auto split: option.splits)

text \<open>
  C6. The table and the clients stay consistent, and there are never more sessions than the capacity.
\<close>

theorem sys_table_consistent:
  assumes "sys_reachable b64 n s"
  shows "storage_ok (wld s) \<and> finite (dom (session (wld s))) \<and> card (dom (session (wld s))) \<le> n"
proof -
  have "sys_inv s" "max_clients (wld s) = n" using sys_max.reaches_both [OF assms] by auto
  then have "storage_ok (wld s)" "map_size (client_map (wld s)) \<le> n" by (auto simp: sys_inv_def storage_ok_def)
  then show ?thesis using session_count by metis
qed

theorem sys_table_consistent_witness:
  "\<exists>s. sys_reachable no_b64 1 s \<and> clients (wld s) 7 \<noteq> None
    \<and> (storage_ok (wld s) \<and> finite (dom (session (wld s))) \<and> card (dom (session (wld s))) \<le> 1)"
  using after_run_reachable [OF opened] sys_table_consistent [of no_b64 1] by (auto split: option.splits)

text \<open>
  C8. Between requests no client is left connecting: whatever the loop thread does, \<open>connect\<close> returns
  only when the attempt is decided.
\<close>

theorem sys_no_connecting:
  assumes "sys_reachable b64 n s" "mpc s = MIdle" "clients (wld s) p = Some c"
  shows "state c \<noteq> CONNECTING"
  using inv_live [OF sys.reaches_invar [OF assms(1)] assms(3)] assms(2) by (auto simp: live_ok_def)

theorem sys_no_connecting_witness: "\<exists>s c. sys_reachable no_b64 1 s \<and> clients (wld s) 7 = Some c \<and> state c \<noteq> CONNECTING"
  using after_run_reachable [OF opened] sys_no_connecting [of no_b64 1 _ 7]
  by (fastforce split: option.splits main_pc.splits)

text \<open>
  C7. No message is stranded: once the handlers have returned and the request queue is empty, every
  message that was accepted has been taken for writing.
\<close>

theorem sys_no_stranded:
  assumes "sys_reachable b64 n s" "mpc s = MIdle" "requests (wld s) = []" "clients (wld s) p = Some c"
  shows "write_queue c = []"
  using inv_live [OF sys.reaches_invar [OF assms(1)] assms(4)] assms(2,3) by (simp add: live_ok_def)

theorem sys_no_stranded_witness: "\<exists>s c. sys_reachable no_b64 1 s \<and> clients (wld s) 7 = Some c \<and> write_queue c = []"
  using after_run_reachable [OF opened] sys_no_stranded [of no_b64 1 _ 7]
  by (fastforce split: option.splits main_pc.splits)

text \<open>
  C4. Of all callbacks only the handling of a queued request can use a deleted client; the callbacks for
  connections, reads, closed handles and the timer never do.
\<close>

theorem loop_frees_only_by_request:
  assumes "sys_reachable b64 n s" "loop_step b64 e s = Freed"
  shows "\<exists>io t p q. e = Async io \<and> requests (wld s) = (t, p) # q \<and> clients (wld s) p = None"
proof (rule ccontr)
  assume "\<not> ?thesis"
  then have "sound (loop_step b64 e s)" by (intro loop_step_sound [OF sys.reaches_invar [OF assms(1)]]) metis
  then show False by (simp add: assms(2))
qed

theorem loop_frees_only_by_request_witness:
  "\<exists>s io t p q. sys_reachable no_b64 1 s \<and> Async good_io = Async io \<and> requests (wld s) = (t, p) # q \<and> clients (wld s) p = None"
proof -
  obtain s where s: "sys_reachable no_b64 1 s" "sys_step no_b64 (Async good_io) s = Freed"
    using after_run_reachable [OF lost_backend] unfolding result_tests by blast
  then have "loop_step no_b64 (Async good_io) s = Freed" by (simp add: sys_step_def of_main_def)
  then show ?thesis using loop_frees_only_by_request [OF s(1), of "Async good_io"] s(1) by blast
qed

text \<open>
  C11. The loop thread can use a deleted client: the backend closes the connection while a message is being
  posted, so the client is deleted with its request still queued.
\<close>

theorem sys_use_after_free: "\<exists>s p q. sys_reachable no_b64 1 s \<and> requests (wld s) = (WRITE, p) # q
    \<and> sys_step no_b64 (Async good_io) s = Freed"
  using after_run_reachable [OF lost_backend_write] unfolding result_tests write_head by blast

text \<open>
  C12. A handle can be closed twice, which aborts the program: \<open>connect\<close> gives up and asks for the handle
  to be closed, the connection callback then overwrites the state, and the timer, which saw it, closes
  the handle before the request is handled.
\<close>

theorem sys_double_close: "\<exists>s. sys_reachable no_b64 1 s \<and> sys_step no_b64 (Async good_io) s = ClosedTwice"
  using after_run_reachable [OF late_connect] unfolding result_tests by blast

text \<open>
  C13. While a callback of the loop thread waits for the mutex of the table, a \<open>connect\<close> that waits for the
  loop thread cannot succeed: nothing but the end of its own wait changes the situation.
\<close>

definition connect_waits :: "nat \<Rightarrow> system \<Rightarrow> bool" where
  "connect_waits p s \<longleftrightarrow> mpc s = MWait p \<and> lpc s \<noteq> LIdle
     \<and> (case clients (wld s) p of None \<Rightarrow> False | Some c \<Rightarrow> state c = CONNECTING)"

theorem connect_blocked:
  assumes "sys_reachable b64 n s" "connect_waits p s" "sys_step b64 e s = Step s'"
  shows "connect_waits p s' \<or> e = Wake True \<and> mpc s' = MDisconnect p"
proof -
  have "lock_ok s" using sys.reaches_invar [OF assms(1)] by (simp add: sys_inv_def)
  then have lk: "storage_lock (wld s) = Some MainThread" using assms(2) by (simp add: lock_ok_def connect_waits_def)
  obtain c where c: "clients (wld s) p = Some c" "state c = CONNECTING" "mpc s = MWait p" "lpc s \<noteq> LIdle"
    using assms(2) by (auto simp: connect_waits_def split: option.splits)
  show ?thesis
  proof (cases "of_main e")
    case True
    then obtain err where e: "e = Wake err"
      using assms(3) c(3) by (cases e) (auto simp: sys_step_def enter_def of_main_def)
    then show ?thesis using assms(3) c
      by (cases err) (auto simp: sys_step_def of_main_def member_def on_client_Some [OF c(1)] connect_wake_def connect_waits_def)
  next
    case False
    then have "loop_step b64 e s = Step s'" using assms(3) by (simp add: sys_step_def)
    then show ?thesis using c(4) lk by (cases e) (auto split: loop_pc.splits)
  qed
qed

theorem connect_blocked_witness:
  "\<exists>s s'. sys_reachable no_b64 1 s \<and> connect_waits 7 s \<and> sys_step no_b64 (Wake True) s = Step s'
    \<and> (connect_waits 7 s' \<or> Wake True = Wake True \<and> mpc s' = MDisconnect 7)"
proof -
  obtain s where s: "sys_reachable no_b64 1 s" "connect_waits 7 s"
    "case sys_step no_b64 (Wake True) s of Step s' \<Rightarrow> True | _ \<Rightarrow> False"
    using after_run_reachable [OF blocked] by (auto simp: connect_waits_def)
  then obtain s' where s': "sys_step no_b64 (Wake True) s = Step s'" by (auto split: result.splits)
  then show ?thesis using connect_blocked [OF s(1,2) s'] s(1,2) by blast
qed

text \<open>
  C9. Every handler returns. From any reachable state, whatever steps of both threads follow while no new
  request is accepted, the main thread takes at most five of them (in a poll that has read \<open>got\<close> bytes at
  most \<open>16384 - got + 2\<close>), not counting waits of \<open>connect\<close> that return before the deadline; and until the
  handler has returned, with the mutex of the table free, the main thread can take its next step.
\<close>

theorem handler_returns:
  assumes "sys_reachable b64 n s" "run_events (sys_next b64) es s = Some s'" "list_all (\<lambda>e. \<not> begins e) es"
  shows "length (filter (\<lambda>e. of_main e \<and> \<not> early_wake e) es) \<le> (case mpc s of MRead p got \<Rightarrow> DATA_THRESHOLD - got + 2 | _ \<Rightarrow> 5)
    \<and> (if mpc s' = MIdle then storage_lock (wld s') = None
       else \<exists>e s''. of_main e \<and> \<not> begins e \<and> \<not> early_wake e \<and> sys_next b64 s' e = Some s'')"
proof
  have "steps_left (mpc s) \<le> (case mpc s of MRead p got \<Rightarrow> DATA_THRESHOLD - got + 2 | _ \<Rightarrow> 5)" by (cases "mpc s") simp_all
  then show "length (filter (\<lambda>e. of_main e \<and> \<not> early_wake e) es) \<le> (case mpc s of MRead p got \<Rightarrow> DATA_THRESHOLD - got + 2 | _ \<Rightarrow> 5)"
    using run_left [OF assms(2,3)] by linarith
  have i: "sys_inv s'" by (rule sys.reaches_invar [OF run_events_reaches [OF assms(2,1)]])
  then show "if mpc s' = MIdle then storage_lock (wld s') = None
     else \<exists>e s''. of_main e \<and> \<not> begins e \<and> \<not> early_wake e \<and> sys_next b64 s' e = Some s''"
    using handler_progress [OF i] by (auto simp: sys_inv_def lock_ok_def sys_next_Some sys_step_def)
qed

text \<open>A poll reads what has arrived; it takes three steps.\<close>

definition poll_run :: "event list" where
  "poll_run = open_run @ [ReadCallback True [1, 2] 2 7, Poll ''a'']"

lemma polling: "after_run poll_run (\<lambda>s. (case mpc s of MRead p k \<Rightarrow> p = 7 \<and> k = 0 | _ \<Rightarrow> False)
    \<and> (case run_events (sys_next no_b64) [Read 9 True, Read 10 True, Unlock] s of None \<Rightarrow> False
       | Some s' \<Rightarrow> (case mpc s' of MIdle \<Rightarrow> True | _ \<Rightarrow> False)))"
  by code_simp

lemma poll_tests:
  "(case m of MRead p k \<Rightarrow> p = q \<and> k = j | _ \<Rightarrow> False) \<longleftrightarrow> m = MRead q j"
  "(case m of MIdle \<Rightarrow> True | _ \<Rightarrow> False) \<longleftrightarrow> m = MIdle"
  by (cases m; simp)+

theorem handler_returns_witness:
  "\<exists>s es s'. sys_reachable no_b64 1 s \<and> mpc s = MRead 7 0 \<and> run_events (sys_next no_b64) es s = Some s'
    \<and> length (filter (\<lambda>e. of_main e \<and> \<not> early_wake e) es) = 3 \<and> 3 \<le> DATA_THRESHOLD - 0 + 2
    \<and> mpc s' = MIdle \<and> storage_lock (wld s') = None"
proof -
  let ?es = "[Read 9 True, Read 10 True, Unlock]"
  have n: "length (filter (\<lambda>e. of_main e \<and> \<not> early_wake e) ?es) = 3" "list_all (\<lambda>e. \<not> begins e) ?es"
    by (simp_all add: of_main_def early_wake_def begins_def)
  obtain s where s: "sys_reachable no_b64 1 s" "mpc s = MRead 7 0"
    "case run_events (sys_next no_b64) ?es s of None \<Rightarrow> False | Some s' \<Rightarrow> mpc s' = MIdle"
    using after_run_reachable [OF polling] unfolding poll_tests by blast
  then obtain s' where s': "run_events (sys_next no_b64) ?es s = Some s'" "mpc s' = MIdle"
    by (cases "run_events (sys_next no_b64) ?es s") simp_all
  show ?thesis using handler_returns [OF s(1) s'(1) n(2)] n(1) s(1,2) s'
    by (intro exI [of _ s] exI [of _ ?es] exI [of _ s']) simp
qed

end
