(* ===== verification/System_Local.thy ===== *)
theory System_Local
  imports System_Props
begin

text \<open>
  What one step of the two threads does to one pointer: a relation on the client behind the pointer and
  its view. Every step of the system is such a local step for every pointer, so an invariant of single
  pointers has to be checked on the local steps only.
\<close>

section \<open>Local steps\<close>

inductive local_step :: "nat \<Rightarrow> event \<Rightarrow> client option \<Rightarrow> view \<Rightarrow> client option \<Rightarrow> view \<Rightarrow> bool" for p :: nat and e :: event where
  l_same: "local_step p e co v co v"
| l_create: "\<not> v_alloc v \<Longrightarrow> state c = DISCONNECTED \<Longrightarrow>
    local_step p e co v (Some c) (v\<lparr>v_pc := MConnect p h pt, v_alloc := True\<rparr>)"
| l_begin: "v_pc v = MConnect p h pt \<Longrightarrow> state c = DISCONNECTED \<Longrightarrow> state c' = CONNECTING \<Longrightarrow>
    local_step p e (Some c) v (Some c') (v\<lparr>v_pc := MWait p, v_reqs := v_reqs v @ [CONNECT]\<rparr>)"
| l_give_up: "v_pc v = MWait p \<Longrightarrow> e = Wake True \<Longrightarrow>
    local_step p e (Some c) v (Some c) (v\<lparr>v_pc := MDisconnect p\<rparr>)"
| l_enter: "v_pc v = MIdle \<Longrightarrow> m = MDisconnect p \<or> m = MRead p 0 \<or> (\<exists>orig d. m = MWrite p orig d) \<Longrightarrow>
    local_step p e (Some c) v (Some c) (v\<lparr>v_pc := m\<rparr>)"
| l_leave: "v_pc v = MWait p \<or> v_pc v = MDisconnect p \<or> (\<exists>got. v_pc v = MRead p got) \<or> (\<exists>orig d. v_pc v = MWrite p orig d) \<Longrightarrow> state c' = state c \<Longrightarrow>
    local_step p e (Some c) v (Some c') (v\<lparr>v_pc := MIdle\<rparr>)"
| l_disconnect: "v_pc v = MDisconnect p \<Longrightarrow> state c = CONNECTING \<or> state c = CONNECTED \<Longrightarrow>
    local_step p e (Some c) v (Some (c\<lparr>state := DISCONNECTING\<rparr>)) (v\<lparr>v_pc := MPostDisconnect p\<rparr>)"
| l_post_disconnect: "v_pc v = MPostDisconnect p \<Longrightarrow>
    local_step p e (Some c) v (Some c) (v\<lparr>v_pc := MIdle, v_reqs := v_reqs v @ [request_type.DISCONNECT]\<rparr>)"
| l_read: "v_pc v = MRead p got \<Longrightarrow> state c' = state c \<Longrightarrow>
    local_step p e (Some c) v (Some c') (v\<lparr>v_pc := MRead p got'\<rparr>)"
| l_write_test: "v_pc v = MWrite p orig d \<Longrightarrow> write_allowed c \<Longrightarrow>
    local_step p e (Some c) v (Some c) (v\<lparr>v_pc := MWritePut p d\<rparr>)"
| l_write_put: "v_pc v = MWritePut p d \<Longrightarrow> state c' = state c \<Longrightarrow>
    local_step p e (Some c) v (Some c') (v\<lparr>v_pc := MPostWrite p\<rparr>)"
| l_post_write: "v_pc v = MPostWrite p \<Longrightarrow>
    local_step p e (Some c) v (Some c) (v\<lparr>v_pc := MIdle, v_reqs := v_reqs v @ [WRITE]\<rparr>)"
| l_touch: "state c' = state c \<Longrightarrow> local_step p e (Some c) v (Some c') v"
| l_handle_none: "v_reqs v = t # rs \<Longrightarrow> local_step p e None v None (v\<lparr>v_reqs := rs\<rparr>)"
| l_handle: "v_reqs v = t # rs \<Longrightarrow> t = UNDEFINED \<or> t = WRITE \<Longrightarrow> state c' = state c \<Longrightarrow>
    local_step p e (Some c) v (Some c') (v\<lparr>v_reqs := rs\<rparr>)"
| l_connect_fails: "v_reqs v = CONNECT # rs \<Longrightarrow> state c' = FAIL_CONNECT \<Longrightarrow>
    local_step p e (Some c) v (Some c') (v\<lparr>v_reqs := rs\<rparr>)"
| l_connect: "v_reqs v = CONNECT # rs \<Longrightarrow> local_step p e (Some c) v (Some c) (v\<lparr>v_reqs := rs, v_connecting := True\<rparr>)"
| l_close: "v_reqs v = request_type.DISCONNECT # rs \<Longrightarrow> \<not> v_closing v \<Longrightarrow>
    local_step p e (Some c) v (Some c) (v\<lparr>v_reqs := rs, v_closing := True, v_reading := False\<rparr>)"
| l_failed: "v_connecting v \<Longrightarrow> state c' = FAIL_CONNECT \<Longrightarrow>
    local_step p e (Some c) v (Some c') (v\<lparr>v_connecting := False\<rparr>)"
| l_connected: "v_connecting v \<Longrightarrow> state c = CONNECTING \<Longrightarrow> state c' = CONNECTED \<Longrightarrow>
    local_step p e (Some c) v (Some c') (v\<lparr>v_connecting := False, v_reading := True\<rparr>)"
| l_close_start: "v_closing v \<Longrightarrow> \<not> v_connecting v \<Longrightarrow> local_step p e (Some c) v (Some c) (v\<lparr>v_close := True\<rparr>)"
| l_close_end: "v_close v \<Longrightarrow> v_pc v = MIdle \<Longrightarrow> local_step p e (Some c) v None (v\<lparr>v_close := False, v_closing := False\<rparr>)"
| l_eof: "e = ReadCallback a d n p \<Longrightarrow> n < 0 \<Longrightarrow> state c = CONNECTED \<Longrightarrow> v_reading v \<Longrightarrow>
    local_step p e (Some c) v (Some (c\<lparr>state := DISCONNECTING\<rparr>)) (v\<lparr>v_closing := True, v_reading := False\<rparr>)"
| l_expire: "e = TimerEnd now \<Longrightarrow> timer_expires now c \<Longrightarrow> v_pc v = MIdle \<Longrightarrow>
    local_step p e (Some c) v (Some (c\<lparr>state := DISCONNECTING\<rparr>)) (v\<lparr>v_closing := True, v_reading := False\<rparr>)"

section \<open>Projection\<close>

definition projects :: "event \<Rightarrow> system \<Rightarrow> system \<Rightarrow> bool" where
  "projects e s s' \<longleftrightarrow> (\<forall>p. local_step p e (clients (wld s) p) (view s p) (clients (wld s') p) (view s' p))"

lemma project_one:
  assumes "\<And>q. q \<noteq> p \<Longrightarrow> clients (wld s') q = clients (wld s) q \<and> view s' q = view s q"
    and "local_step p e (clients (wld s) p) (view s p) (clients (wld s') p) (view s' p)"
  shows "projects e s s'"
  unfolding projects_def by (metis assms l_same)

lemma project_none: "clients (wld s') = clients (wld s) \<Longrightarrow> (\<And>p. view s' p = view s p) \<Longrightarrow> projects e s s'"
  by (simp add: projects_def l_same)

text \<open>A step of the main thread on the client it holds.\<close>

lemma project_main:
  assumes "pc_client (mpc s) = Some p" "clients (wld s) p = Some c"
    and w: "clients w = (clients (wld s))(p \<mapsto> c')" "requests w = requests (wld s) @ map (\<lambda>t. (t, p)) ts"
    and m: "pc_client m = None \<or> pc_client m = Some p"
    and st: "local_step p e (Some c) (view s p) (Some c') v'"
      "v' = (view s p)\<lparr>v_pc := pc_at m p, v_reqs := v_reqs (view s p) @ ts\<rparr>"
  shows "projects e s (s\<lparr>wld := w, mpc := m\<rparr>)"
proof (rule project_one [of p])
  have r: "reqs_of q (map (\<lambda>t. (t, p)) ts) = (if q = p then ts else [])" for q
    by (induction ts) (auto simp: reqs_of_def)
  have "pc_at m q = MIdle" "pc_at (mpc s) q = MIdle" if "q \<noteq> p" for q using that m assms(1) by (auto simp: pc_at_def)
  then show "clients (wld (s\<lparr>wld := w, mpc := m\<rparr>)) q = clients (wld s) q \<and> view (s\<lparr>wld := w, mpc := m\<rparr>) q = view s q"
    if "q \<noteq> p" for q
    using that w r by (simp add: view_def)
  have "view (s\<lparr>wld := w, mpc := m\<rparr>) p = (view s p)\<lparr>v_pc := pc_at m p, v_reqs := v_reqs (view s p) @ ts\<rparr>"
    using w r by (simp add: view_def)
  then show "local_step p e (clients (wld s) p) (view s p) (clients (wld (s\<lparr>wld := w, mpc := m\<rparr>)) p) (view (s\<lparr>wld := w, mpc := m\<rparr>) p)"
    using st assms(2) w(1) by simp
qed

lemma view_reqs_id [simp]: "v\<lparr>v_reqs := v_reqs v\<rparr> = v"
  by (cases v) simp

lemma project_move:
  assumes "pc_client (mpc s) = Some p" "clients (wld s) p = Some c"
    and "clients w = (clients (wld s))(p \<mapsto> c')" "requests w = requests (wld s)"
    and "pc_client m = None \<or> pc_client m = Some p"
    and "local_step p e (Some c) (view s p) (Some c') v'" "v' = (view s p)\<lparr>v_pc := pc_at m p\<rparr>"
  shows "projects e s (s\<lparr>wld := w, mpc := m\<rparr>)"
  by (rule project_main [OF assms(1-3) _ assms(5,6), of "[]"]) (simp_all add: assms(4,7) del: view_simps)

lemma enter_projects:
  assumes "storage_ok (wld s)" "enter cid pc s = Step s'" "\<And>p. pc p = MDisconnect p \<or> pc p = MRead p 0 \<or> (\<exists>orig d. pc p = MWrite p orig d)"
  shows "projects e s s'"
proof -
  have m: "mpc s = MIdle" "storage_lock (wld s) = None"
    using assms(2) by (auto simp: enter_def lock_storage_def split: if_splits option.splits)
  let ?w = "wld s\<lparr>storage_lock := Some MainThread\<rparr>"
  have s': "s' = s\<lparr>wld := ?w, mpc := (case storage_get cid ?w of None \<Rightarrow> MUnlock | Some p \<Rightarrow> pc p)\<rparr>"
    using assms(2) m by (simp add: enter_def lock_storage_def)
  show ?thesis
  proof (cases "storage_get cid ?w")
    case None
    then show ?thesis using m by (intro project_none) (simp_all add: s' view_def)
  next
    case (Some p)
    then obtain c where c: "clients (wld s) p = Some c"
      using storage_ok_find [OF assms(1), of cid p] by (auto simp: storage_get_def)
    have pc: "pc_client (pc q) = Some q" for q using assms(3) [of q] by auto
    have "view s' p = (view s p)\<lparr>v_pc := pc p\<rparr>" using Some pc by (simp add: s' view_def)
    moreover have "local_step p e (Some c) (view s p) (Some c) ((view s p)\<lparr>v_pc := pc p\<rparr>)"
      using assms(3) [of p] m by (intro l_enter) simp_all
    ultimately show ?thesis
      by (intro project_one [of p]) (use Some pc m c in \<open>simp_all add: s' view_def\<close>)
  qed
qed

lemma create_projects:
  assumes "main_step (Connect addr port0 access0 cid origins tmo h pt) s = Step s'"
  shows "projects e s s'"
proof -
  have m: "mpc s = MIdle" "storage_lock (wld s) = None"
    using assms by (auto simp: lock_storage_def split: if_splits option.splits)
  let ?cr = "storage_create addr port0 access0 cid origins tmo (wld s\<lparr>storage_lock := Some MainThread\<rparr>)"
  have f: "requests (snd ?cr) = requests (wld s)" by (simp add: storage_create_def split: option.split)
  show ?thesis
  proof (cases "fst ?cr")
    case None
    then have "clients (snd ?cr) = clients (wld s)" by (simp add: storage_create_def split: if_splits option.splits)
    moreover have "s' = s\<lparr>wld := snd ?cr, mpc := MUnlock\<rparr>"
      using assms m None by (simp add: lock_storage_def case_prod_unfold)
    ultimately show ?thesis using m f by (intro project_none) (simp_all add: view_def)
  next
    case (Some p)
    let ?c = "new_client port0 access0 cid origins tmo"
    have c: "clients (snd ?cr) = (clients (wld s))(p \<mapsto> ?c)"
      using Some by (auto simp: storage_create_def split: if_splits option.splits)
    have s': "s' = s\<lparr>wld := snd ?cr, mpc := MConnect p h pt, allocated := p # allocated s\<rparr>" and new: "p \<notin> set (allocated s)"
      using assms m Some by (simp_all add: lock_storage_def case_prod_unfold split: if_splits)
    have "view s' p = (view s p)\<lparr>v_pc := MConnect p h pt, v_alloc := True\<rparr>" by (simp add: s' view_def f)
    moreover have "local_step p e (clients (wld s) p) (view s p) (Some ?c) ((view s p)\<lparr>v_pc := MConnect p h pt, v_alloc := True\<rparr>)"
      using new by (intro l_create) (simp_all add: new_client_def)
    ultimately show ?thesis
      by (intro project_one [of p]) (use m c f in \<open>auto simp: s' view_def\<close>)
  qed
qed

lemmas posted = loop_execute_def list_put_def

lemma connect_begin_projects:
  assumes i: "sys_inv s" and st: "main_step ConnectBegin s = Step s'"
  shows "projects e s s'"
proof (cases "mpc s")
  case (MConnect p h pt)
  then obtain c where c: "clients (wld s) p = Some c" "live_ok c (view s p)" using holds_client [OF i MConnect] by auto
  have d: "state c = DISCONNECTED" using c(2) MConnect by (simp add: live_ok_def)
  let ?c = "c\<lparr>host := h, port := pt, state := CONNECTING\<rparr>"
  have s': "s' = s\<lparr>wld := loop_execute CONNECT p (put_client p ?c (wld s)), mpc := MWait p\<rparr>"
    using st MConnect d by (simp add: member_live [OF c(1)] connect_begin_def)
  show ?thesis unfolding s'
    by (rule project_main [OF _ c(1) _ _ _ l_begin [where c' = ?c], of _ "[CONNECT]"]) (use MConnect d in \<open>simp_all add: posted\<close>)
qed (use st in simp_all)

lemma wake_projects:
  assumes i: "sys_inv s" and st: "main_step (Wake err) s = Step s'"
  shows "projects (Wake err) s s'"
proof (cases "mpc s")
  case (MWait p)
  then obtain c where c: "clients (wld s) p = Some c" using holds_client [OF i MWait] by auto
  note run = st [unfolded main_step.simps MWait main_pc.case member_live [OF c]]
  have "c\<lparr>state := FAIL_CONNECT\<rparr> = c" if "state c = FAIL_CONNECT" using that by (cases c) simp
  then have id: "fst (connect_wake err c) = c" by (auto simp: connect_wake_def)
  show ?thesis
  proof (cases "snd (connect_wake err c)")
    case (Return b)
    then have s': "s' = s\<lparr>wld := put_client p c (wld s), mpc := MUnlock\<rparr>" using run id by simp
    show ?thesis unfolding s' by (rule project_move [OF _ c _ _ _ l_leave [where c' = c]]) (use MWait in simp_all)
  next
    case GiveUp
    then have s': "s' = s\<lparr>wld := put_client p c (wld s), mpc := MDisconnect p\<rparr>" and "err"
      using run id by (auto simp: connect_wake_def split: if_splits)
    then show ?thesis unfolding s' by (intro project_move [OF _ c _ _ _ l_give_up]) (use MWait in simp_all)
  next
    case Wait
    then have "s' = s\<lparr>wld := put_client p c (wld s)\<rparr>" using run id by simp
    then show ?thesis using c by (intro project_none) (auto simp: view_def)
  qed
qed (use st in simp_all)

lemma disconnect_begin_projects:
  assumes i: "sys_inv s" and st: "main_step DisconnectBegin s = Step s'"
  shows "projects e s s'"
proof (cases "mpc s")
  case (MDisconnect p)
  then obtain c where c: "clients (wld s) p = Some c" using holds_client [OF i MDisconnect] by auto
  show ?thesis
  proof (cases "state c = CONNECTING \<or> state c = CONNECTED")
    case True
    have s': "s' = s\<lparr>wld := put_client p (c\<lparr>state := DISCONNECTING\<rparr>) (wld s), mpc := MPostDisconnect p\<rparr>"
      using st MDisconnect True by (auto simp: member_live [OF c] disconnect_begin_def)
    show ?thesis unfolding s'
      by (rule project_move [OF _ c _ _ _ l_disconnect]) (use MDisconnect True in simp_all)
  next
    case False
    then have s': "s' = s\<lparr>wld := put_client p c (wld s), mpc := MUnlock\<rparr>"
      using st MDisconnect by (cases "state c") (auto simp: member_live [OF c] disconnect_begin_def)
    show ?thesis unfolding s' by (rule project_move [OF _ c _ _ _ l_leave [where c' = c]]) (use MDisconnect in simp_all)
  qed
qed (use st in simp_all)

lemma post_projects:
  assumes i: "sys_inv s"
    and st: "main_step PostDisconnect s = Step s' \<or> main_step PostWrite s = Step s'"
  shows "projects e s s'"
proof -
  obtain p where m: "mpc s = MPostDisconnect p \<or> mpc s = MPostWrite p" using st by (cases "mpc s") auto
  then obtain c where c: "clients (wld s) p = Some c" using pc_client_live [OF i, of p] by auto
  then have keep: "clients (wld s) = (clients (wld s))(p \<mapsto> c)" by auto
  from m show ?thesis
  proof
    assume m: "mpc s = MPostDisconnect p"
    then have s': "s' = s\<lparr>wld := loop_execute request_type.DISCONNECT p (wld s), mpc := MUnlock\<rparr>" using st by auto
    show ?thesis unfolding s'
      by (rule project_main [OF _ c _ _ _ l_post_disconnect, of _ "[request_type.DISCONNECT]"]) (use m keep in \<open>simp_all add: posted\<close>)
  next
    assume m: "mpc s = MPostWrite p"
    then have s': "s' = s\<lparr>wld := loop_execute WRITE p (wld s), mpc := MUnlock\<rparr>" using st by auto
    show ?thesis unfolding s'
      by (rule project_main [OF _ c _ _ _ l_post_write, of _ "[WRITE]"]) (use m keep in \<open>simp_all add: posted\<close>)
  qed
qed

lemma write_test_projects:
  assumes i: "sys_inv s" and st: "main_step (WriteTest match_of) s = Step s'"
  shows "projects e s s'"
proof (cases "mpc s")
  case (MWrite p orig d)
  then obtain c where c: "clients (wld s) p = Some c" using holds_client [OF i MWrite] by auto
  let ?b = "isAllowOrigin match_of orig (allow_origins c) \<and> d \<noteq> [] \<and> write_allowed c"
  have s': "s' = s\<lparr>wld := put_client p c (wld s), mpc := (if ?b then MWritePut p d else MUnlock)\<rparr>"
    using st MWrite by (simp add: member_live [OF c])
  show ?thesis
  proof (cases ?b)
    case True
    then show ?thesis unfolding s' by (intro project_move [OF _ c _ _ _ l_write_test]) (use MWrite in simp_all)
  next
    case False
    then show ?thesis unfolding s' by (intro project_move [OF _ c _ _ _ l_leave [where c' = c]]) (use MWrite in auto)
  qed
qed (use st in simp_all)

lemma write_put_projects:
  assumes i: "sys_inv s" and st: "main_step WritePut s = Step s'"
  shows "projects e s s'"
proof (cases "mpc s")
  case (MWritePut p d)
  then obtain c where c: "clients (wld s) p = Some c" using holds_client [OF i MWritePut] by auto
  have s': "s' = s\<lparr>wld := put_client p (write_put d c) (wld s), mpc := MPostWrite p\<rparr>"
    using st MWritePut by (simp add: member_live [OF c])
  show ?thesis unfolding s'
    by (rule project_move [OF _ c _ _ _ l_write_put [where c' = "write_put d c"]]) (use MWritePut in \<open>simp_all add: write_put_def\<close>)
qed (use st in simp_all)

lemma read_projects:
  assumes i: "sys_inv s" and st: "main_step (Read now alloc_ok) s = Step s'"
  shows "projects e s s'"
proof (cases "mpc s")
  case (MRead p got)
  then obtain c where c: "clients (wld s) p = Some c" using holds_client [OF i MRead] by auto
  let ?c = "snd (snd (client_read now c))" and ?n = "fst (client_read now c)"
  let ?b = "?n > 0 \<and> alloc_ok \<and> got + nat ?n < DATA_THRESHOLD"
  have same: "state ?c = state c" using client_read_state [of now c] by simp
  have s': "s' = s\<lparr>wld := put_client p ?c (wld s), mpc := (if ?b then MRead p (got + nat ?n) else MUnlock)\<rparr>"
    using st MRead by (auto simp: member_live [OF c] case_prod_unfold split: if_splits)
  show ?thesis
  proof (cases ?b)
    case True
    then show ?thesis unfolding s'
      using same by (intro project_move [OF _ c _ _ _ l_read [where c' = ?c and got = got and got' = "got + nat ?n"]]) (use MRead in simp_all)
  next
    case False
    then show ?thesis unfolding s'
      using same by (intro project_move [OF _ c _ _ _ l_leave [where c' = ?c]]) (use MRead in auto)
  qed
qed (use st in simp_all)

lemma unlock_projects:
  assumes st: "main_step Unlock s = Step s'"
  shows "projects e s s'"
proof -
  have "mpc s = MUnlock" "s' = s\<lparr>wld := wld s\<lparr>storage_lock := None\<rparr>, mpc := MIdle\<rparr>"
    using st by (cases "mpc s"; simp add: unlock_storage_def split: if_splits)+
  then show ?thesis by (intro project_none) (simp_all add: view_def)
qed

lemma main_projects:
  assumes "sys_inv s" "main_step e s = Step s'"
  shows "projects e s s'"
proof -
  have ok: "storage_ok (wld s)" using assms(1) by (simp add: sys_inv_def)
  show ?thesis
  proof (cases e)
    case (Disconnect cid)
    then show ?thesis using assms(2) enter_projects [OF ok, of cid MDisconnect] by simp
  next
    case (Post cid orig d)
    then show ?thesis using assms(2) enter_projects [OF ok, of cid "\<lambda>p. MWrite p orig d"] by simp
  next
    case (Poll cid)
    then show ?thesis using assms(2) enter_projects [OF ok, of cid "\<lambda>p. MRead p 0"] by simp
  qed (use assms create_projects connect_begin_projects wake_projects disconnect_begin_projects post_projects
      write_test_projects write_put_projects read_projects unlock_projects in \<open>simp_all del: main_step.simps, simp_all\<close>)
qed

text \<open>A callback on one client.\<close>

lemma project_callback:
  assumes c: "clients (wld s) p = co"
    and w: "clients (wld s') = (clients (wld s))(p := co')" "\<And>q. q \<noteq> p \<Longrightarrow> view s' q = view s q"
    and st: "local_step p e co (view s p) co' v'" "view s' p = v'"
  shows "projects e s s'"
  by (rule project_one [of p]) (use assms in simp_all)

lemma async_connect_projects:
  assumes l: "lpc s = LIdle" and rq: "requests (wld s) = (CONNECT, p) # q" and c: "clients (wld s) p = Some c"
    and st: "loop_step b64 (Async io) s = Step s'"
  shows "projects (Async io) s s'"
proof -
  let ?c = "fst (loop_connect (conn io) c)" and ?es = "map (\<lambda>e. (p, e)) (snd (loop_connect (conn io) c))"
  let ?s = "s\<lparr>wld := took q p ?c (wld s)\<rparr>"
  have run: "effect_steps (submitted ?es) ?s = Step s'"
    using st l rq c by (simp add: on_client_Some [where w = "wld s\<lparr>requests := q\<rparr>"])
  have hd: "v_reqs (view s p) = CONNECT # reqs_of p q" by (simp add: rq)
  from loop_connect_state [of "conn io" c p ?s] show ?thesis
  proof (elim disjE conjE)
    assume f: "?c = fail_connect c" "effect_steps (submitted ?es) ?s = Step ?s"
    then have s': "s' = s\<lparr>wld := took q p (fail_connect c) (wld s)\<rparr>" using run by simp
    show ?thesis by (rule project_callback [OF c _ _ l_connect_fails [OF hd, where c' = "fail_connect c"]])
      (use rq in \<open>simp_all add: s' view_def fail_connect_def\<close>)
  next
    assume f: "?c = c" "effect_steps (submitted ?es) ?s = Step (?s\<lparr>connecting := p # connecting ?s\<rparr>)"
    then have s': "s' = s\<lparr>wld := took q p c (wld s), connecting := p # connecting s\<rparr>" using run by simp
    show ?thesis by (rule project_callback [OF c _ _ l_connect [OF hd]]) (use rq in \<open>simp_all add: s' view_def\<close>)
  qed
qed

lemma async_projects:
  assumes i: "sys_inv s" and st: "loop_step b64 (Async io) s = Step s'"
  shows "projects (Async io) s s'"
proof -
  have l: "lpc s = LIdle" using st by (simp split: if_splits)
  obtain t p q where rq: "requests (wld s) = (t, p) # q" using st l by (cases "requests (wld s)") auto
  let ?w = "wld s\<lparr>requests := q\<rparr>"
  have hd: "v_reqs (view s p) = t # reqs_of p q" by (simp add: rq)
  show ?thesis
  proof (cases "clients (wld s) p")
    case None
    then have t: "t = UNDEFINED" using st l rq handle_request_dead [of ?w p t b64 io] by (cases t) simp_all
    then have s': "s' = s\<lparr>wld := ?w\<rparr>" using st l rq by (simp add: submitted_def)
    show ?thesis by (rule project_callback [OF None _ _ l_handle_none [OF hd]])
      (use None rq in \<open>auto simp: s' view_def\<close>)
  next
    case (Some c)
    have c': "clients ?w p = Some c" using Some by simp
    show ?thesis
    proof (cases t)
      case UNDEFINED
      then have s': "s' = s\<lparr>wld := ?w\<rparr>" using st l rq by (simp add: submitted_def)
      show ?thesis
        by (rule project_callback [OF Some _ _ l_handle [OF hd, where c' = c]]) (use UNDEFINED Some rq in \<open>auto simp: s' view_def\<close>)
    next
      case CONNECT
      then show ?thesis using async_connect_projects [OF l _ Some st] rq by blast
    next
      case DISCONNECT
      have s': "p \<notin> set (closing s)"
        "s' = s\<lparr>wld := took q p c (wld s), closing := p # closing s, reading := removeAll p (reading s)\<rparr>"
        using st l rq DISCONNECT by (simp_all add: on_client_Some [OF c'] loop_disconnect_def submitted_def split: if_splits)
      show ?thesis by (rule project_callback [OF Some _ _ l_close [OF hd [unfolded DISCONNECT]]])
        (use rq s'(1) in \<open>simp_all add: s' view_def\<close>)
    next
      case WRITE
      let ?c = "fst (loop_write b64 (writes io) c)"
      have c1: "state ?c = state c" by (simp add: loop_write_def case_prod_unfold Let_def)
      have s': "s' = s\<lparr>wld := took q p ?c (wld s)\<rparr>"
        using st l rq WRITE by (simp add: on_client_Some [OF c'] submitted_def)
      show ?thesis by (rule project_callback [OF Some _ _ l_handle [OF hd, where c' = ?c]])
        (use rq WRITE c1 in \<open>simp_all add: s' view_def\<close>)
    qed
  qed
qed

lemma connect_callback_projects:
  assumes i: "sys_inv s" and d: "distinct (connecting s)" and st: "loop_step b64 (ConnectCallback now status p) s = Step s'"
  shows "projects e s s'"
proof -
  have l: "lpc s = LIdle" "p \<in> set (connecting s)" using st by (simp_all split: if_splits)
  then obtain c where c: "clients (wld s) p = Some c" using mem_connecting [OF i] by blast
  have in_r: "q \<in> set (remove1 p (connecting s)) \<longleftrightarrow> q \<in> set (connecting s) \<and> q \<noteq> p" for q
    using d by (auto simp: set_remove1_eq)
  show ?thesis
  proof (cases "status \<noteq> 0 \<or> state c \<noteq> CONNECTING")
    case True
    then have s': "s' = s\<lparr>wld := put_client p (fail_connect c) (wld s), connecting := remove1 p (connecting s)\<rparr>"
      using st l by (simp add: loop_on_connect_def on_client_Some [OF c] on_connect_def effects_of_def)
    show ?thesis by (rule project_callback [OF c _ _ l_failed [where c' = "fail_connect c"]])
      (use l in \<open>simp_all add: s' view_def in_r fail_connect_def\<close>)
  next
    case False
    let ?c = "c\<lparr>state := CONNECTED, last_access := now\<rparr>"
    have s': "s' = s\<lparr>wld := put_client p ?c (wld s), connecting := remove1 p (connecting s), reading := p # reading s\<rparr>"
      using st l False by (simp add: loop_on_connect_def on_client_Some [OF c] on_connect_def effects_of_def)
    show ?thesis by (rule project_callback [OF c _ _ l_connected [where c' = ?c]])
      (use l False in \<open>simp_all add: s' view_def in_r\<close>)
  qed
qed

lemma read_callback_projects:
  assumes i: "sys_inv s" and st: "loop_step b64 (ReadCallback alloc_ok d n p) s = Step s'"
  shows "projects (ReadCallback alloc_ok d n p) s s'"
proof -
  have l: "lpc s = LIdle" "p \<in> set (reading s)" using st by (simp_all split: if_splits)
  then obtain c where c: "clients (wld s) p = Some c" and lv: "live_ok c (view s p)" using mem_connecting [OF i] by blast
  have nc: "p \<notin> set (closing s)" using lv l by (auto simp: live_ok_def)
  show ?thesis
  proof (cases "state c = CONNECTED \<and> n < 0")
    case True
    then have s': "s' = s\<lparr>wld := put_client p (c\<lparr>state := DISCONNECTING\<rparr>) (wld s), closing := p # closing s,
        reading := removeAll p (reading s)\<rparr>"
      using st l nc by (simp add: loop_on_read_def on_client_Some [OF c] on_read_def loop_disconnect_def)
    show ?thesis by (rule project_callback [OF c _ _ l_eof [OF refl]]) (use l True in \<open>simp_all add: s' view_def\<close>)
  next
    case False
    let ?c = "fst (on_read alloc_ok d n c)"
    have same: "state ?c = state c" and "snd (on_read alloc_ok d n c) = []" using False by (auto simp: on_read_def)
    then have s': "s' = s\<lparr>wld := put_client p ?c (wld s)\<rparr>"
      using st l by (simp add: loop_on_read_def on_client_Some [OF c])
    show ?thesis by (rule project_callback [OF c _ _ l_touch [OF same]]) (simp_all add: s' view_def)
  qed
qed

lemma close_start_projects:
  assumes i: "sys_inv s" and st: "loop_step b64 (CloseStart p) s = Step s'"
  shows "projects e s s'"
proof -
  have l: "lpc s = LIdle" "p \<in> set (closing s)" "p \<notin> set (connecting s)" "s' = s\<lparr>lpc := LClose p\<rparr>"
    using st by (simp_all split: if_splits)
  then obtain c where c: "clients (wld s) p = Some c" using mem_connecting [OF i] by blast
  show ?thesis by (rule project_callback [OF c _ _ l_close_start]) (use l c in \<open>auto simp: view_def\<close>)
qed

lemma close_end_projects:
  assumes i: "sys_inv s" and st: "loop_step b64 CloseEnd s = Step s'"
  shows "projects e s s'"
proof -
  obtain p where l: "lpc s = LClose p" using st by (cases "lpc s") simp_all
  then obtain c where c: "clients (wld s) p = Some c" using mem_connecting [OF i] by blast
  have lk: "storage_lock (wld s) = None" using st l by (simp split: if_splits)
  then have m: "mpc s = MIdle" using i by (auto simp: sys_inv_def lock_ok_def split: if_splits)
  obtain w where w: "loop_on_disconnect p (wld s) = Some w" "clients w = (clients (wld s))(p := None)" "requests w = requests (wld s)"
    using loop_on_disconnect_run [OF _ c lk] i by (auto simp: sys_inv_def)
  have s': "s' = s\<lparr>wld := w, lpc := LIdle, closing := removeAll p (closing s)\<rparr>" using st l lk w(1) by simp
  show ?thesis by (rule project_callback [OF c _ _ l_close_end]) (use l m w in \<open>simp_all add: s' view_def\<close>)
qed

lemma timer_end_projects:
  assumes i: "sys_inv s" and st: "loop_step b64 (TimerEnd now) s = Step s'"
  shows "projects (TimerEnd now) s s'"
proof -
  have l: "lpc s = LTimer" using st by (cases "lpc s") simp_all
  then have lk: "storage_lock (wld s) = None" using st by (simp split: if_splits)
  then have m: "mpc s = MIdle" using i by (auto simp: sys_inv_def lock_ok_def split: if_splits)
  obtain ps w where w: "loop_on_timer now (wld s) = Some (map (\<lambda>p. (p, Effect UvClose)) ps, w)" "requests w = requests (wld s)"
    "\<forall>p. clients w p = map_option (\<lambda>c. fst (on_timer now c)) (clients (wld s) p)"
    "\<forall>p. p \<in> set ps \<longleftrightarrow> (\<exists>c. clients (wld s) p = Some c \<and> timer_expires now c)"
    using loop_on_timer_run [OF _ lk, of now] i unfolding sys_inv_def by blast
  have "loop_step b64 (TimerEnd now) s = effect_steps (map (\<lambda>p. (p, UvClose)) ps) (s\<lparr>wld := w, lpc := LIdle\<rparr>)"
    using l lk w(1) by (simp add: effects_of_def comp_def)
  then have s': "s' = s\<lparr>wld := w, lpc := LIdle, closing := rev ps @ closing s, reading := filter (\<lambda>r. r \<notin> set ps) (reading s)\<rparr>"
    using st by (simp add: effect_steps_close split: if_splits)
  have "local_step p (TimerEnd now) (clients (wld s) p) (view s p) (clients (wld s') p) (view s' p)" for p
  proof (cases "\<exists>c. clients (wld s) p = Some c \<and> timer_expires now c")
    case True
    then obtain c where c: "clients (wld s) p = Some c" "timer_expires now c" by blast
    have "view s' p = (view s p)\<lparr>v_closing := True, v_reading := False\<rparr>" using c w(2,4) l by (simp add: s' view_def)
    moreover have "clients (wld s') p = Some (c\<lparr>state := DISCONNECTING\<rparr>)"
      using c w(3) by (simp add: s' on_timer_def loop_disconnect_def)
    moreover have "v_pc (view s p) = MIdle" by (simp add: m)
    ultimately show ?thesis using c l_expire [OF refl c(2)] by simp
  next
    case False
    then have "p \<notin> set ps" using w(4) by blast
    then have "view s' p = view s p" using w(2) l by (simp add: s' view_def)
    moreover have "clients (wld s') p = clients (wld s) p"
      using False w(3) by (cases "clients (wld s) p") (simp_all add: s' on_timer_def)
    ultimately show ?thesis by (simp add: l_same)
  qed
  then show ?thesis by (simp add: projects_def)
qed

text \<open>Every step is a local step for every pointer.\<close>

lemma sys_projects:
  assumes "sys_inv s" "distinct (connecting s)" "sys_step b64 e s = Step s'"
  shows "projects e s s'"
proof (cases "of_main e")
  case True
  then show ?thesis using assms main_projects by (simp add: sys_step_def)
next
  case False
  then have st: "loop_step b64 e s = Step s'" using assms(3) by (simp add: sys_step_def)
  show ?thesis
  proof (cases e)
    case TimerStart
    then have "s' = s\<lparr>lpc := LTimer\<rparr>" "lpc s = LIdle" using st by (simp_all split: if_splits)
    then show ?thesis by (intro project_none) (simp_all add: view_def)
  next
    case (Async io)
    then show ?thesis using async_projects [OF assms(1)] st by blast
  next
    case (ConnectCallback now status p)
    then show ?thesis using connect_callback_projects [OF assms(1,2)] st by blast
  next
    case (CloseStart p)
    then show ?thesis using close_start_projects [OF assms(1)] st by blast
  next
    case CloseEnd
    then show ?thesis using close_end_projects [OF assms(1)] st by blast
  next
    case (ReadCallback a d n p)
    then show ?thesis using read_callback_projects [OF assms(1)] st by blast
  next
    case (TimerEnd now)
    then show ?thesis using timer_end_projects [OF assms(1)] st by blast
  qed (use False in \<open>simp_all add: of_main_def\<close>)
qed

end
