(* ===== verification/System_Calm.thy ===== *)
theory System_Calm
  imports System_Local
begin

text \<open>
  Orderly runs. The loop thread fails only in runs in which \<open>connect\<close> gives up while the attempt is
  undecided, or the loop thread closes a connection by itself while a message for it is on its way. In all
  other runs no step of either thread uses a deleted client or closes a handle twice.
\<close>

section \<open>Orderly steps\<close>

text \<open>A message is on its way to the client: a request is queued, or \<open>write\<close> has passed its test.\<close>

definition busy :: "nat \<Rightarrow> system \<Rightarrow> bool" where
  "busy p s \<longleftrightarrow> reqs_of p (requests (wld s)) \<noteq> []
     \<or> (case mpc s of MWritePut q d \<Rightarrow> q = p | MPostWrite q \<Rightarrow> q = p | _ \<Rightarrow> False)"

definition client_test :: "(client \<Rightarrow> bool) \<Rightarrow> nat \<Rightarrow> system \<Rightarrow> bool" where
  "client_test P p s \<longleftrightarrow> (case clients (wld s) p of None \<Rightarrow> False | Some c \<Rightarrow> P c)"

definition orderly :: "system \<Rightarrow> event \<Rightarrow> bool" where
  "orderly s e \<longleftrightarrow> (case e of
     Wake err \<Rightarrow> \<not> err \<or> (case mpc s of MWait p \<Rightarrow> \<not> client_test (\<lambda>c. state c = CONNECTING) p s | _ \<Rightarrow> True)
   | ReadCallback alloc_ok d n p \<Rightarrow> 0 \<le> n \<or> \<not> busy p s \<or> \<not> client_test (\<lambda>c. state c = CONNECTED) p s
   | TimerEnd now \<Rightarrow> list_all (\<lambda>(i, p). \<not> busy p s \<or> \<not> client_test (timer_expires now) p s) (client_map (wld s))
   | _ \<Rightarrow> True)"

section \<open>The invariant\<close>

definition sole :: "'a \<Rightarrow> 'a list \<Rightarrow> bool" where
  "sole t rs \<longleftrightarrow> rs = [t]"

lemma sole_simps [simp]:
  "\<not> sole t []" "sole t (x # xs) \<longleftrightarrow> x = t \<and> xs = []" "sole t (xs @ [x]) \<longleftrightarrow> xs = [] \<and> x = t"
  by (auto simp: sole_def)

text \<open>
  An attempt to connect is queued alone; a queued \<open>DISCONNECT\<close> is the last request; once the handle is
  being closed nothing is queued.
\<close>

definition flow :: "client_state \<Rightarrow> bool \<Rightarrow> bool \<Rightarrow> request_type list \<Rightarrow> bool" where
  "flow st closing_it connecting_it rs \<longleftrightarrow>
     (if connecting_it then st = CONNECTING \<and> \<not> closing_it \<and> rs = []
      else if CONNECT \<in> set rs then st = CONNECTING \<and> \<not> closing_it \<and> sole CONNECT rs
      else if closing_it then st = DISCONNECTING \<and> rs = []
      else if request_type.DISCONNECT \<in> set rs then st = DISCONNECTING \<and> request_type.DISCONNECT \<notin> set (butlast rs)
      else True)"

definition calm_client :: "client \<Rightarrow> view \<Rightarrow> bool" where
  "calm_client c v \<longleftrightarrow> flow (state c) (v_closing v) (v_connecting v) (v_reqs v)
     \<and> (case v_pc v of
          MPostDisconnect p \<Rightarrow> state c = DISCONNECTING \<and> \<not> v_closing v \<and> request_type.DISCONNECT \<notin> set (v_reqs v)
        | MWritePut p d \<Rightarrow> write_allowed c
        | MPostWrite p \<Rightarrow> write_allowed c
        | MDisconnect p \<Rightarrow> state c \<noteq> CONNECTING
        | _ \<Rightarrow> True)"

definition calm :: "client option \<Rightarrow> view \<Rightarrow> bool" where
  "calm co v \<longleftrightarrow> (case co of None \<Rightarrow> v_reqs v = [] | Some c \<Rightarrow> calm_client c v)"

definition calm_inv :: "system \<Rightarrow> bool" where
  "calm_inv s \<longleftrightarrow> distinct (connecting s) \<and> (\<forall>p. calm (clients (wld s) p) (view s p))"

lemma calm_simps [simp]: "calm None v \<longleftrightarrow> v_reqs v = []" "calm (Some c) v = calm_client c v"
  by (simp_all add: calm_def)

text \<open>The part of an orderly step that concerns one client.\<close>

definition orderly_at :: "nat \<Rightarrow> event \<Rightarrow> client \<Rightarrow> view \<Rightarrow> bool" where
  "orderly_at p e c v \<longleftrightarrow>
     (e = Wake True \<and> v_pc v = MWait p \<longrightarrow> state c \<noteq> CONNECTING)
     \<and> ((\<exists>a d n. e = ReadCallback a d n p \<and> n < 0) \<and> state c = CONNECTED \<longrightarrow>
          v_reqs v = [] \<and> (case v_pc v of MWritePut q d \<Rightarrow> False | MPostWrite q \<Rightarrow> False | _ \<Rightarrow> True))
     \<and> ((\<exists>now. e = TimerEnd now \<and> timer_expires now c) \<longrightarrow> v_reqs v = [])"

lemma orderly_local:
  assumes "sys_inv s" "orderly s e" "clients (wld s) p = Some c"
  shows "orderly_at p e c (view s p)"
  unfolding orderly_at_def
proof (intro conjI impI; (elim conjE exE)?)
  assume "e = Wake True" "v_pc (view s p) = MWait p"
  then have "mpc s = MWait p" by (simp add: pc_at_def split: if_splits)
  then show "state c \<noteq> CONNECTING"
    using assms(2,3) \<open>e = Wake True\<close> by (simp add: orderly_def client_test_def)
next
  fix a d n assume e: "e = ReadCallback a d n p" "n < 0" "state c = CONNECTED"
  then have "\<not> busy p s" using assms(2,3) by (simp add: orderly_def client_test_def)
  then show "v_reqs (view s p) = []" "case v_pc (view s p) of MWritePut q d \<Rightarrow> False | MPostWrite q \<Rightarrow> False | _ \<Rightarrow> True"
    by (auto simp: busy_def pc_at_def split: main_pc.splits)
next
  fix now assume e: "e = TimerEnd now" "timer_expires now c"
  have "map_find (client_map (wld s)) (client_id c) = Some p"
    using storage_ok_live [OF _ assms(3)] assms(1) by (simp add: sys_inv_def)
  from map_find_in [OF this] have "\<not> busy p s"
    using assms(2,3) e by (fastforce simp: orderly_def client_test_def list_all_iff)
  then show "v_reqs (view s p) = []" by (simp add: busy_def)
qed

section \<open>Preservation\<close>

text \<open>The part of \<open>live_ok\<close> that is used.\<close>

definition known :: "client \<Rightarrow> view \<Rightarrow> bool" where
  "known c v \<longleftrightarrow> v_alloc v \<and> (v_close v \<longrightarrow> v_closing v)
     \<and> (state c = CONNECTING \<longrightarrow> (case v_pc v of MWait p \<Rightarrow> True | MDisconnect p \<Rightarrow> True | _ \<Rightarrow> False))
     \<and> (case v_pc v of MConnect p h pt \<Rightarrow> v_reqs v = [] \<and> \<not> v_closing v \<and> \<not> v_connecting v | _ \<Rightarrow> True)"

lemma live_known: "live_ok c v \<Longrightarrow> known c v"
  by (cases "v_pc v") (simp_all add: known_def live_ok_def, blast)

text \<open>The invariant of one pointer through a local step.\<close>

lemma flow_changes:
  "flow DISCONNECTED False False [] \<Longrightarrow> flow CONNECTING False False [CONNECT]"
  "flow st x y rs \<Longrightarrow> st = CONNECTED \<Longrightarrow> flow DISCONNECTING x y rs"
  "flow DISCONNECTING False y rs \<Longrightarrow> request_type.DISCONNECT \<notin> set rs \<Longrightarrow> flow DISCONNECTING False y (rs @ [request_type.DISCONNECT])"
  "flow st x y rs \<Longrightarrow> st \<notin> {CONNECTING, DISCONNECTING} \<Longrightarrow> flow st x y (rs @ [WRITE])"
  "flow st x y (t # rs) \<Longrightarrow> t = UNDEFINED \<or> t = WRITE \<Longrightarrow> flow st x y rs"
  "flow st x y (CONNECT # rs) \<Longrightarrow> st = CONNECTING \<and> flow FAIL_CONNECT x y rs \<and> flow st x True rs"
  "flow st x y (request_type.DISCONNECT # rs) \<Longrightarrow> st = DISCONNECTING \<and> flow st True y rs"
  "flow st x True rs \<Longrightarrow> st = CONNECTING \<and> flow FAIL_CONNECT x False rs \<and> flow CONNECTED x False rs"
  "flow st x y [] \<Longrightarrow> st \<noteq> CONNECTING \<Longrightarrow> flow DISCONNECTING True False []"
  by (auto simp: flow_def butlast_append split: if_splits)

lemma flow_start: "flow st False False []"
  by (simp add: flow_def)

lemma calm_decided:
  assumes "calm_client c v" "known c v" "state c = CONNECTING" "state c' = FAIL_CONNECT \<or> state c' = CONNECTED"
    "flow (state c') (v_closing v') (v_connecting v') (v_reqs v')" "v_pc v' = v_pc v"
  shows "calm_client c' v'"
  using assms by (auto simp: calm_client_def known_def write_allowed_def split: main_pc.splits)

lemma calm_dropped:
  assumes "calm_client c v" "state c \<noteq> CONNECTING" "v_reqs v = []" "state c = CONNECTED \<or> v_pc v = MIdle"
    "case v_pc v of MWritePut q d \<Rightarrow> False | MPostWrite q \<Rightarrow> False | _ \<Rightarrow> True"
  shows "calm_client (c\<lparr>state := DISCONNECTING\<rparr>) (v\<lparr>v_closing := True, v_reading := False\<rparr>)"
proof -
  have "\<not> v_connecting v" using assms(1,2) by (auto simp: calm_client_def flow_def)
  moreover have "flow DISCONNECTING True False []" by (simp add: flow_def)
  ultimately show ?thesis using assms by (auto simp: calm_client_def split: main_pc.splits)
qed

lemma calm_local:
  assumes "local_step p e co v co' v'" "calm co v"
    "case co of None \<Rightarrow> dead_ok v | Some c \<Rightarrow> known c v \<and> orderly_at p e c v"
  shows "calm co' v'"
  using assms
proof (induction rule: local_step.induct)
  case (l_create v c co h pt)
  then have "co = None" by (cases co) (auto simp: known_def)
  then show ?case using l_create by (simp add: calm_client_def dead_ok_def flow_start)
next
  case (l_begin v h pt c c')
  then show ?case using flow_changes(1) [OF flow_start] by (simp add: calm_client_def known_def)
next
  case (l_give_up v c)
  have "state c \<noteq> CONNECTING" using l_give_up.hyps l_give_up.prems(2) unfolding orderly_at_def option.case by blast
  then show ?case using l_give_up.prems(1) l_give_up.hyps(1) by (simp add: calm_client_def)
next
  case (l_enter v m c)
  have "state c \<noteq> CONNECTING" using l_enter.prems(2) l_enter.hyps(1) by (simp add: known_def)
  then have "calm_client c (v\<lparr>v_pc := MDisconnect p\<rparr>)" "calm_client c (v\<lparr>v_pc := MRead p 0\<rparr>)" "calm_client c (v\<lparr>v_pc := MWrite p orig d\<rparr>)" for orig d
    using l_enter.prems(1) l_enter.hyps(1) by (simp_all add: calm_client_def)
  then show ?case using l_enter.hyps(2) by auto
next
  case (l_disconnect v c)
  have fl: "flow (state c) (v_closing v) (v_connecting v) (v_reqs v)" and st: "state c = CONNECTED"
    using l_disconnect.prems(1) l_disconnect.hyps by (simp_all add: calm_client_def)
  then have "\<not> v_closing v" "request_type.DISCONNECT \<notin> set (v_reqs v)" by (auto simp: flow_def split: if_splits)
  then show ?case using flow_changes(2) [OF fl st] by (simp add: calm_client_def)
next
  case (l_post_disconnect v c)
  then show ?case by (auto simp: calm_client_def intro: flow_changes(3))
next
  case (l_post_write v c)
  then have "write_allowed c" "state c \<noteq> CONNECTING" by (simp_all add: calm_client_def known_def)
  then have "state c \<notin> {CONNECTING, DISCONNECTING}" by (simp add: write_allowed_def)
  then show ?case using l_post_write by (auto simp: calm_client_def intro: flow_changes(4))
next
  case (l_handle v t rs c' c)
  have "flow (state c) (v_closing v) (v_connecting v) rs"
    using l_handle.prems(1) l_handle.hyps(1,2) flow_changes(5) [of "state c" "v_closing v" "v_connecting v" t rs]
    by (simp add: calm_client_def)
  moreover have "request_type.DISCONNECT \<in> set rs \<Longrightarrow> request_type.DISCONNECT \<in> set (v_reqs v)" by (simp add: l_handle.hyps(1))
  ultimately show ?case using l_handle.prems(1) l_handle.hyps(3)
    by (auto simp: calm_client_def write_allowed_def split: main_pc.splits)
next
  case (l_connect_fails v rs c' c)
  then have "state c = CONNECTING" "flow FAIL_CONNECT (v_closing v) (v_connecting v) rs"
    using flow_changes(6) [of "state c" "v_closing v" "v_connecting v" rs] by (simp_all add: calm_client_def)
  then show ?case using l_connect_fails calm_decided [of c v c'] by simp
next
  case (l_connect v rs c)
  note f = flow_changes(6) [of "state c" "v_closing v" "v_connecting v" rs]
  have "flow (state c) (v_closing v) (v_connecting v) (CONNECT # rs)"
    using l_connect.prems(1) l_connect.hyps(1) by (simp add: calm_client_def)
  then have "state c = CONNECTING" "flow (state c) (v_closing v) True rs" using f by blast+
  then show ?case using l_connect.prems by (simp add: calm_client_def known_def split: main_pc.splits)
next
  case (l_close v rs c)
  note f = flow_changes(7) [of "state c" "v_closing v" "v_connecting v" rs]
  have "flow (state c) (v_closing v) (v_connecting v) (request_type.DISCONNECT # rs)"
    using l_close.prems(1) l_close.hyps(1) by (simp add: calm_client_def)
  then have "state c = DISCONNECTING" "flow (state c) True (v_connecting v) rs" using f by blast+
  then show ?case using l_close.prems(1) l_close.hyps(1) by (simp add: calm_client_def split: main_pc.splits)
next
  case (l_failed v c' c)
  then have "state c = CONNECTING" "flow FAIL_CONNECT (v_closing v) False (v_reqs v)"
    using flow_changes(8) [of "state c" "v_closing v" "v_reqs v"] by (simp_all add: calm_client_def)
  then show ?case using l_failed calm_decided [of c v c'] by simp
next
  case (l_connected v c c')
  then have "flow CONNECTED (v_closing v) False (v_reqs v)"
    using flow_changes(8) [of "state c" "v_closing v" "v_reqs v"] by (simp add: calm_client_def)
  then show ?case using l_connected calm_decided [of c v c'] by simp
next
  case (l_close_end v c)
  then have "v_closing v" by (simp add: known_def)
  then show ?case using l_close_end.prems(1) by (simp add: calm_client_def flow_def split: if_splits)
next
  case (l_eof a d n c v)
  have "v_reqs v = []" "case v_pc v of MWritePut q d \<Rightarrow> False | MPostWrite q \<Rightarrow> False | _ \<Rightarrow> True"
    using l_eof.hyps l_eof.prems(2) unfolding orderly_at_def option.case by blast+
  then show ?case using l_eof.prems(1) l_eof.hyps(3) calm_dropped [of c v] by simp
next
  case (l_expire now c v)
  have "v_reqs v = []" using l_expire.hyps l_expire.prems(2) unfolding orderly_at_def option.case by blast
  moreover have "state c \<noteq> CONNECTING" using l_expire.prems(2) l_expire.hyps(3) by (simp add: known_def)
  ultimately show ?case using l_expire.prems(1) l_expire.hyps(3) calm_dropped [of c v] by simp
qed (auto simp: calm_client_def write_allowed_def split: main_pc.splits)

section \<open>The system\<close>

text \<open>A request in flight is only added when \<open>CONNECT\<close> is handled.\<close>

lemma effect_steps_connecting:
  "effect_steps es s = Step s' \<Longrightarrow> list_all (\<lambda>(p, e). \<not> is_connect e) es \<Longrightarrow> connecting s' = connecting s"
proof (induction es arbitrary: s)
  case (Cons pe es)
  obtain p e where pe: "pe = (p, e)" by (cases pe)
  then obtain s1 where s1: "effect_step p e s = Step s1" "effect_steps es s1 = Step s'"
    using Cons.prems(1) by (auto split: result.splits)
  have "connecting s1 = connecting s" using s1(1) Cons.prems(2) pe by (cases e) (auto split: if_splits)
  then show ?case using Cons.IH [OF s1(2)] Cons.prems(2) by simp
qed simp

lemma async_connecting:
  assumes "loop_step b64 (Async io) s = Step s'"
  shows "connecting s' = connecting s \<or> (\<exists>p q. requests (wld s) = (CONNECT, p) # q \<and> connecting s' = p # connecting s)"
proof -
  have l: "lpc s = LIdle" using assms by (simp split: if_splits)
  obtain t p q where rq: "requests (wld s) = (t, p) # q" using assms l by (cases "requests (wld s)") auto
  show ?thesis
  proof (cases t)
    case CONNECT
    obtain c where c: "clients (wld s) p = Some c"
      using assms l rq CONNECT by (cases "clients (wld s) p") (auto simp: on_client_def)
    have "effect_steps (submitted (map (\<lambda>e. (p, e)) (snd (loop_connect (conn io) c))))
        (s\<lparr>wld := took q p (fst (loop_connect (conn io) c)) (wld s)\<rparr>) = Step s'"
      using assms l rq CONNECT by (simp add: on_client_Some [where w = "wld s\<lparr>requests := q\<rparr>", simplified, OF c])
    then show ?thesis
      using loop_connect_state [of "conn io" c p "s\<lparr>wld := took q p (fst (loop_connect (conn io) c)) (wld s)\<rparr>"] rq CONNECT by auto
  next
    case DISCONNECT
    then show ?thesis using assms l rq
      by (auto simp: loop_disconnect_def submitted_def on_client_def split: option.splits if_splits)
  next
    case WRITE
    then show ?thesis using assms l rq by (auto simp: submitted_def split: option.splits)
  next
    case UNDEFINED
    then show ?thesis using assms l rq by (auto simp: submitted_def)
  qed
qed

lemma step_connecting:
  assumes "sys_inv s" "sys_step b64 e s = Step s'"
  shows "connecting s' = connecting s \<or> (\<exists>p. connecting s' = remove1 p (connecting s))
    \<or> (\<exists>p q. requests (wld s) = (CONNECT, p) # q \<and> connecting s' = p # connecting s)"
proof (cases "of_main e")
  case True
  then have "main_step e s = Step s'" using assms(2) by (simp add: sys_step_def)
  then have "connecting s' = connecting s"
    by (cases e) (auto simp: enter_def member_def split: if_splits option.splits main_pc.splits connect_next.splits prod.splits)
  then show ?thesis by simp
next
  case False
  then have st: "loop_step b64 e s = Step s'" using assms(2) by (simp add: sys_step_def)
  show ?thesis
  proof (cases e)
    case (Async io)
    then show ?thesis using async_connecting st by blast
  next
    case (ConnectCallback now status p)
    then obtain c where "clients (wld s) p = Some c"
      using st by (cases "clients (wld s) p") (auto simp: loop_on_connect_def on_client_def split: if_splits)
    then have "connecting s' = remove1 p (connecting s)"
      using st ConnectCallback
      by (auto simp: loop_on_connect_def on_client_Some on_connect_def effects_of_def split: if_splits)
    then show ?thesis by blast
  next
    case (ReadCallback a d n p)
    then obtain as w where "loop_on_read a d n p (wld s) = Some (as, w)" "effect_steps (effects_of as) (s\<lparr>wld := w\<rparr>) = Step s'"
      using st by (auto split: if_splits option.splits)
    moreover from this(1) have "list_all (\<lambda>(p, e). \<not> is_connect e) (effects_of as)"
      by (auto simp: loop_on_read_def on_client_def on_read_def loop_disconnect_def split: option.splits prod.splits if_splits)
    ultimately show ?thesis using effect_steps_connecting by fastforce
  next
    case (TimerEnd now)
    then obtain as w where "loop_on_timer now (wld s) = Some (as, w)" "effect_steps (effects_of as) (s\<lparr>wld := w, lpc := LIdle\<rparr>) = Step s'"
      using st by (auto split: if_splits option.splits loop_pc.splits)
    moreover from this(1) have "list_all (\<lambda>(p, e). \<not> is_connect e) (effects_of as)"
      by (auto simp: loop_on_timer_def effects_of_def bind_eq_Some_conv list_all_iff)
    ultimately show ?thesis using effect_steps_connecting by fastforce
  qed (use st False in \<open>auto simp: of_main_def split: if_splits option.splits loop_pc.splits\<close>)
qed

lemma calm_inv_step:
  assumes "sys_inv s" "calm_inv s" "orderly s e" "sys_step b64 e s = Step s'"
  shows "calm_inv s'"
proof -
  have d: "distinct (connecting s)" and c: "calm (clients (wld s) p) (view s p)" for p using assms(2) by (simp_all add: calm_inv_def)
  have "p \<notin> set (connecting s)" if "requests (wld s) = (CONNECT, p) # q" for p q
  proof
    assume p: "p \<in> set (connecting s)"
    then obtain k where "clients (wld s) p = Some k" using mem_connecting [OF assms(1)] by blast
    then show False using c [of p] p that by (simp add: calm_client_def flow_def)
  qed
  then have "distinct (connecting s')" using step_connecting [OF assms(1,4)] d by auto
  moreover have "calm (clients (wld s') p) (view s' p)" for p
  proof (rule calm_local [OF _ c])
    show "local_step p e (clients (wld s) p) (view s p) (clients (wld s') p) (view s' p)"
      using sys_projects [OF assms(1) d assms(4)] by (simp add: projects_def)
    show "case clients (wld s) p of None \<Rightarrow> dead_ok (view s p) | Some c \<Rightarrow> known c (view s p) \<and> orderly_at p e c (view s p)"
      using inv_dead [OF assms(1)] live_known [OF inv_live [OF assms(1)]] orderly_local [OF assms(1,3)]
      by (simp split: option.split)
  qed
  ultimately show ?thesis by (simp add: calm_inv_def)
qed

lemma calm_inv_start: "calm_inv (start_system n)"
  by (simp add: calm_inv_def start_system_def storage_new_def view_def)

interpretation calm: invariant_pair orderly "sys_next b64" "start_system n" sys_inv calm_inv
  for b64 :: "string \<Rightarrow> bytes option" and n :: nat
  by unfold_locales (use sys_inv_start calm_inv_start sys_inv_step calm_inv_step in \<open>auto simp only: sys_next_Some\<close>)

section \<open>No failure\<close>

lemma effect_steps_closed: "effect_steps es s = ClosedTwice \<Longrightarrow> \<exists>p. (p, UvClose) \<in> set es"
proof (induction es arbitrary: s)
  case (Cons pe es)
  obtain p e where pe: "pe = (p, e)" by (cases pe)
  show ?case
  proof (cases "effect_step p e s")
    case ClosedTwice
    then show ?thesis using pe by (cases e) (auto split: if_splits)
  qed (use Cons pe in auto)
qed simp

lemma async_closed_twice:
  assumes st: "loop_step b64 (Async io) s = ClosedTwice"
  shows "\<exists>p c q. p \<in> set (closing s) \<and> clients (wld s) p = Some c \<and> requests (wld s) = (request_type.DISCONNECT, p) # q"
proof -
  have l: "lpc s = LIdle" using st by (simp split: if_splits)
  obtain t p q where rq: "requests (wld s) = (t, p) # q" using st l by (cases "requests (wld s)") auto
  obtain c where c: "clients (wld s) p = Some c"
    using st l rq by (cases "clients (wld s) p"; cases t) (auto simp: on_client_def submitted_def)
  note run = on_client_Some [where w = "wld s\<lparr>requests := q\<rparr>", simplified, OF c]
  show ?thesis
  proof (cases t)
    case CONNECT
    then have "effect_steps (submitted (map (\<lambda>e. (p, e)) (snd (loop_connect (conn io) c))))
        (s\<lparr>wld := took q p (fst (loop_connect (conn io) c)) (wld s)\<rparr>) = ClosedTwice"
      using st l rq by (simp add: run)
    then show ?thesis
      using loop_connect_state [of "conn io" c p "s\<lparr>wld := took q p (fst (loop_connect (conn io) c)) (wld s)\<rparr>"] by auto
  next
    case DISCONNECT
    then have "p \<in> set (closing s)" using st l rq by (simp add: run loop_disconnect_def submitted_def split: if_splits)
    then show ?thesis using c rq DISCONNECT by blast
  qed (use st l rq in \<open>simp_all add: run submitted_def\<close>)
qed

lemma timer_closed_twice:
  assumes i: "sys_inv s" and st: "loop_step b64 (TimerEnd now) s = ClosedTwice"
  shows "\<exists>p c. p \<in> set (closing s) \<and> clients (wld s) p = Some c \<and> timer_expires now c"
proof -
  have l: "lpc s = LTimer" and lk: "storage_lock (wld s) = None"
    using st by (auto split: loop_pc.splits if_splits)
  obtain ps w where w: "loop_on_timer now (wld s) = Some (map (\<lambda>p. (p, Effect UvClose)) ps, w)" "distinct ps"
    "\<forall>p. p \<in> set ps \<longleftrightarrow> (\<exists>c. clients (wld s) p = Some c \<and> timer_expires now c)"
    using loop_on_timer_run [OF _ lk, of now] i unfolding sys_inv_def by blast
  have "loop_step b64 (TimerEnd now) s = effect_steps (map (\<lambda>p. (p, UvClose)) ps) (s\<lparr>wld := w, lpc := LIdle\<rparr>)"
    using l lk w(1) by (simp add: effects_of_def comp_def)
  then obtain p where "p \<in> set ps" "p \<in> set (closing s)"
    using st w(2) by (auto simp: effect_steps_close split: if_splits)
  then show ?thesis using w(3) by blast
qed

lemma closed_twice:
  assumes i: "sys_inv s" and st: "loop_step b64 e s = ClosedTwice"
  shows "\<exists>p c. p \<in> set (closing s) \<and> clients (wld s) p = Some c
    \<and> ((\<exists>q. requests (wld s) = (request_type.DISCONNECT, p) # q) \<or> (\<exists>now. timer_expires now c))"
proof (cases e)
  case (Async io)
  then show ?thesis using async_closed_twice st by blast
next
  case (ConnectCallback now status p)
  then obtain as w where "loop_on_connect now status p (wld s) = Some (as, w)"
    "effect_steps (effects_of as) (s\<lparr>wld := w, connecting := remove1 p (connecting s)\<rparr>) = ClosedTwice"
    using st by (auto split: if_splits option.splits)
  then show ?thesis using effect_steps_closed
    by (fastforce simp: loop_on_connect_def on_client_def on_connect_def effects_of_def split: option.splits prod.splits if_splits)
next
  case (ReadCallback a d n p)
  then have l: "lpc s = LIdle" "p \<in> set (reading s)" using st by (simp_all split: if_splits)
  then obtain c where c: "clients (wld s) p = Some c" "live_ok c (view s p)" using mem_connecting [OF i] by blast
  then have nc: "p \<notin> set (closing s)" using l by (auto simp: live_ok_def)
  have "loop_step b64 e s \<noteq> ClosedTwice"
    using ReadCallback l nc by (auto simp: loop_on_read_def on_client_Some [OF c(1)] on_read_def loop_disconnect_def)
  then show ?thesis using st by blast
next
  case (TimerEnd now)
  then show ?thesis using timer_closed_twice [OF i] st by blast
qed (use st in \<open>auto split: if_splits option.splits loop_pc.splits\<close>)

text \<open>
  C5. In an orderly run no step of either thread uses a deleted client and no step closes a handle twice:
  the loop thread can only fail after \<open>connect\<close> has given up on an undecided attempt, or after the loop
  thread has closed a connection for which a message was on its way.
\<close>

theorem orderly_safe:
  assumes "reaches orderly (sys_next b64) (start_system n) s"
  shows "sys_step b64 e s \<noteq> Freed \<and> sys_step b64 e s \<noteq> ClosedTwice"
proof -
  have i: "sys_inv s" and calm: "calm (clients (wld s) p) (view s p)" for p
    using calm.reaches_both [OF assms] by (simp_all add: calm_inv_def)
  show ?thesis
  proof (cases "of_main e")
    case True
    then show ?thesis using main_step_safe [OF i, of e] by (auto simp: sys_step_def)
  next
    case False
    have "sound (loop_step b64 e s)"
    proof (rule loop_step_sound [OF i])
      fix t p q assume "requests (wld s) = (t, p) # q"
      then show "clients (wld s) p \<noteq> None" using calm [of p] by (cases "clients (wld s) p") auto
    qed
    moreover have "loop_step b64 e s \<noteq> ClosedTwice"
    proof
      assume "loop_step b64 e s = ClosedTwice"
      then obtain p c where "p \<in> set (closing s)" "clients (wld s) p = Some c"
        "(\<exists>q. requests (wld s) = (request_type.DISCONNECT, p) # q) \<or> (\<exists>now. timer_expires now c)"
        using closed_twice [OF i] by blast
      then show False using calm [of p]
        by (auto simp: calm_client_def flow_def timer_expires_def split: if_splits)
    qed
    ultimately show ?thesis using False by (auto simp: sys_step_def)
  qed
qed

text \<open>A session is opened, a message is posted and written, the backend answers, the session is closed.\<close>

definition session_run :: "event list" where
  "session_run = open_run @ [Post ''a'' [] ''QQ'', WriteTest exact_match, WritePut, PostWrite, Unlock, Async good_io,
     ReadCallback True [1, 2] 2 7, TimerStart, TimerEnd 8, Poll ''a'', Read 9 True, Read 10 True, Unlock, Disconnect ''a'', DisconnectBegin,
     PostDisconnect, Unlock]"

lemma session_orderly:
  "case run_allowed orderly (sys_next no_b64) session_run (start_system 1) of None \<Rightarrow> False
   | Some s \<Rightarrow> requests (wld s) \<noteq> []"
  by code_simp

theorem orderly_safe_witness:
  "\<exists>s. reaches orderly (sys_next no_b64) (start_system 1) s \<and> requests (wld s) \<noteq> []
    \<and> (sys_step no_b64 (Async good_io) s \<noteq> Freed \<and> sys_step no_b64 (Async good_io) s \<noteq> ClosedTwice)"
proof -
  obtain s where s: "run_allowed orderly (sys_next no_b64) session_run (start_system 1) = Some s" "requests (wld s) \<noteq> []"
    using session_orderly by (cases "run_allowed orderly (sys_next no_b64) session_run (start_system 1)") auto
  have "reaches orderly (sys_next no_b64) (start_system 1) s" by (rule run_allowed_reaches [OF s(1) reaches.reaches_init])
  then show ?thesis using orderly_safe [of no_b64 1 s "Async good_io"] s(2) by blast
qed

end
