(* ===== verification/Server_Run.thy ===== *)
theory Server_Run
  imports Server_Poll
begin

text \<open>
  The handlers that nothing interrupts, \<open>onDisconnect\<close> and \<open>onPost\<close>, answer exactly once on every
  branch and give the mutex of the table back. The handlers during which the loop thread runs follow in
  \<open>System_Server\<close>.
\<close>

section \<open>The answer to one request\<close>

definition answered :: "world \<Rightarrow> world option \<Rightarrow> bool" where
  "answered w r \<longleftrightarrow> (\<exists>w' a. r = Some w' \<and> storage_ok w' \<and> storage_lock w' = None \<and> max_clients w' = max_clients w
     \<and> responses w' = responses w @ [a])"

lemma respond_max: "max_clients (respond code w) = max_clients w" "max_clients (respond_body code body w) = max_clients w"
  by (simp_all add: respond_def respond_body_def)

lemma answered_respond:
  assumes "storage_ok w'" "storage_lock w' = None" "max_clients w' = max_clients w" "responses w' = responses w"
  shows "answered w (Some (respond code w'))" "answered w (Some (respond_body code body w'))"
  using assms by (simp_all add: answered_def frame_simps respond_max)

text \<open>What holds of the world when such a section ends, and the answer that follows.\<close>

lemma unlock_answer:
  assumes "storage_ok w1" "keeps (locked w) w1"
  shows "unlock_storage MainThread w1 = Some (w1\<lparr>storage_lock := None\<rparr>)"
    "answered w (Some (respond code (w1\<lparr>storage_lock := None\<rparr>)))"
    "answered w (Some (respond_body code body (w1\<lparr>storage_lock := None\<rparr>)))"
  using assms by (auto simp: keeps_def locked_def frame_simps intro!: answered_respond)

lemma get_find: "storage_get i w = Some p \<longleftrightarrow> map_find (client_map w) i = Some p"
  by (simp add: storage_get_def)

lemma disconnect_answered:
  assumes "storage_ok w" "storage_lock w = None"
  shows "answered w (onDisconnect req w)"
proof -
  note l = locked_facts [OF assms(1,2)]
  let ?cid = "getSessionId (getQueries req)"
  show ?thesis
  proof (cases "?cid = [] \<or> storage_get ?cid w = None")
    case True
    then show ?thesis using assms l by (auto simp: onDisconnect_def Let_def intro!: answered_respond)
  next
    case False
    then obtain p where p: "storage_get ?cid w = Some p" by auto
    then obtain w1 where w1: "client_disconnect p (locked w) = Some w1" "storage_ok w1" "keeps (locked w) w1"
      using client_disconnect_keeps [of "locked w" ?cid p] assms l by (auto simp: get_find)
    show ?thesis using False p w1(1) l unlock_answer [OF w1(2,3)] by (simp add: onDisconnect_def Let_def)
  qed
qed

lemma client_write_keeps:
  assumes "storage_ok w" "map_find (client_map w) cid = Some p"
  shows "\<exists>n w'. client_write d p w = Some (n, w') \<and> storage_ok w' \<and> keeps w w'"
proof -
  have id: "client_id (fst ((\<lambda>c. (write_put d c, ())) c)) = client_id c" for c by (simp add: write_put_def)
  obtain c where c: "clients w p = Some c" using storage_ok_find [OF assms] by blast
  obtain w1 where "on_client p (\<lambda>c. (write_put d c, ())) w = Some ((), w1)" "storage_ok w1" "keeps w w1"
    using on_client_keeps [where f = "\<lambda>c. (write_put d c, ())", OF assms id] by auto
  then show ?thesis using assms(1) c keeps_trans [OF _ keeps_execute]
    by (auto simp: client_write_def execute_session)
qed

lemma post_answered:
  assumes "storage_ok w" "storage_lock w = None" "getOrigin req \<noteq> None"
  shows "answered w (onPost s req w)"
proof -
  note l = locked_facts [OF assms(1,2)]
  let ?cid = "getSessionId (getQueries req)" and ?d = "getData (getQueries req)"
  obtain orig where o: "getOrigin req = Some orig" using assms(3) by blast
  show ?thesis
  proof (cases "?cid = [] \<or> storage_get ?cid w = None")
    case True
    then show ?thesis using assms l by (auto simp: onPost_def Let_def intro!: answered_respond)
  next
    case False
    then obtain p where p: "storage_get ?cid w = Some p" by auto
    obtain c where c: "clients w p = Some c" using storage_ok_find [OF assms(1)] p by (auto simp: get_find)
    obtain n w1 where w1: "client_write ?d p (locked w) = Some (n, w1)" "storage_ok w1" "keeps (locked w) w1"
      using client_write_keeps [of "locked w" ?cid p ?d] assms l p by (auto simp: get_find)
    show ?thesis using False p c o w1(1) l unlock_answer [OF w1(2,3)] assms
      by (auto simp: onPost_def Let_def intro!: answered_respond)
  qed
qed

end
