(* ===== verification/System_Handlers.thy ===== *)
theory System_Handlers
  imports System_Props Server_Run
begin

text \<open>
  The handlers of \<open>Server\<close> are runs of \<open>System\<close>: what a handler does to the world, apart from what it
  prints, is what a sequence of steps of the main thread does, with the steps of the loop thread that the
  surroundings of the handler stand for in between. So the worlds in which requests are answered are
  worlds of reachable states, and the properties of the two threads hold in them.
\<close>

section \<open>Runs\<close>

definition leads :: "(string \<Rightarrow> bytes option) \<Rightarrow> system \<Rightarrow> system \<Rightarrow> bool" where
  "leads b64 s s' \<longleftrightarrow> (\<exists>es. run_events (sys_next b64) es s = Some s')"

lemma leads_refl: "leads b64 s s"
  unfolding leads_def by (rule exI [of _ "[]"]) simp

lemma leads_sys: "sys_step b64 e s = Step s1 \<Longrightarrow> leads b64 s1 s' \<Longrightarrow> leads b64 s s'"
  unfolding leads_def by (elim exE, rule exI [of _ "e # es" for es]) (simp add: sys_next_def)

lemma leads_step: "main_step e s = Step s1 \<Longrightarrow> of_main e \<Longrightarrow> leads b64 s1 s' \<Longrightarrow> leads b64 s s'"
  by (rule leads_sys [of b64 e]) (simp_all add: sys_step_def)

lemma leads_trans:
  assumes "leads b64 s s1" "leads b64 s1 s2"
  shows "leads b64 s s2"
proof -
  obtain es fs where "run_events (sys_next b64) es s = Some s1" "run_events (sys_next b64) fs s1 = Some s2"
    using assms unfolding leads_def by blast
  then have "run_events (sys_next b64) (es @ fs) s = Some s2" by (simp add: run_events_append)
  then show ?thesis unfolding leads_def by blast
qed

lemma leads_reachable: "sys_reachable b64 n s \<Longrightarrow> leads b64 s s' \<Longrightarrow> sys_reachable b64 n s'"
  unfolding leads_def by (blast intro: run_events_reaches)

text \<open>Runs of the loop thread alone. They print nothing and leave the main thread where it is.\<close>

definition loop_leads :: "(string \<Rightarrow> bytes option) \<Rightarrow> system \<Rightarrow> system \<Rightarrow> bool" where
  "loop_leads b64 s s' \<longleftrightarrow> (\<exists>es. list_all (\<lambda>e. \<not> of_main e) es \<and> run_events (sys_next b64) es s = Some s')"

lemma loop_leads_leads: "loop_leads b64 s s' \<Longrightarrow> leads b64 s s'"
  unfolding loop_leads_def leads_def by blast

lemma on_client_fields: "on_client p f w = Some (r, w') \<Longrightarrow> responses w' = responses w"
  by (auto simp: on_client_def split: option.splits prod.splits)

lemma timer_loop_fields: "timer_loop now it w = Some (ps, w') \<Longrightarrow> responses w' = responses w"
proof (induction now it w arbitrary: ps rule: timer_loop.induct)
  case (2 now cid p it w)
  then obtain es w1 qs where "on_client p (on_timer now) w = Some (es, w1)" "timer_loop now it w1 = Some (qs, w')"
    by (auto simp: bind_eq_Some_conv)
  then show ?case using "2.IH" on_client_fields by fastforce
qed simp

lemma handle_request_fields: "handle_request b64 io r w = Some (as, w') \<Longrightarrow> responses w' = responses w"
  by (cases "(b64, io, r, w)" rule: handle_request.cases) (auto dest: on_client_fields)

lemma storage_destroy_fields: "storage_destroy cid w = Some w' \<Longrightarrow> responses w' = responses w"
  by (auto simp: storage_destroy_def split: if_splits option.splits)

lemma loop_step_fields: "loop_step b64 e s = Step s' \<Longrightarrow> responses (wld s') = responses (wld s)"
  by (cases e)
    (auto simp: loop_on_connect_def loop_on_read_def loop_on_disconnect_def loop_on_timer_def storage_on_timer_def
      lock_storage_def unlock_storage_def bind_eq_Some_conv
      dest!: effect_steps_world handle_request_fields on_client_fields storage_destroy_fields timer_loop_fields
      split: if_splits option.splits loop_pc.splits prod.splits)

lemma loop_run_fields:
  "list_all (\<lambda>e. \<not> of_main e) es \<Longrightarrow> run_events (sys_next b64) es s = Some s' \<Longrightarrow>
   mpc s' = mpc s \<and> responses (wld s') = responses (wld s)"
proof (induction es arbitrary: s)
  case (Cons e es)
  then obtain s1 where "loop_step b64 e s = Step s1" "run_events (sys_next b64) es s1 = Some s'"
    by (auto simp: sys_next_Some sys_step_def split: option.splits)
  then show ?case using Cons loop_step_mpc loop_step_fields by fastforce
qed simp

lemma loop_leads_fields: "loop_leads b64 s s' \<Longrightarrow> mpc s' = mpc s \<and> responses (wld s') = responses (wld s)"
  unfolding loop_leads_def using loop_run_fields by blast

section \<open>Served requests\<close>

text \<open>The steps do not print; a world with one more answer is what a handler returns.\<close>

definition answers :: "world \<Rightarrow> world \<Rightarrow> bool" where
  "answers w w' \<longleftrightarrow> (\<exists>a. w' = w\<lparr>responses := responses w @ [a]\<rparr>)"

lemma answers_respond [simp]: "answers w (respond code w)" "answers w (respond_body code body w)"
  by (auto simp: answers_def respond_def respond_body_def)

definition served :: "(string \<Rightarrow> bytes option) \<Rightarrow> system \<Rightarrow> world \<Rightarrow> bool" where
  "served b64 s w' \<longleftrightarrow> (\<exists>s'. leads b64 s s' \<and> mpc s' = MIdle \<and> responses (wld s') = responses (wld s) \<and> answers (wld s') w')"

lemma served_same: "mpc s = MIdle \<Longrightarrow> answers (wld s) w' \<Longrightarrow> served b64 s w'"
  unfolding served_def by (rule exI [of _ s]) (simp add: leads_refl)

text \<open>
  From the state \<open>s1\<close>, which is inside a section under the mutex, the main thread comes to where the
  mutex is released; \<open>w'\<close> is the world then, with the answer.
\<close>

definition ends :: "(string \<Rightarrow> bytes option) \<Rightarrow> system \<Rightarrow> world \<Rightarrow> world \<Rightarrow> bool" where
  "ends b64 s1 w w' \<longleftrightarrow> (\<exists>t w3. leads b64 s1 t \<and> mpc t = MUnlock \<and> unlock_storage MainThread (wld t) = Some w3
     \<and> responses (wld t) = responses w \<and> answers w3 w')"

lemma endsI:
  assumes "leads b64 s1 t" "mpc t = MUnlock" "unlock_storage MainThread (wld t) = Some w3" "responses (wld t) = responses w" "answers w3 w'"
  shows "ends b64 s1 w w'"
  using assms unfolding ends_def by blast

lemma unlock_fields: "unlock_storage t w = Some w' \<Longrightarrow> responses w' = responses w"
  by (auto simp: unlock_storage_def split: if_splits)

lemma ends_served:
  assumes "ends b64 s1 (wld s) w'" "main_step ev s = Step s1" "of_main ev"
  shows "served b64 s w'"
proof -
  obtain t w3 where t: "leads b64 s1 t" "mpc t = MUnlock" "unlock_storage MainThread (wld t) = Some w3"
    "responses (wld t) = responses (wld s)" "answers w3 w'"
    using assms(1) unfolding ends_def by blast
  have "leads b64 t (t\<lparr>wld := w3, mpc := MIdle\<rparr>)"
    by (rule leads_step [of Unlock, OF _ _ leads_refl]) (use t(2,3) in \<open>simp_all add: of_main_def\<close>)
  then have "leads b64 s (t\<lparr>wld := w3, mpc := MIdle\<rparr>)"
    using leads_step [OF assms(2,3) leads_trans [OF t(1)]] by simp
  then show ?thesis using t(4,5) unlock_fields [OF t(3)] unfolding served_def by fastforce
qed

text \<open>Entering a handler.\<close>

lemma enter_step:
  assumes "mpc s = MIdle" "lock_storage MainThread (wld s) = Some w"
  shows "enter cid pc s = Step (s\<lparr>wld := w, mpc := (case storage_get cid w of None \<Rightarrow> MUnlock | Some p \<Rightarrow> pc p)\<rparr>)"
  using assms by (simp add: enter_def)

lemma lock_fields: "lock_storage t w = Some w' \<Longrightarrow> responses w' = responses w"
  by (auto simp: lock_storage_def split: if_splits)

lemma execute_fields: "responses (loop_execute t p w) = responses w"
  by (simp add: loop_execute_def)

lemma ends_gone:
  assumes "lock_storage MainThread w = Some w1" "unlock_storage MainThread w1 = Some w3" "answers w3 w'"
  shows "ends b64 (s\<lparr>wld := w1, mpc := MUnlock\<rparr>) w w'"
  by (rule endsI [OF leads_refl, where ?w3.0 = w3]) (use assms lock_fields [OF assms(1)] in simp_all)

section \<open>The handlers\<close>

text \<open>\<open>disconnect\<close> of a client.\<close>

lemma client_disconnect_leads:
  assumes "mpc s = MDisconnect p" "client_disconnect p (wld s) = Some w2"
  shows "leads b64 s (s\<lparr>wld := w2, mpc := MUnlock\<rparr>)" "responses w2 = responses (wld s)"
proof -
  obtain post w0 where o: "on_client p disconnect_begin (wld s) = Some (post, w0)"
    "w2 = (if post then loop_execute DISCONNECT p w0 else w0)"
    using assms(2) by (auto simp: client_disconnect_def bind_eq_Some_conv)
  have a: "main_step DisconnectBegin s = Step (s\<lparr>wld := w0, mpc := (if post then MPostDisconnect p else MUnlock)\<rparr>)"
    using o assms(1) by (simp add: member_def)
  have b: "leads b64 (s\<lparr>wld := w0, mpc := (if post then MPostDisconnect p else MUnlock)\<rparr>) (s\<lparr>wld := w2, mpc := MUnlock\<rparr>)"
    using o(2) by (cases post) (auto simp: of_main_def leads_refl intro!: leads_step [of PostDisconnect, OF _ _ leads_refl])
  show "leads b64 s (s\<lparr>wld := w2, mpc := MUnlock\<rparr>)"
    by (rule leads_step [OF a _ b]) (simp add: of_main_def)
  show "responses w2 = responses (wld s)" using o on_client_fields [OF o(1)] by (simp add: execute_fields)
qed

lemma disconnect_run:
  assumes m: "mpc s = MIdle" and h: "onDisconnect req (wld s) = Some w'"
  shows "served b64 s w'"
proof (cases "getSessionId (getQueries req) = []")
  case True
  then have "answers (wld s) w'" using h by (auto simp: onDisconnect_def)
  with m show ?thesis by (rule served_same)
next
  case False
  let ?cid = "getSessionId (getQueries req)"
  obtain w1 w2 w3 where w: "lock_storage MainThread (wld s) = Some w1"
    "(case storage_get ?cid w1 of Some p \<Rightarrow> client_disconnect p w1 | None \<Rightarrow> Some w1) = Some w2"
    "unlock_storage MainThread w2 = Some w3" "answers w3 w'"
    using h False by (auto simp: onDisconnect_def Let_def bind_eq_Some_conv)
  have "ends b64 (s\<lparr>wld := w1, mpc := (case storage_get ?cid w1 of None \<Rightarrow> MUnlock | Some p \<Rightarrow> MDisconnect p)\<rparr>) (wld s) w'"
  proof (cases "storage_get ?cid w1")
    case None
    then show ?thesis using w ends_gone [OF w(1)] by simp
  next
    case (Some p)
    let ?t = "s\<lparr>wld := w1, mpc := MDisconnect p\<rparr>"
    have "client_disconnect p (wld ?t) = Some w2" using w(2) Some by simp
    from client_disconnect_leads [OF _ this] show ?thesis
      using Some w(3,4) lock_fields [OF w(1)] by (intro endsI [where t = "s\<lparr>wld := w2, mpc := MUnlock\<rparr>"]) simp_all
  qed
  then show ?thesis by (rule ends_served [where ev = "Disconnect ?cid"]) (simp_all add: enter_step [OF m w(1)] of_main_def)
qed

text \<open>The test of \<open>onPost\<close> and \<open>write\<close>, and what follows when the message is accepted.\<close>

lemma client_write_leads:
  assumes m: "mpc s = MWrite p orig d" and c: "clients (wld s) p = Some c"
    and ok: "isAllowOrigin match_of orig (allow_origins c) \<and> d \<noteq> [] \<and> write_allowed c"
    and w: "w2 = loop_execute WRITE p ((wld s)\<lparr>clients := (clients (wld s))(p \<mapsto> write_put d c)\<rparr>)"
  shows "leads b64 s (s\<lparr>wld := w2, mpc := MUnlock\<rparr>)"
proof -
  let ?w0 = "(wld s)\<lparr>clients := (clients (wld s))(p \<mapsto> write_put d c)\<rparr>"
  have wc: "(wld s)\<lparr>clients := (clients (wld s))(p \<mapsto> c)\<rparr> = wld s" using c by (cases "wld s") (simp add: fun_upd_idem)
  have t: "main_step (WriteTest match_of) s = Step (s\<lparr>mpc := MWritePut p d\<rparr>)"
    using m ok by (simp add: member_def on_client_Some [OF c] wc)
  have u: "main_step WritePut (s\<lparr>mpc := MWritePut p d\<rparr>) = Step (s\<lparr>wld := ?w0, mpc := MPostWrite p\<rparr>)"
    by (simp add: member_def on_client_Some [OF c])
  have v: "main_step PostWrite (s\<lparr>wld := ?w0, mpc := MPostWrite p\<rparr>) = Step (s\<lparr>wld := w2, mpc := MUnlock\<rparr>)"
    by (simp add: w)
  show ?thesis by (rule leads_step [OF t _ leads_step [OF u _ leads_step [OF v _ leads_refl]]]) (simp_all add: of_main_def)
qed

lemma client_refuse_leads:
  assumes m: "mpc s = MWrite p orig d" and c: "clients (wld s) p = Some c"
    and no: "\<not> (isAllowOrigin match_of orig (allow_origins c) \<and> d \<noteq> [] \<and> write_allowed c)"
  shows "leads b64 s (s\<lparr>mpc := MUnlock\<rparr>)"
proof -
  have wc: "(wld s)\<lparr>clients := (clients (wld s))(p \<mapsto> c)\<rparr> = wld s" using c by (cases "wld s") (simp add: fun_upd_idem)
  have "main_step (WriteTest match_of) s = Step (s\<lparr>mpc := MUnlock\<rparr>)"
    using m no by (auto simp: member_def on_client_Some [OF c] wc)
  then show ?thesis by (rule leads_step [OF _ _ leads_refl]) (simp add: of_main_def)
qed

lemma post_run:
  assumes m: "mpc s = MIdle" and h: "onPost sv req (wld s) = Some w'"
  shows "served b64 s w'"
proof (cases "getSessionId (getQueries req) = []")
  case True
  then have "answers (wld s) w'" using h by (auto simp: onPost_def)
  with m show ?thesis by (rule served_same)
next
  case False
  let ?cid = "getSessionId (getQueries req)" and ?d = "getData (getQueries req)"
  obtain w1 where w1: "lock_storage MainThread (wld s) = Some w1"
    using h False by (auto simp: onPost_def Let_def bind_eq_Some_conv)
  let ?s1 = "s\<lparr>wld := w1, mpc := (case storage_get ?cid w1 of None \<Rightarrow> MUnlock | Some p \<Rightarrow> MWrite p (the (getOrigin req)) ?d)\<rparr>"
  have "ends b64 ?s1 (wld s) w'"
  proof (cases "storage_get ?cid w1")
    case None
    then obtain y where "unlock_storage MainThread w1 = Some y" "w' = respond GONE y"
      using h False w1 by (auto simp: onPost_def Let_def bind_eq_Some_conv)
    then show ?thesis using None ends_gone [OF w1] by simp
  next
    case (Some p)
    then obtain orig c where c: "getOrigin req = Some orig" "clients w1 p = Some c"
      using h False w1 by (auto simp: onPost_def Let_def bind_eq_Some_conv)
    have s1: "mpc ?s1 = MWrite p orig ?d" "clients (wld ?s1) p = Some c" using Some c by simp_all
    show ?thesis
    proof (cases "isAllowOrigin (matches sv) orig (allow_origins c) \<and> ?d \<noteq> [] \<and> write_allowed c")
      case True
      let ?w2 = "loop_execute WRITE p (w1\<lparr>clients := (clients w1)(p \<mapsto> write_put ?d c)\<rparr>)"
      have l: "leads b64 ?s1 (s\<lparr>wld := ?w2, mpc := MUnlock\<rparr>)"
        using client_write_leads [OF s1 True refl, of b64] by simp
      obtain y where "unlock_storage MainThread ?w2 = Some y" "w' = respond NO_CONTENT y"
        using h False w1 Some c True
        by (auto simp: onPost_def Let_def bind_eq_Some_conv client_write_def on_client_Some [OF c(2)])
      then show ?thesis using lock_fields [OF w1] by (intro endsI [OF l, where ?w3.0 = y]) (simp_all add: execute_fields)
    next
      case no: False
      obtain y where y: "unlock_storage MainThread w1 = Some y" "answers y w'"
        using h False w1 Some c no by (auto simp: onPost_def Let_def bind_eq_Some_conv client_write_def split: if_splits)
      then show ?thesis using lock_fields [OF w1]
        by (intro endsI [OF client_refuse_leads [OF s1 no], where ?w3.0 = y]) simp_all
    qed
  qed
  then show ?thesis
    by (rule ends_served [where ev = "Post ?cid (the (getOrigin req)) ?d"]) (simp_all add: enter_step [OF m w1] of_main_def)
qed

text \<open>
  A poll: the surroundings of \<open>onPoll\<close> in which the loop thread runs before each \<open>read\<close>, whatever steps
  it takes. \<open>w1\<close> is the world in which the poll began.
\<close>

inductive poll_follows :: "(string \<Rightarrow> bytes option) \<Rightarrow> poll_env \<Rightarrow> nat \<Rightarrow> world \<Rightarrow> nat \<Rightarrow> system \<Rightarrow> bool"
  for b64 :: "string \<Rightarrow> bytes option" and e :: poll_env and p :: nat and w1 :: world where
  follows_last: "loop_leads b64 s s1 \<Longrightarrow> clients (wld s) p = Some c \<Longrightarrow> clients (wld s1) p = Some (poll_meanwhile e n c) \<Longrightarrow>
    main_step (Read (poll_now e n) (poll_alloc e n)) s1 = Step s2 \<Longrightarrow> mpc s2 = MUnlock \<Longrightarrow>
    wld s2 = (poll_world e w1)\<lparr>clients := (clients (poll_world e w1))(p := clients (wld s2) p)\<rparr> \<Longrightarrow> poll_follows b64 e p w1 n s"
| follows_turn: "loop_leads b64 s s1 \<Longrightarrow> clients (wld s) p = Some c \<Longrightarrow> clients (wld s1) p = Some (poll_meanwhile e n c) \<Longrightarrow>
    main_step (Read (poll_now e n) (poll_alloc e n)) s1 = Step s2 \<Longrightarrow> mpc s2 \<noteq> MUnlock \<Longrightarrow>
    poll_follows b64 e p w1 (n + 1) s2 \<Longrightarrow> poll_follows b64 e p w1 n s"

definition poll_runs :: "(string \<Rightarrow> bytes option) \<Rightarrow> poll_env \<Rightarrow> request \<Rightarrow> system \<Rightarrow> bool" where
  "poll_runs b64 e req s \<longleftrightarrow> (case main_step (Poll (getSessionId (getQueries req))) s of
       Step s1 \<Rightarrow> (case mpc s1 of MRead p got \<Rightarrow> poll_follows b64 e p (wld s1) 0 s1 | _ \<Rightarrow> True)
     | _ \<Rightarrow> True)"

text \<open>One turn, in the code and in the system.\<close>

lemma read_turn:
  assumes "mpc s1 = MRead p got" "clients (wld s1) p = Some c1" "client_read now c1 = (sz, buf, c')"
  shows "main_step (Read now alloc_ok) s1 = Step (s1\<lparr>wld := (wld s1)\<lparr>clients := (clients (wld s1))(p \<mapsto> c')\<rparr>,
    mpc := (if sz > 0 \<and> alloc_ok \<and> got + nat sz < DATA_THRESHOLD then MRead p (got + nat sz) else MUnlock)\<rparr>)"
  using assms by (simp add: member_def on_client_Some)

lemma poll_turn:
  assumes "client_read (poll_now e n) (poll_meanwhile e n c) = (sz, buf, c')"
  shows "sz > 0 \<and> poll_alloc e n \<and> got + nat sz < DATA_THRESHOLD \<Longrightarrow>
      \<exists>acc'. poll_loop e n c acc got = poll_loop e (n + 1) c' acc' (got + nat sz)"
    "\<not> (sz > 0 \<and> poll_alloc e n \<and> got + nat sz < DATA_THRESHOLD) \<Longrightarrow> fst (poll_loop e n c acc got) = c'"
  using assms by (auto simp: poll_loop.simps [of e n c acc got] Let_def)

lemma poll_leads:
  "poll_follows b64 e p w1 n s \<Longrightarrow> mpc s = MRead p got \<Longrightarrow> clients (wld s) p = Some c \<Longrightarrow>
   \<exists>t. leads b64 s t \<and> mpc t = MUnlock \<and> responses (wld t) = responses (wld s)
     \<and> wld t = (poll_world e w1)\<lparr>clients := (clients (poll_world e w1))(p \<mapsto> fst (poll_loop e n c acc got))\<rparr>"
proof (induction n s arbitrary: c acc got rule: poll_follows.induct)
  case (follows_last s s1 c0 n s2)
  note f = loop_leads_fields [OF follows_last.hyps(1)]
  obtain sz buf c' where r: "client_read (poll_now e n) (poll_meanwhile e n c0) = (sz, buf, c')" by (metis prod_cases3)
  note e = read_turn [OF _ follows_last.hyps(3) r, of got "poll_alloc e n"]
  have s2: "s2 = s1\<lparr>wld := (wld s1)\<lparr>clients := (clients (wld s1))(p \<mapsto> c')\<rparr>, mpc := MUnlock\<rparr>"
    "\<not> (sz > 0 \<and> poll_alloc e n \<and> got + nat sz < DATA_THRESHOLD)"
    using e follows_last.hyps(4,5) follows_last.prems(1) f by (auto split: if_splits)
  have "fst (poll_loop e n c acc got) = c'" using poll_turn(2) [OF r s2(2)] follows_last.hyps(2) follows_last.prems(2) by simp
  moreover have "clients (wld s2) p = Some c'" "responses (wld s2) = responses (wld s)" using s2(1) f by simp_all
  moreover have "leads b64 s s2"
    using leads_trans [OF loop_leads_leads [OF follows_last.hyps(1)] leads_step [OF follows_last.hyps(4) _ leads_refl]]
    by (simp add: of_main_def)
  ultimately show ?case using follows_last.hyps(5,6) by metis
next
  case (follows_turn s s1 c0 n s2)
  note f = loop_leads_fields [OF follows_turn.hyps(1)]
  obtain sz buf c' where r: "client_read (poll_now e n) (poll_meanwhile e n c0) = (sz, buf, c')" by (metis prod_cases3)
  note e = read_turn [OF _ follows_turn.hyps(3) r, of got "poll_alloc e n"]
  have s2: "s2 = s1\<lparr>wld := (wld s1)\<lparr>clients := (clients (wld s1))(p \<mapsto> c')\<rparr>, mpc := MRead p (got + nat sz)\<rparr>"
    "sz > 0 \<and> poll_alloc e n \<and> got + nat sz < DATA_THRESHOLD"
    using e follows_turn.hyps(4,5) follows_turn.prems(1) f by (auto split: if_splits)
  obtain acc' where p: "poll_loop e n c acc got = poll_loop e (n + 1) c' acc' (got + nat sz)"
    using poll_turn(1) [OF r s2(2), of acc] follows_turn.hyps(2) follows_turn.prems(2) by auto
  have "mpc s2 = MRead p (got + nat sz)" "clients (wld s2) p = Some c'" "responses (wld s2) = responses (wld s)"
    using s2(1) f by simp_all
  moreover have "leads b64 s t" if "leads b64 s2 t" for t
    using leads_trans [OF loop_leads_leads [OF follows_turn.hyps(1)] leads_step [OF follows_turn.hyps(4) _ that]]
    by (simp add: of_main_def)
  ultimately show ?case using follows_turn.IH [of "got + nat sz" c' acc'] unfolding p by metis
qed

lemma poll_run:
  assumes m: "mpc s = MIdle" and h: "onPoll sv e req (wld s) = Some w'" and f: "poll_runs b64 e req s"
  shows "served b64 s w'"
proof (cases "getSessionId (getQueries req) = []")
  case True
  then have "answers (wld s) w'" using h by (auto simp: onPoll_def)
  with m show ?thesis by (rule served_same)
next
  case False
  let ?cid = "getSessionId (getQueries req)"
  obtain w1 where w1: "lock_storage MainThread (wld s) = Some w1"
    using h False by (auto simp: onPoll_def Let_def bind_eq_Some_conv)
  let ?s = "s\<lparr>wld := w1, mpc := (case storage_get ?cid w1 of None \<Rightarrow> MUnlock | Some p \<Rightarrow> MRead p 0)\<rparr>"
  have ev: "main_step (Poll ?cid) s = Step ?s" by (simp add: enter_step [OF m w1])
  have "ends b64 ?s (wld s) w'"
  proof (cases "storage_get ?cid w1")
    case None
    then obtain y where "unlock_storage MainThread w1 = Some y" "w' = respond GONE y"
      using h False w1 by (auto simp: onPoll_def Let_def bind_eq_Some_conv)
    then show ?thesis using None ends_gone [OF w1] by simp
  next
    case (Some p)
    then obtain c where c: "clients w1 p = Some c" using h False w1 by (auto simp: onPoll_def Let_def bind_eq_Some_conv)
    obtain c' r where r: "poll_loop e 0 c [] 0 = (c', r)" by (cases "poll_loop e 0 c [] 0")
    let ?w2 = "(poll_world e w1)\<lparr>clients := (clients (poll_world e w1))(p \<mapsto> c')\<rparr>"
    obtain w3 where w3: "unlock_storage MainThread ?w2 = Some w3"
      using h False w1 Some c r by (auto simp: onPoll_def Let_def bind_eq_Some_conv)
    then have "answers w3 w'" using poll_handler [OF refl False w1 Some c r w3, of sv] h by (auto simp: answers_def)
    moreover have "poll_follows b64 e p w1 0 ?s" using f ev Some by (simp add: poll_runs_def)
    then obtain t where "leads b64 ?s t" "mpc t = MUnlock" "wld t = ?w2" "responses (wld t) = responses w1"
      using poll_leads [of b64 e p w1 0 ?s 0 c "[]"] Some c r by auto
    ultimately show ?thesis using w3 lock_fields [OF w1] by (intro endsI [where t = t and ?w3.0 = w3]) simp_all
  qed
  then show ?thesis by (rule ends_served [OF _ ev]) (simp add: of_main_def)
qed

text \<open>
  The wait of \<open>connect\<close>: before each return of the wait the loop thread runs from the present state,
  and the surroundings of the handler stand for what it does to the world.
\<close>

fun wait_follows :: "(string \<Rightarrow> bytes option) \<Rightarrow> (bool \<times> (world \<Rightarrow> world)) list \<Rightarrow> system \<Rightarrow> bool" where
  "wait_follows b64 [] s \<longleftrightarrow> True"
| "wait_follows b64 ((err, meanwhile) # ws) s \<longleftrightarrow>
     (\<exists>s1. loop_leads b64 s s1 \<and> wld s1 = meanwhile (wld s)
       \<and> (case main_step (Wake err) s1 of
            Step s2 \<Rightarrow> (case mpc s2 of MWait p \<Rightarrow> wait_follows b64 ws s2 | _ \<Rightarrow> True)
          | _ \<Rightarrow> True))"

lemma wait_leads:
  "connect_wait ws p (wld s) = Some (b, w') \<Longrightarrow> mpc s = MWait p \<Longrightarrow> wait_follows b64 ws s \<Longrightarrow>
   \<exists>t. leads b64 s t \<and> mpc t = MUnlock \<and> wld t = w' \<and> responses w' = responses (wld s)"
proof (induction ws arbitrary: s)
  case (Cons x ws)
  obtain err mw where x: "x = (err, mw)" by (cases x)
  obtain s1 where s1: "loop_leads b64 s s1" "wld s1 = mw (wld s)"
    "case main_step (Wake err) s1 of Step s2 \<Rightarrow> (case mpc s2 of MWait p \<Rightarrow> wait_follows b64 ws s2 | _ \<Rightarrow> True) | _ \<Rightarrow> True"
    using Cons.prems(3) x by auto
  note f = loop_leads_fields [OF s1(1)]
  obtain r w1 where r: "on_client p (connect_wake err) (wld s1) = Some (r, w1)"
    using Cons.prems(1) x s1(2) by (auto simp: bind_eq_Some_conv)
  let ?s2 = "s1\<lparr>wld := w1, mpc := (case r of Return b \<Rightarrow> MUnlock | Wait \<Rightarrow> MWait p | GiveUp \<Rightarrow> MDisconnect p)\<rparr>"
  have keep: "s1\<lparr>wld := w1\<rparr> = s1\<lparr>wld := w1, mpc := MWait p\<rparr>" using f Cons.prems(2) by (cases s1) simp
  have e: "main_step (Wake err) s1 = Step ?s2"
    using r f Cons.prems(2) keep by (cases r) (simp_all add: member_def)
  have l: "leads b64 s t" if "leads b64 ?s2 t" for t
    using leads_trans [OF loop_leads_leads [OF s1(1)] leads_step [OF e _ that]] by (simp add: of_main_def)
  have w1: "responses w1 = responses (wld s)" using f on_client_fields [OF r] by simp
  show ?case
  proof (cases r)
    case (Return c)
    then have "w' = w1" using Cons.prems(1) x r s1(2) by (simp add: bind_eq_Some_conv)
    then show ?thesis using l [OF leads_refl] Return w1 by auto
  next
    case Wait
    have "connect_wait ws p (wld ?s2) = Some (b, w')" using Cons.prems(1) x r s1(2) Wait by simp
    then obtain t where "leads b64 ?s2 t" "mpc t = MUnlock" "wld t = w'" "responses w' = responses w1"
      using Cons.IH [of ?s2] s1(3) e Wait by auto
    then show ?thesis using l w1 by auto
  next
    case GiveUp
    then have d: "client_disconnect p (wld ?s2) = Some w'" "mpc ?s2 = MDisconnect p"
      using Cons.prems(1) x r s1(2) by (auto simp: bind_eq_Some_conv)
    show ?thesis using l [OF client_disconnect_leads(1) [OF d(2,1)]] client_disconnect_leads(2) [OF d(2,1)] w1 by auto
  qed
qed simp

text \<open>Where \<open>onConnect\<close> waits, and the surroundings the steps of the loop thread give it.\<close>

definition connect_event :: "server \<Rightarrow> connect_env \<Rightarrow> backend \<Rightarrow> event" where
  "connect_event sv e be = Connect (new_addr e) (garbage_port e) (garbage_access e) (uuid_unparse (new_uuid e))
     (b_origins be) (client_timeout sv) (b_host be) (b_port be)"

definition connect_start :: "server \<Rightarrow> connect_env \<Rightarrow> request \<Rightarrow> system \<Rightarrow> system option" where
  "connect_start sv e req s =
     (case getBackend (matches sv) (config sv) (getChannel (getQueries req)) (the (getOrigin req)) of
        None \<Rightarrow> None
      | Some be \<Rightarrow>
          (case main_step (connect_event sv e be) s of
             Step s0 \<Rightarrow> (case main_step ConnectBegin s0 of Step s1 \<Rightarrow> Some s1 | _ \<Rightarrow> None)
           | _ \<Rightarrow> None))"

definition connect_follows :: "(string \<Rightarrow> bytes option) \<Rightarrow> server \<Rightarrow> connect_env \<Rightarrow> request \<Rightarrow> system \<Rightarrow> bool" where
  "connect_follows b64 sv e req s \<longleftrightarrow>
     (case new_addr e of None \<Rightarrow> True | Some p \<Rightarrow> p \<notin> set (allocated s))
     \<and> (case connect_start sv e req s of None \<Rightarrow> True | Some s1 \<Rightarrow> wait_follows b64 (waits e) s1)"

lemma lock_unlock_same:
  "lock_storage t w = Some w1 \<Longrightarrow> unlock_storage t w1 = Some w2 \<Longrightarrow> w2 = w"
  by (cases w) (auto simp: lock_storage_def unlock_storage_def split: if_splits)

lemma create_fields: "storage_create a p0 a0 cid os tmo w = (r, w') \<Longrightarrow> responses w' = responses w"
  by (auto simp: storage_create_def split: if_splits option.splits)

text \<open>\<open>connect\<close> of a client, whether or not it waits.\<close>

lemma client_connect_leads:
  assumes m: "mpc s = MConnect p h pt" and c: "client_connect ws h pt p (wld s) = Some (b, w')"
    and f: "case main_step ConnectBegin s of Step s1 \<Rightarrow> wait_follows b64 ws s1 | _ \<Rightarrow> True"
  shows "\<exists>t. leads b64 s t \<and> mpc t = MUnlock \<and> wld t = w' \<and> responses w' = responses (wld s)"
proof -
  obtain r w1 where r: "on_client p (connect_begin h pt) (wld s) = Some (r, w1)"
    using c by (auto simp: client_connect_def bind_eq_Some_conv)
  let ?s1 = "case r of Return b \<Rightarrow> s\<lparr>wld := w1, mpc := MUnlock\<rparr> | _ \<Rightarrow> s\<lparr>wld := loop_execute CONNECT p w1, mpc := MWait p\<rparr>"
  have e: "main_step ConnectBegin s = Step ?s1" using r m by (cases r) (simp_all add: member_def)
  have l: "leads b64 s t" if "leads b64 ?s1 t" for t
    by (rule leads_step [OF e _ that]) (simp add: of_main_def)
  note w1 = on_client_fields [OF r]
  show ?thesis
  proof (cases "\<exists>b. r = Return b")
    case True
    then show ?thesis using c r l [OF leads_refl] w1 by (auto simp: client_connect_def)
  next
    case False
    then have s1: "?s1 = s\<lparr>wld := loop_execute CONNECT p w1, mpc := MWait p\<rparr>" by (cases r) auto
    have "connect_wait ws p (wld ?s1) = Some (b, w')" using False c r unfolding s1 by (cases r) (auto simp: client_connect_def)
    moreover have "mpc ?s1 = MWait p" "wait_follows b64 ws ?s1" using f unfolding e s1 by simp_all
    ultimately obtain t where "leads b64 ?s1 t" "mpc t = MUnlock" "wld t = w'" "responses w' = responses (wld ?s1)"
      using wait_leads [of ws p ?s1 b w' b64] by blast
    then show ?thesis using l w1 unfolding s1 by (auto simp: execute_fields)
  qed
qed

text \<open>A request that is answered before a session is created changes nothing but the answers.\<close>

lemma connect_unchanged:
  assumes h: "onConnect sv e req w = Some w'"
    and no: "\<not> (getSessionId (getQueries req) = [] \<and> \<not> uuid_is_null (new_uuid e)
      \<and> getBackend (matches sv) (config sv) (getChannel (getQueries req)) (the (getOrigin req)) \<noteq> None)"
  shows "answers w w'"
proof -
  consider "getSessionId (getQueries req) \<noteq> []" | "getSessionId (getQueries req) = []" "uuid_is_null (new_uuid e)"
    | "getSessionId (getQueries req) = []" "\<not> uuid_is_null (new_uuid e)"
      "getBackend (matches sv) (config sv) (getChannel (getQueries req)) (the (getOrigin req)) = None" using no by blast
  then show ?thesis
  proof cases
    case 1
    then obtain w1 w2 where w: "lock_storage MainThread w = Some w1" "unlock_storage MainThread w1 = Some w2"
      "answers w2 w'"
      using h by (cases "lock_storage MainThread w")
        (auto simp: onConnect_def Let_def bind_eq_Some_conv split: option.splits)
    then show ?thesis using lock_unlock_same [OF w(1,2)] by simp
  next
    case 3
    then show ?thesis using h by (cases "getOrigin req") (auto simp: onConnect_def Let_def)
  qed (use h in \<open>auto simp: onConnect_def\<close>)
qed

lemma connect_run:
  assumes m: "mpc s = MIdle" and h: "onConnect sv e req (wld s) = Some w'" and f: "connect_follows b64 sv e req s"
  shows "served b64 s w'"
proof (cases "getSessionId (getQueries req) = [] \<and> \<not> uuid_is_null (new_uuid e)
    \<and> getBackend (matches sv) (config sv) (getChannel (getQueries req)) (the (getOrigin req)) \<noteq> None")
  case False
  with m show ?thesis by (intro served_same connect_unchanged [OF h])
next
  case True
  then obtain be where be: "getBackend (matches sv) (config sv) (getChannel (getQueries req)) (the (getOrigin req)) = Some be"
    by blast
  obtain orig where o: "getOrigin req = Some orig"
    using h True by (auto simp: onConnect_def Let_def bind_eq_Some_conv)
  obtain w1 where w1: "lock_storage MainThread (wld s) = Some w1"
    using h True be o by (auto simp: onConnect_def Let_def bind_eq_Some_conv)
  let ?uuid = "uuid_unparse (new_uuid e)"
  obtain a w2 where cr: "storage_create (new_addr e) (garbage_port e) (garbage_access e) ?uuid (b_origins be) (client_timeout sv) w1 = (a, w2)"
    by (cases "storage_create (new_addr e) (garbage_port e) (garbage_access e) ?uuid (b_origins be) (client_timeout sv) w1")
  have r2: "responses w2 = responses (wld s)" using lock_fields [OF w1] create_fields [OF cr] by simp
  show ?thesis
  proof (cases a)
    case None
    obtain w3 where w3: "unlock_storage MainThread w2 = Some w3" "w' = respond SERVICE_UNAVAILABLE w3"
      using h True be o w1 cr None by (auto simp: onConnect_def Let_def bind_eq_Some_conv)
    have "main_step (connect_event sv e be) s = Step (s\<lparr>wld := w2, mpc := MUnlock\<rparr>)"
      using m w1 cr None by (simp add: connect_event_def)
    moreover have "ends b64 (s\<lparr>wld := w2, mpc := MUnlock\<rparr>) (wld s) w'"
      by (rule endsI [OF leads_refl, where ?w3.0 = w3]) (use w3 r2 in simp_all)
    ultimately show ?thesis by (intro ends_served [where ev = "connect_event sv e be"]) (auto simp: connect_event_def of_main_def)
  next
    case (Some p)
    obtain ok w3 w4 where w3: "client_connect (waits e) (b_host be) (b_port be) p w2 = Some (ok, w3)"
      "unlock_storage MainThread w3 = Some w4" "answers w4 w'"
      using h True be o w1 cr Some by (auto simp: onConnect_def Let_def bind_eq_Some_conv split: if_splits)
    have a: "new_addr e = Some p" using cr Some by (auto simp: storage_create_def split: if_splits option.splits)
    let ?s0 = "s\<lparr>wld := w2, mpc := MConnect p (b_host be) (b_port be), allocated := p # allocated s\<rparr>"
    have ev: "main_step (connect_event sv e be) s = Step ?s0"
      using m w1 cr Some a f by (simp add: connect_event_def connect_follows_def)
    have "case main_step ConnectBegin ?s0 of Step s1 \<Rightarrow> wait_follows b64 (waits e) s1 | _ \<Rightarrow> True"
      using f be ev by (simp add: connect_follows_def connect_start_def split: result.splits option.splits)
    moreover have "mpc ?s0 = MConnect p (b_host be) (b_port be)" "wld ?s0 = w2" by simp_all
    ultimately obtain t where t: "leads b64 ?s0 t" "mpc t = MUnlock" "wld t = w3" "responses w3 = responses w2"
      using client_connect_leads [of ?s0 p "b_host be" "b_port be" "waits e" ok w3 b64] w3(1) by auto
    then have "ends b64 ?s0 (wld s) w'" using w3(2,3) r2 by (intro endsI [OF t(1), where ?w3.0 = w4]) simp_all
    then show ?thesis by (rule ends_served [OF _ ev]) (simp add: connect_event_def of_main_def)
  qed
qed

section \<open>Properties\<close>

text \<open>
  The surroundings of a request: what happens during the waits of \<open>connect\<close> and the loop of a poll is
  what the loop thread does, whatever steps it takes; and a session that is created has a fresh identity.
\<close>

definition request_follows :: "(string \<Rightarrow> bytes option) \<Rightarrow> server \<Rightarrow> connect_env \<Rightarrow> poll_env \<Rightarrow> request \<Rightarrow> system \<Rightarrow> bool" where
  "request_follows b64 sv ce pe req s \<longleftrightarrow>
     (getCommand (getQueries req) = ''connect'' \<longrightarrow> connect_follows b64 sv ce req s)
     \<and> (getCommand (getQueries req) = ''poll'' \<longrightarrow> poll_runs b64 pe req s)"

lemma serve_served:
  assumes "mpc s = MIdle" "serve sv ce pe req (wld s) = Some w'" "request_follows b64 sv ce pe req s"
  shows "served b64 s w'"
proof -
  obtain m where m: "getMethod req = Some m" using assms(2) by (cases "getMethod req") (auto simp: serve_def Let_def)
  show ?thesis
  proof (cases "m = GET \<and> getCommand (getQueries req) \<in> {''connect'', ''disconnect'', ''poll''} \<or> m = POST")
    case True
    then show ?thesis
      using assms(2,3) m connect_run [OF assms(1)] disconnect_run [OF assms(1)] poll_run [OF assms(1)] post_run [OF assms(1)]
      by (auto simp: serve_def Let_def request_follows_def)
  next
    case False
    then show ?thesis using assms(1,2) m
      by (cases m) (auto simp: serve_def Let_def intro!: served_same)
  qed
qed

text \<open>
  C10. Every request is a run of the two threads. Whatever \<open>run\<close> does to the world while it serves a
  request, printing apart, is done by a sequence of steps of the main thread from the state in which the
  request was accepted, interleaved with any steps of the loop thread during the waits of \<open>connect\<close> and
  between the reads of a poll; the main thread accepts requests again at the end, and has answered once.
  So what holds in all reachable states of the two threads holds of the handlers.
\<close>

theorem serve_is_run:
  assumes "mpc s = MIdle" "serve sv ce pe req (wld s) = Some w'" "request_follows b64 sv ce pe req s"
  shows "\<exists>es s' answer. run_events (sys_next b64) es s = Some s' \<and> mpc s' = MIdle
    \<and> wld s' = w'\<lparr>responses := responses (wld s)\<rparr> \<and> responses w' = responses (wld s) @ [answer]"
proof -
  obtain s' a where s': "leads b64 s s'" "mpc s' = MIdle" "responses (wld s') = responses (wld s)"
    "w' = (wld s')\<lparr>responses := responses (wld s') @ [a]\<rparr>"
    using serve_served [OF assms] unfolding served_def answers_def by blast
  obtain es where es: "run_events (sys_next b64) es s = Some s'" using s'(1) unfolding leads_def by blast
  have "wld s' = w'\<lparr>responses := responses (wld s)\<rparr>" using s'(3,4) by (cases "wld s'") simp
  moreover have "responses w' = responses (wld s) @ [a]" using s'(3,4) by simp
  ultimately show ?thesis using es s'(2) by blast
qed

text \<open>A connection that the loop thread establishes during the first wait.\<close>

definition joining :: "string \<Rightarrow> client" where
  "joining cid = (new_client 0 0 cid [] 30)\<lparr>host := ''10.0.0.1'', port := 80, state := CONNECTING\<rparr>"

definition waiting_state :: "string \<Rightarrow> system" where
  "waiting_state cid = (start_system 1)\<lparr>wld := (storage_new 1)\<lparr>storage_lock := Some MainThread,
     clients := [7 \<mapsto> joining cid], client_map := map_insert cid 7 [], requests := [(CONNECT, 7)]\<rparr>,
     mpc := MWait 7, allocated := [7]\<rparr>"

definition joined_state :: "string \<Rightarrow> system" where
  "joined_state cid = (waiting_state cid)\<lparr>wld := (wld (waiting_state cid))\<lparr>requests := [],
     clients := [7 \<mapsto> (joining cid)\<lparr>state := CONNECTED, last_access := 5\<rparr>]\<rparr>, reading := [7]\<rparr>"

definition success_env :: connect_env where
  "success_env = timeout_env\<lparr>waits := [(False, \<lambda>_. wld (joined_state (uuid_unparse (replicate 16 7)))), (True, \<lambda>w. w)]\<rparr>"

lemmas session_run_defs = start_system_def storage_new_def joining_def waiting_state_def joined_state_def
  success_env_def timeout_env_def channel_server_def channel_request_def channel_env_def getQueries_def getter_defs lookup_query_def
  getBackend_def exact_match_def isAllowOrigin_def getOrigin_def env_get_def lock_storage_def unlock_storage_def
  storage_create_def map_size_def on_client_def connect_begin_def new_client_def loop_execute_def list_put_def

lemma success_start:
  "connect_start channel_server success_env channel_request (start_system 1) = Some (waiting_state (uuid_unparse (replicate 16 7)))"
  by (simp add: connect_start_def connect_event_def member_def session_run_defs)

lemma success_loop:
  "run_events (sys_next no_b64) [Async good_io, ConnectCallback 5 0 7] (waiting_state cid) = Some (joined_state cid)"
  by (simp add: sys_next_def sys_step_def of_main_def good_io_def loop_connect_def submitted_def effects_of_def
      loop_on_connect_def on_connect_def session_run_defs)

lemma success_wake: "\<exists>t. main_step (Wake False) (joined_state cid) = Step t \<and> mpc t = MUnlock"
  by (simp add: session_run_defs member_def connect_wake_def)

lemma success_follows: "connect_follows no_b64 channel_server success_env channel_request (start_system 1)"
proof -
  let ?cid = "uuid_unparse (replicate 16 7)"
  have "loop_leads no_b64 (waiting_state ?cid) (joined_state ?cid)"
    unfolding loop_leads_def
    by (rule exI [of _ "[Async good_io, ConnectCallback 5 0 7]"]) (simp only: success_loop, simp add: of_main_def)
  then have "wait_follows no_b64 [(False, \<lambda>_. wld (joined_state ?cid)), (True, \<lambda>w. w)] (waiting_state ?cid)"
    unfolding wait_follows.simps using success_wake [of ?cid] by (intro exI [of _ "joined_state ?cid"]) auto
  moreover have "waits success_env = [(False, \<lambda>_. wld (joined_state ?cid)), (True, \<lambda>w. w)]"
    "new_addr success_env = Some 7" "allocated (start_system 1) = []"
    by (simp_all add: success_env_def timeout_env_def start_system_def)
  ultimately show ?thesis unfolding connect_follows_def success_start by simp
qed

lemma success_served:
  "\<exists>w' c. serve channel_server success_env e channel_request (storage_new 1) = Some w' \<and> clients w' 7 = Some c \<and> state c = CONNECTED"
proof -
  have u: "\<not> uuid_is_null (replicate 16 7)" by (simp add: uuid_is_null_def all_zero_iff)
  have m: "getMethod channel_request = Some GET"
    by (subst getMethod_read [where env = channel_env]) (simp_all add: channel_request_def channel_env_def method_of_def env_get_def)
  have c: "getCommand (getQueries channel_request) = ''connect''"
    by (simp add: channel_request_def getQueries_def getter_defs lookup_query_def)
  have s: "serve channel_server success_env e channel_request w = onConnect channel_server success_env channel_request w" for w
    by (simp add: serve_def m c)
  show ?thesis unfolding s using u
    by (simp add: Let_def onConnect_def client_connect_def connect_wake_def respond_body_def session_run_defs)
qed

theorem serve_is_run_witness:
  "\<exists>es s' c. run_events (sys_next no_b64) es (start_system 1) = Some s' \<and> mpc s' = MIdle
    \<and> clients (wld s') 7 = Some c \<and> state c = CONNECTED"
proof -
  have w: "wld (start_system 1) = storage_new 1" "mpc (start_system 1) = MIdle" by (simp_all add: start_system_def)
  obtain w' c where w': "serve channel_server success_env example_poll channel_request (storage_new 1) = Some w'"
    "clients w' 7 = Some c" "state c = CONNECTED"
    using success_served by blast
  have "getCommand (getQueries channel_request) = ''connect''"
    by (simp add: channel_request_def getQueries_def getter_defs lookup_query_def)
  then have "request_follows no_b64 channel_server success_env example_poll channel_request (start_system 1)"
    using success_follows by (simp add: request_follows_def)
  from serve_is_run [OF w(2) _ this, of w'] show ?thesis using w w' by fastforce
qed

end
