(* ===== verification/System_Server.thy ===== *)
theory System_Server
  imports System_Handlers
begin

text \<open>
  \<open>Server::run\<close> as a run of the two threads. What is printed takes no part in the steps of
  \<open>System\<close>, so the runs of the handlers can be put together: however many requests are served, the
  world the server has come to is, what is printed apart, the world of a run of the two threads.
\<close>

section \<open>Printing takes no part in the steps\<close>

abbreviation out_w :: "string list \<Rightarrow> world \<Rightarrow> world" where
  "out_w r w \<equiv> w\<lparr>responses := r\<rparr>"

definition out :: "string list \<Rightarrow> system \<Rightarrow> system" where
  "out r s = s\<lparr>wld := out_w r (wld s)\<rparr>"

lemma out_fields [simp]:
  "wld (out r s) = out_w r (wld s)" "mpc (out r s) = mpc s" "lpc (out r s) = lpc s" "connecting (out r s) = connecting s"
  "closing (out r s) = closing s" "reading (out r s) = reading s" "allocated (out r s) = allocated s"
  by (simp_all add: out_def)

lemma out_updates [simp]:
  "(out r s)\<lparr>mpc := m\<rparr> = out r (s\<lparr>mpc := m\<rparr>)" "(out r s)\<lparr>lpc := l\<rparr> = out r (s\<lparr>lpc := l\<rparr>)"
  "(out r s)\<lparr>connecting := ps\<rparr> = out r (s\<lparr>connecting := ps\<rparr>)" "(out r s)\<lparr>closing := ps\<rparr> = out r (s\<lparr>closing := ps\<rparr>)"
  "(out r s)\<lparr>reading := ps\<rparr> = out r (s\<lparr>reading := ps\<rparr>)" "(out r s)\<lparr>allocated := ps\<rparr> = out r (s\<lparr>allocated := ps\<rparr>)"
  "(out r s)\<lparr>wld := out_w r w\<rparr> = out r (s\<lparr>wld := w\<rparr>)"
  by (cases s; simp add: out_def)+

lemma world_out:
  "lock_storage t (out_w r w) = map_option (out_w r) (lock_storage t w)"
  "unlock_storage t (out_w r w) = map_option (out_w r) (unlock_storage t w)"
  "storage_get cid (out_w r w) = storage_get cid w"
  "loop_execute k p (out_w r w) = out_w r (loop_execute k p w)"
  "storage_destroy cid (out_w r w) = map_option (out_w r) (storage_destroy cid w)"
  "storage_create a p0 a0 cid os tmo (out_w r w) = map_prod id (out_w r) (storage_create a p0 a0 cid os tmo w)"
  by (simp_all add: lock_storage_def unlock_storage_def storage_get_def loop_execute_def storage_destroy_def storage_create_def
      split: option.split)

lemma on_client_out: "on_client p f (out_w r w) = map_option (map_prod id (out_w r)) (on_client p f w)"
  by (simp add: on_client_def split: option.split prod.split)

lemma bind_out:
  assumes "x' = map_option f x" "\<And>y. x = Some y \<Longrightarrow> g' (f y) = map_option h (g y)"
  shows "Option.bind x' g' = map_option h (Option.bind x g)"
  using assms by (cases x) simp_all

lemma timer_loop_out: "timer_loop now it (out_w r w) = map_option (map_prod id (out_w r)) (timer_loop now it w)"
proof (induction now it w rule: timer_loop.induct)
  case (2 now cid p it w)
  then show ?case unfolding timer_loop.simps
    by (intro bind_out [where f = "map_prod id (out_w r)"] on_client_out) (auto split: prod.split intro!: bind_out)
qed simp

lemma on_disconnect_out: "loop_on_disconnect p (out_w r w) = map_option (out_w r) (loop_on_disconnect p w)"
proof (cases "clients w p")
  case (Some c)
  show ?thesis unfolding loop_on_disconnect_def
    by (simp add: Some) (intro bind_out [where f = "out_w r"]; simp add: world_out)
qed (simp add: loop_on_disconnect_def)

lemma on_timer_out: "loop_on_timer now (out_w r w) = map_option (map_prod id (out_w r)) (loop_on_timer now w)"
  unfolding loop_on_timer_def storage_on_timer_def
  by (intro bind_out [where f = "out_w r"] world_out)
    (auto intro!: bind_out [where f = "map_prod id (out_w r)"] bind_out [where f = "out_w r"] simp: world_out timer_loop_out
      split: prod.split)

lemmas callbacks_out = on_disconnect_out on_timer_out

lemma handle_request_out: "handle_request b64 io q (out_w r w) = map_option (map_prod id (out_w r)) (handle_request b64 io q w)"
  by (cases "(b64, io, q, w)" rule: handle_request.cases) (simp_all add: on_client_out option.map_comp comp_def case_prod_unfold map_prod_def)

lemma requests_out: "(out_w r w)\<lparr>requests := q\<rparr> = out_w r (w\<lparr>requests := q\<rparr>)"
  by simp

lemma effect_steps_out: "effect_steps es (out r s) = map_result (out r) (effect_steps es s)"
proof (induction es arbitrary: s)
  case (Cons pe es)
  obtain p e where pe: "pe = (p, e)" by (cases pe)
  have "effect_step p e (out r s) = map_result (out r) (effect_step p e s)" by (cases e) auto
  then show ?case using Cons by (simp add: pe split: result.split)
qed simp

lemma enter_out: "enter cid pc (out r s) = map_result (out r) (enter cid pc s)"
  by (simp add: enter_def world_out split: option.split)

lemma member_out:
  assumes "\<And>x w. next1 x (out_w r w) = map_result (out r) (next2 x w)"
  shows "member p f next1 (out r s) = map_result (out r) (member p f next2 s)"
  using assms by (simp add: member_def on_client_out split: option.split prod.split)

lemma main_step_out: "main_step e (out r s) = map_result (out r) (main_step e s)"
  by (cases e) (auto simp: enter_out world_out split: option.split main_pc.split prod.split connect_next.split intro!: member_out)

lemma loop_step_out: "loop_step b64 e (out r s) = map_result (out r) (loop_step b64 e s)"
  by (cases e) (auto simp: loop_on_connect_def loop_on_read_def callbacks_out
    on_client_out handle_request_out effect_steps_out requests_out split: option.split loop_pc.split prod.split)

lemma sys_next_out: "sys_next b64 (out r s) e = map_option (out r) (sys_next b64 s e)"
  by (simp add: sys_next_def sys_step_def main_step_out loop_step_out split: result.split)

lemma run_events_out: "run_events (sys_next b64) es (out r s) = map_option (out r) (run_events (sys_next b64) es s)"
  by (induction es arbitrary: s) (auto simp: sys_next_out split: option.split)

lemma leads_out:
  assumes "leads b64 s s'"
  shows "leads b64 (out r s) (out r s')"
proof -
  obtain es where "run_events (sys_next b64) es s = Some s'" using assms unfolding leads_def by blast
  then have "run_events (sys_next b64) es (out r s) = Some (out r s')" by (simp add: run_events_out)
  then show ?thesis unfolding leads_def by blast
qed

lemma out_out [simp]: "out r (out q s) = out r s"
  by (simp add: out_def)

lemma out_same: "responses (wld s) = r \<Longrightarrow> out r s = s"
  by (cases s; cases "wld s") (auto simp: out_def)

lemma sys_inv_out [simp]: "sys_inv (out r s) = sys_inv s"
  by (simp add: sys_inv_def lock_ok_def view_def frame_simps)

section \<open>The handlers return\<close>

text \<open>In a state of the two threads no handler can fail, as long as the wait of \<open>connect\<close> has a deadline.\<close>

lemma run_events_inv: "run_events (sys_next b64) es s = Some s' \<Longrightarrow> sys_inv s \<Longrightarrow> sys_inv s'"
  by (induction es arbitrary: s) (auto simp: sys_next_Some split: option.splits dest: sys_inv_step)

lemma leads_inv: "leads b64 s s' \<Longrightarrow> sys_inv s \<Longrightarrow> sys_inv s'"
  unfolding leads_def using run_events_inv by blast

lemma main_step_inv: "sys_inv s \<Longrightarrow> main_step e s = Step s' \<Longrightarrow> of_main e \<Longrightarrow> sys_inv s'"
  by (rule sys_inv_step [of s "\<lambda>_. None" e]) (simp_all add: sys_step_def)

lemma unlocks:
  assumes "sys_inv s" "mpc s \<noteq> MIdle"
  shows "unlock_storage MainThread (wld s) = Some ((wld s)\<lparr>storage_lock := None\<rparr>)"
  using assms by (simp add: sys_inv_def lock_ok_def unlock_storage_def)

lemma idle_facts:
  assumes "sys_inv s" "mpc s = MIdle"
  shows "storage_ok (wld s)" "storage_lock (wld s) = None"
  using assms by (simp_all add: sys_inv_def lock_ok_def)

definition deadline :: "(bool \<times> (world \<Rightarrow> world)) list \<Rightarrow> bool" where
  "deadline ws \<longleftrightarrow> ws \<noteq> [] \<and> fst (last ws)"

lemma client_disconnect_total: "clients w p = Some c \<Longrightarrow> client_disconnect p w \<noteq> None"
  by (simp add: client_disconnect_def on_client_Some case_prod_unfold)

lemma wait_total:
  "sys_inv s \<Longrightarrow> mpc s = MWait p \<Longrightarrow> wait_follows b64 ws s \<Longrightarrow> deadline ws \<Longrightarrow> \<exists>b w'. connect_wait ws p (wld s) = Some (b, w')"
proof (induction ws arbitrary: s)
  case (Cons x ws)
  obtain err mw where x: "x = (err, mw)" by (cases x)
  obtain s1 where s1: "loop_leads b64 s s1" "wld s1 = mw (wld s)"
    "case main_step (Wake err) s1 of Step s2 \<Rightarrow> (case mpc s2 of MWait p \<Rightarrow> wait_follows b64 ws s2 | _ \<Rightarrow> True) | _ \<Rightarrow> True"
    using Cons.prems(3) x by auto
  have i: "sys_inv s1" using leads_inv [OF loop_leads_leads [OF s1(1)] Cons.prems(1)] .
  have m: "mpc s1 = MWait p" using loop_leads_fields [OF s1(1)] Cons.prems(2) by simp
  obtain c where c: "clients (wld s1) p = Some c" using holds_client [OF i m] by auto
  obtain c' r where r: "connect_wake err c = (c', r)" by (cases "connect_wake err c")
  let ?w = "(wld s1)\<lparr>clients := (clients (wld s1))(p \<mapsto> c')\<rparr>"
  have o: "on_client p (connect_wake err) (mw (wld s)) = Some (r, ?w)" using c r s1(2) by (simp add: on_client_Some)
  show ?case
  proof (cases r)
    case (Return b)
    then show ?thesis using o x by simp
  next
    case GiveUp
    have "client_disconnect p ?w \<noteq> None" by (rule client_disconnect_total) simp
    then show ?thesis using o x GiveUp by auto
  next
    case Wait
    then have ws: "ws \<noteq> []" using Cons.prems(4) x r by (auto simp: deadline_def connect_wake_def split: if_splits)
    have st: "main_step (Wake err) s1 = Step (s1\<lparr>wld := ?w\<rparr>)" using m c r Wait by (simp add: member_def on_client_Some)
    have "sys_inv (s1\<lparr>wld := ?w\<rparr>)" using main_step_inv [OF i st] by (simp add: of_main_def)
    moreover have "wait_follows b64 ws (s1\<lparr>wld := ?w\<rparr>)" using s1(3) st m by simp
    ultimately show ?thesis using Cons.IH [of "s1\<lparr>wld := ?w\<rparr>"] Cons.prems(4) ws m o x Wait by (auto simp: deadline_def)
  qed
qed (simp add: deadline_def)

lemma connect_total:
  assumes i: "sys_inv s" "mpc s = MIdle" and o: "getOrigin req \<noteq> None" and f: "connect_follows b64 sv e req s" "deadline (waits e)"
  shows "onConnect sv e req (wld s) \<noteq> None"
proof (cases "getSessionId (getQueries req) \<noteq> [] \<or> uuid_is_null (new_uuid e)
    \<or> getBackend (matches sv) (config sv) (getChannel (getQueries req)) (the (getOrigin req)) = None")
  case True
  then show ?thesis using o locked_facts [OF idle_facts [OF i]] by (auto simp: onConnect_def Let_def split: option.split)
next
  case False
  note l = locked_facts [OF idle_facts [OF i]]
  let ?uuid = "uuid_unparse (new_uuid e)"
  from False obtain be orig where be: "getOrigin req = Some orig"
    "getBackend (matches sv) (config sv) (getChannel (getQueries req)) (the (getOrigin req)) = Some be" using o by auto
  obtain a w2 where cr: "storage_create (new_addr e) (garbage_port e) (garbage_access e) ?uuid (b_origins be) (client_timeout sv)
      (locked (wld s)) = (a, w2)" by (meson surj_pair)
  show ?thesis
  proof (cases a)
    case None
    then have ev: "main_step (connect_event sv e be) s = Step (s\<lparr>wld := w2, mpc := MUnlock\<rparr>)"
      using i(2) l(1) cr by (simp add: connect_event_def)
    have "sys_inv (s\<lparr>wld := w2, mpc := MUnlock\<rparr>)" using main_step_inv [OF i(1) ev] by (simp add: connect_event_def of_main_def)
    from unlocks [OF this] show ?thesis using False be cr l(1) None by (simp add: onConnect_def Let_def)
  next
    case (Some p)
    have "new_addr e = Some p" using cr Some by (auto simp: storage_create_def split: if_splits option.splits)
    let ?s0 = "s\<lparr>wld := w2, mpc := MConnect p (b_host be) (b_port be), allocated := p # allocated s\<rparr>"
    have ev: "main_step (connect_event sv e be) s = Step ?s0"
      using i(2) l(1) cr Some f(1) \<open>new_addr e = Some p\<close> by (simp add: connect_event_def connect_follows_def)
    have i0: "sys_inv ?s0" using main_step_inv [OF i(1) ev] by (simp add: connect_event_def of_main_def)
    obtain c where c: "clients w2 p = Some c" "live_ok c (view ?s0 p)" using holds_client [OF i0 _ pc_client.simps(2)] by auto
    have "state c = DISCONNECTED" using c(2) by (simp add: live_ok_def)
    then have b: "snd (connect_begin (b_host be) (b_port be) c) = Wait" by (simp add: connect_begin_def)
    let ?w1 = "w2\<lparr>clients := (clients w2)(p \<mapsto> fst (connect_begin (b_host be) (b_port be) c))\<rparr>"
    let ?s1 = "?s0\<lparr>wld := loop_execute CONNECT p ?w1, mpc := MWait p\<rparr>"
    have st: "main_step ConnectBegin ?s0 = Step ?s1" using c(1) b by (simp add: member_def on_client_Some)
    have i1: "sys_inv ?s1" using main_step_inv [OF i0 st] by (simp add: of_main_def)
    have wf: "wait_follows b64 (waits e) ?s1" using f(1) be(2) ev st by (simp add: connect_follows_def connect_start_def)
    obtain ok w3 where w3: "connect_wait (waits e) p (loop_execute CONNECT p ?w1) = Some (ok, w3)"
      using wait_total [OF i1 _ wf f(2), of p] by auto
    obtain t where t: "leads b64 ?s1 t" "mpc t = MUnlock" "wld t = w3" using wait_leads [of "waits e" p ?s1 ok w3 b64] w3 wf by auto
    have "unlock_storage MainThread w3 = Some (w3\<lparr>storage_lock := None\<rparr>)" using unlocks [OF leads_inv [OF t(1) i1]] t(2,3) by simp
    moreover have "client_connect (waits e) (b_host be) (b_port be) p w2 = Some (ok, w3)"
      using c(1) b w3 by (simp add: client_connect_def on_client_Some)
    ultimately show ?thesis using False be cr l(1) Some by (simp add: onConnect_def Let_def)
  qed
qed

lemma poll_total:
  assumes i: "sys_inv s" "mpc s = MIdle" and f: "poll_runs b64 e req s"
  shows "onPoll sv e req (wld s) \<noteq> None"
proof -
  let ?cid = "getSessionId (getQueries req)"
  note l = locked_facts [OF idle_facts [OF i]]
  show ?thesis
  proof (cases "?cid = [] \<or> storage_get ?cid (wld s) = None")
    case True
    then show ?thesis using l by (auto simp: onPoll_def Let_def)
  next
    case False
    then obtain p where p: "storage_get ?cid (locked (wld s)) = Some p" using l(6) by auto
    obtain c where c: "clients (locked (wld s)) p = Some c" using storage_ok_find [OF l(4)] p by (auto simp: storage_get_def)
    obtain c' r where r: "poll_loop e 0 c [] 0 = (c', r)" by (cases "poll_loop e 0 c [] 0")
    let ?s = "s\<lparr>wld := locked (wld s), mpc := MRead p 0\<rparr>"
    have ev: "main_step (Poll ?cid) s = Step ?s" using p by (simp add: enter_step [OF i(2) l(1)])
    then have "poll_follows b64 e p (locked (wld s)) 0 ?s" using f by (simp add: poll_runs_def)
    then obtain t where t: "leads b64 ?s t" "mpc t = MUnlock"
      "wld t = (poll_world e (locked (wld s)))\<lparr>clients := (clients (poll_world e (locked (wld s))))(p \<mapsto> c')\<rparr>"
      using poll_leads [of b64 e p "locked (wld s)" 0 ?s 0 c "[]"] c r by auto
    have "sys_inv t" using leads_inv [OF t(1)] main_step_inv [OF i(1) ev] by (simp add: of_main_def)
    from unlocks [OF this] show ?thesis using poll_handler [OF refl _ l(1) p c r, of _ sv] False t(2,3) by auto
  qed
qed

lemma serve_total:
  assumes "sys_inv s" "mpc s = MIdle" "envs req = read_envs env" "request_follows b64 sv ce pe req s"
    "getCommand (getQueries req) = ''connect'' \<longrightarrow> deadline (waits ce)"
  shows "serve sv ce pe req (wld s) \<noteq> None"
proof -
  have o: "getOrigin req \<noteq> None" using assms(3) by (simp add: getters)
  have m: "getMethod req = Some (method_of (env_get env REQUEST_METHOD))" by (rule getMethod_read [OF assms(3)])
  have d: "onDisconnect req (wld s) \<noteq> None" "onPost sv req (wld s) \<noteq> None"
    using disconnect_answered [OF idle_facts [OF assms(1,2)]] post_answered [OF idle_facts [OF assms(1,2)] o]
    by (auto simp: answered_def)
  show ?thesis using d connect_total [OF assms(1,2) o] poll_total [OF assms(1,2)] assms(4,5)
    by (auto simp: serve_def m Let_def request_follows_def split: request_method.split)
qed

section \<open>The run of the server\<close>

text \<open>
  The surroundings of all requests are those of a run of the two threads: before each request the loop
  thread takes any steps; during it, those of \<open>request_follows\<close>; the next request follows in a state to
  which that run has come. No body makes \<open>Request::create\<close> write outside its buffer, and a wait of
  \<open>connect\<close> has a deadline.
\<close>

fun run_follows :: "(string \<Rightarrow> bytes option) \<Rightarrow> server \<Rightarrow> exchange list \<Rightarrow> static_vars \<Rightarrow> system \<Rightarrow> bool" where
  "run_follows b64 sv [] st s \<longleftrightarrow> True"
| "run_follows b64 sv (x # xs) st s \<longleftrightarrow>
     (\<exists>s1. loop_leads b64 s s1 \<and> wld s1 = x_meanwhile x (wld s)
       \<and> (case create_request (x_body x) (x_env x) st of
            None \<Rightarrow> False
          | Some (req, st') \<Rightarrow> request_follows b64 sv (x_connect x) (x_poll x) req s1
              \<and> (getCommand (getQueries req) = ''connect'' \<longrightarrow> deadline (waits (x_connect x)))
              \<and> (\<forall>w'. serve sv (x_connect x) (x_poll x) req (wld s1) = Some w' \<longrightarrow>
                   (\<exists>s2. leads b64 s1 s2 \<and> mpc s2 = MIdle \<and> wld s2 = w'\<lparr>responses := responses (wld s1)\<rparr>
                     \<and> run_follows b64 sv xs st' (s2\<lparr>wld := w'\<rparr>)))))"

lemma run_follows_Cons:
  assumes "run_follows b64 sv (x # xs) st s"
  obtains s1 req st1 where "loop_leads b64 s s1" "wld s1 = x_meanwhile x (wld s)"
    "create_request (x_body x) (x_env x) st = Some (req, st1)" "request_follows b64 sv (x_connect x) (x_poll x) req s1"
    "getCommand (getQueries req) = ''connect'' \<longrightarrow> deadline (waits (x_connect x))"
    "\<forall>w'. serve sv (x_connect x) (x_poll x) req (wld s1) = Some w' \<longrightarrow>
       (\<exists>s2. leads b64 s1 s2 \<and> mpc s2 = MIdle \<and> wld s2 = w'\<lparr>responses := responses (wld s1)\<rparr>
         \<and> run_follows b64 sv xs st1 (s2\<lparr>wld := w'\<rparr>))"
proof -
  obtain s1 where s1: "loop_leads b64 s s1" "wld s1 = x_meanwhile x (wld s)" and
    c: "case create_request (x_body x) (x_env x) st of None \<Rightarrow> False
      | Some (req, st') \<Rightarrow> request_follows b64 sv (x_connect x) (x_poll x) req s1
          \<and> (getCommand (getQueries req) = ''connect'' \<longrightarrow> deadline (waits (x_connect x)))
          \<and> (\<forall>w'. serve sv (x_connect x) (x_poll x) req (wld s1) = Some w' \<longrightarrow>
               (\<exists>s2. leads b64 s1 s2 \<and> mpc s2 = MIdle \<and> wld s2 = w'\<lparr>responses := responses (wld s1)\<rparr>
                 \<and> run_follows b64 sv xs st' (s2\<lparr>wld := w'\<rparr>)))"
    using assms unfolding run_follows.simps by (elim exE conjE) (rule that)
  obtain r where r: "create_request (x_body x) (x_env x) st = Some r"
    using c by (cases "create_request (x_body x) (x_env x) st") (simp_all only: option.case)
  obtain req st1 where "r = (req, st1)" by (cases r)
  note r = r [unfolded this]
  from c show ?thesis unfolding r option.case prod.case by (elim conjE) (rule that [OF s1 r])
qed

lemma out_back:
  assumes "wld s = w'\<lparr>responses := q\<rparr>"
  shows "s\<lparr>wld := w'\<rparr> = out (responses w') s" "out q (s\<lparr>wld := w'\<rparr>) = s"
proof -
  have w: "w'\<lparr>responses := responses w'\<rparr> = w'" by (cases w') simp
  show "s\<lparr>wld := w'\<rparr> = out (responses w') s" using assms w by (simp add: out_def)
  show "out q (s\<lparr>wld := w'\<rparr>) = s" using assms by (cases s) (simp add: out_def)
qed

lemma serve_all_leads:
  "sys_inv s \<Longrightarrow> mpc s = MIdle \<Longrightarrow> run_follows b64 sv xs st s \<Longrightarrow>
   \<exists>st' w' t. serve_all sv xs st (wld s) = Some (st', w') \<and> leads b64 s t \<and> mpc t = MIdle
     \<and> wld t = w'\<lparr>responses := responses (wld s)\<rparr> \<and> length (responses w') = length (responses (wld s)) + length xs"
proof (induction xs arbitrary: st s)
  case Nil
  have "(wld s)\<lparr>responses := responses (wld s)\<rparr> = wld s" by (cases "wld s") simp
  then show ?case using Nil by (auto intro: leads_refl)
next
  case (Cons x xs)
  obtain s1 req st1 where s1: "loop_leads b64 s s1" "wld s1 = x_meanwhile x (wld s)"
    and r: "create_request (x_body x) (x_env x) st = Some (req, st1)" "request_follows b64 sv (x_connect x) (x_poll x) req s1"
      "getCommand (getQueries req) = ''connect'' \<longrightarrow> deadline (waits (x_connect x))"
    and next_s: "\<forall>w'. serve sv (x_connect x) (x_poll x) req (wld s1) = Some w' \<longrightarrow>
      (\<exists>s2. leads b64 s1 s2 \<and> mpc s2 = MIdle \<and> wld s2 = w'\<lparr>responses := responses (wld s1)\<rparr>
        \<and> run_follows b64 sv xs st1 (s2\<lparr>wld := w'\<rparr>))"
    by (rule run_follows_Cons [OF Cons.prems(3)])
  have l1: "leads b64 s s1" using loop_leads_leads [OF s1(1)] .
  have m: "mpc s1 = MIdle" "responses (wld s1) = responses (wld s)" using loop_leads_fields [OF s1(1)] Cons.prems(2) by simp_all
  have i1: "sys_inv s1" using leads_inv [OF l1 Cons.prems(1)] .
  obtain w1 where w1: "serve sv (x_connect x) (x_poll x) req (wld s1) = Some w1"
    using serve_total [OF i1 m(1) create_request_envs [OF r(1)] r(2,3)] by blast
  obtain a where a: "responses w1 = responses (wld s) @ [a]"
    using serve_served [OF m(1) w1 r(2)] m(2) by (auto simp: served_def answers_def)
  obtain s2 where s2: "leads b64 s1 s2" "mpc s2 = MIdle" "wld s2 = w1\<lparr>responses := responses (wld s)\<rparr>"
    "run_follows b64 sv xs st1 (s2\<lparr>wld := w1\<rparr>)"
    using next_s [rule_format, OF w1] m(2) by auto
  note ob = out_back [OF s2(3)]
  have i2: "sys_inv (s2\<lparr>wld := w1\<rparr>)" unfolding ob(1) using leads_inv [OF s2(1) i1] by simp
  obtain st' w' t where t: "serve_all sv xs st1 w1 = Some (st', w')" "leads b64 (s2\<lparr>wld := w1\<rparr>) t" "mpc t = MIdle"
    "wld t = w'\<lparr>responses := responses w1\<rparr>" "length (responses w') = length (responses w1) + length xs"
    using Cons.IH [OF i2 _ s2(4)] s2(2) by auto
  let ?q = "responses (wld s)"
  have "leads b64 s2 (out ?q t)" using leads_out [OF t(2), of ?q] unfolding ob(2) .
  then have "leads b64 s (out ?q t)" using leads_trans [OF l1 leads_trans [OF s2(1)]] by blast
  moreover have "serve_all sv (x # xs) st (wld s) = Some (st', w')" using r(1) w1 t(1) s1(2) by simp
  moreover have "mpc (out ?q t) = MIdle" "wld (out ?q t) = w'\<lparr>responses := ?q\<rparr>" using t(3,4) by simp_all
  moreover have "length (responses w') = length ?q + length (x # xs)" using t(5) a by simp
  ultimately show ?case by blast
qed

section \<open>Two requests\<close>

text \<open>
  A connection that the loop thread establishes while \<open>connect\<close> waits, and a request of another method.
\<close>

definition two_exchanges :: "exchange list" where
  "two_exchanges =
     [\<lparr>x_env = channel_env, x_body = stdin_io [], x_connect = success_env, x_poll = example_poll, x_meanwhile = (\<lambda>w. w)\<rparr>,
      \<lparr>x_env = Map.empty, x_body = stdin_io [], x_connect = timeout_env, x_poll = example_poll, x_meanwhile = (\<lambda>w. w)\<rparr>]"

lemma loop_leads_refl: "loop_leads b64 s s"
  unfolding loop_leads_def by (rule exI [of _ "[]"]) simp

lemma channel_created: "create_request io channel_env st = Some (channel_request, st)"
proof -
  have "parse_queries ''c=connect&ch=ch1'' = [(''c'', ''connect''), (''ch'', ''ch1'')]" by code_simp
  then show ?thesis by (simp add: create_request_cases channel_request_def channel_env_def env_get_def method_of_def)
qed

definition empty_request :: request where
  "empty_request = \<lparr>envs = read_envs Map.empty, queries = parse_queries []\<rparr>"

lemma empty_created: "static_data st = [] \<Longrightarrow> create_request io Map.empty st = Some (empty_request, st)"
  by (simp add: create_request_cases env_get_def method_of_def empty_request_def)

lemma empty_served: "serve sv ce pe empty_request w = Some (respond METHOD_NOT_ALLOWED w)"
  by (simp add: empty_request_def serve_def getMethod_read [where env = Map.empty] method_of_def env_get_def)

lemma channel_command: "getCommand (getQueries channel_request) = ''connect''"
  by (simp add: channel_request_def getQueries_def getter_defs lookup_query_def)

lemma empty_command: "getCommand (getQueries empty_request) = []"
proof -
  have "parse_queries [] = []" by code_simp
  then show ?thesis by (simp add: empty_request_def getQueries_def getter_defs lookup_query_def)
qed

lemma two_served:
  assumes "static_data st = []"
  shows "\<exists>w c. serve_all channel_server two_exchanges st (storage_new 1) = Some (st, w) \<and> clients w 7 = Some c \<and> state c = CONNECTED"
proof -
  obtain w1 c where w1: "serve channel_server success_env example_poll channel_request (storage_new 1) = Some w1"
    "clients w1 7 = Some c" "state c = CONNECTED"
    using success_served by blast
  then show ?thesis using assms
    by (simp add: two_exchanges_def channel_created empty_created empty_served respond_def del: One_nat_def)
qed

lemma served_next:
  assumes "served b64 s w'"
  obtains s2 where "leads b64 s s2" "mpc s2 = MIdle" "wld s2 = w'\<lparr>responses := responses (wld s)\<rparr>"
proof -
  obtain s2 a where s2: "leads b64 s s2" "mpc s2 = MIdle" "responses (wld s2) = responses (wld s)"
    "w' = (wld s2)\<lparr>responses := responses (wld s2) @ [a]\<rparr>"
    using assms unfolding served_def answers_def by blast
  have "wld s2 = w'\<lparr>responses := responses (wld s)\<rparr>" using s2(3,4) by (cases "wld s2") simp
  with s2(1,2) show ?thesis by (rule that)
qed

lemma run_follows_next:
  assumes "mpc s = MIdle" "x_meanwhile x = (\<lambda>w. w)" "create_request (x_body x) (x_env x) st = Some (req, st')"
    "request_follows b64 sv (x_connect x) (x_poll x) req s"
    "getCommand (getQueries req) = ''connect'' \<longrightarrow> deadline (waits (x_connect x))"
    "\<And>s2. mpc s2 = MIdle \<Longrightarrow> run_follows b64 sv xs st' s2"
  shows "run_follows b64 sv (x # xs) st s"
proof -
  have "\<exists>s2. leads b64 s s2 \<and> mpc s2 = MIdle \<and> wld s2 = w'\<lparr>responses := responses (wld s)\<rparr> \<and> run_follows b64 sv xs st' (s2\<lparr>wld := w'\<rparr>)"
    if "serve sv (x_connect x) (x_poll x) req (wld s) = Some w'" for w'
    using serve_served [OF assms(1) that assms(4)] by (rule served_next) (use assms(6) in auto)
  then show ?thesis unfolding run_follows.simps
    using assms(2-5) loop_leads_refl [of b64 s] by (intro exI [of _ s]) (simp del: run_follows.simps)
qed

lemma two_follow:
  assumes "static_data st = []"
  shows "run_follows no_b64 channel_server two_exchanges st (start_system 1)"
proof -
  have 2: "run_follows no_b64 channel_server [x] st s2"
    if "mpc s2 = MIdle" "x_env x = Map.empty" "x_meanwhile x = (\<lambda>w. w)" for x s2
    by (rule run_follows_next [OF that(1,3), where req = empty_request and st' = st])
      (simp_all add: that(2) empty_created assms request_follows_def empty_command)
  have f: "mpc (start_system 1) = MIdle" "deadline (waits success_env)"
    "request_follows no_b64 channel_server success_env example_poll channel_request (start_system 1)"
    using success_follows
    by (simp add: start_system_def, simp add: deadline_def success_env_def, simp add: request_follows_def channel_command)
  show ?thesis unfolding two_exchanges_def
    by (rule run_follows_next [OF f(1), where req = channel_request and st' = st])
      (simp_all add: channel_created f(2,3) 2 del: run_follows.simps One_nat_def)
qed

end
