(* ===== verification/Fcgi_Log.thy ===== *)
theory Fcgi_Log
  imports C_Lib "HOL-Library.Char_ord" "HOL-Library.List_Lexorder"
begin

text \<open>
  The log, \<open>src/src/linear_fcgi_log.h\<close> and \<open>src/src/linear_fcgi_log.cc\<close>, in the default
  build (without file and line in each message). A message is given as the text that its format and
  arguments produce; the clock, \<open>localtime_r\<close> and whether a file can be opened are arguments. The
  files are their contents. The lemmas say what a run of messages leaves in the file, and that the order
  of lines as texts is the order of their times.
\<close>

section \<open>The code\<close>

text \<open>
  An enumeration without negative members is an unsigned integer to the compilers in use; the level may
  be any number, as \<open>main\<close> casts what it reads from the environment.
\<close>

type_synonym level = "32 word"

definition LOG_OFF :: level where "LOG_OFF = 0"
definition LOG_ERR :: level where "LOG_ERR = 1"
definition LOG_WARN :: level where "LOG_WARN = 2"
definition LOG_INFO :: level where "LOG_INFO = 3"
definition LOG_DEBUG :: level where "LOG_DEBUG = 4"

definition log_long :: "level \<Rightarrow> string" where
  "log_long lv =
     (if lv = LOG_OFF then [] else if lv = LOG_ERR then ''ERROR'' else if lv = LOG_WARN then ''WARNING''
      else if lv = LOG_INFO then ''INFO'' else if lv = LOG_DEBUG then ''DEBUG'' else [])"

definition log_short :: "level \<Rightarrow> string" where
  "log_short lv =
     (if lv = LOG_OFF then [] else if lv = LOG_ERR then ''ERR'' else if lv = LOG_WARN then ''WRN''
      else if lv = LOG_INFO then ''INF'' else if lv = LOG_DEBUG then ''DBG'' else [])"

record tm =
  tm_year :: int
  tm_mon :: int
  tm_mday :: int
  tm_hour :: int
  tm_min :: int
  tm_sec :: int

record log_state =
  g_level :: level
  fp :: "string option"
  files :: "string \<Rightarrow> string"

text \<open>\<open>%0wd\<close>: the sign counts for the width.\<close>

definition fmt_int :: "nat \<Rightarrow> int \<Rightarrow> string" where
  "fmt_int w n = (if n < 0 then CHR ''-'' # fmt_d (w - 1) (nat (- n)) else fmt_d w (nat n))"

definition date_text :: "tm \<Rightarrow> int \<Rightarrow> string" where
  "date_text t usec =
     fmt_int 0 (tm_year t + 1900) @ ''-'' @ fmt_int 2 (tm_mon t + 1) @ ''-'' @ fmt_int 2 (tm_mday t) @ '' ''
     @ fmt_int 2 (tm_hour t) @ '':'' @ fmt_int 2 (tm_min t) @ '':'' @ fmt_int 2 (tm_sec t) @ ''.''
     @ fmt_int 3 (usec div 1000)"

text \<open>The clock fails or answers the broken-down local time and the microseconds; the buffer has 32 bytes.\<close>

definition GetDateTime :: "(tm \<times> int) option \<Rightarrow> string" where
  "GetDateTime now = take 31 (case now of None \<Rightarrow> ''ERR: fail to get date'' | Some (t, usec) \<Rightarrow> date_text t usec)"

definition SetLevel :: "level \<Rightarrow> log_state \<Rightarrow> log_state" where
  "SetLevel lv l = l\<lparr>g_level := lv\<rparr>"

definition Log_Enable :: "(string \<Rightarrow> bool) \<Rightarrow> string \<Rightarrow> log_state \<Rightarrow> log_state" where
  "Log_Enable can_open fname l = l\<lparr>fp := (if can_open fname then Some fname else None)\<rparr>"

definition Log_Disable :: "log_state \<Rightarrow> log_state" where
  "Log_Disable l = (case fp l of None \<Rightarrow> l | Some f \<Rightarrow> l\<lparr>fp := None\<rparr>)"

definition Log_Write :: "level \<Rightarrow> (tm \<times> int) option \<Rightarrow> string \<Rightarrow> log_state \<Rightarrow> log_state" where
  "Log_Write lv now msg l =
     (case fp l of None \<Rightarrow> l
      | Some f \<Rightarrow> l\<lparr>files := (files l)(f := files l f @ GetDateTime now @ '': '' @ ''['' @ log_short lv @ ''] '' @ msg)\<rparr>)"

definition LOG_BUFSIZ :: nat where "LOG_BUFSIZ = 16384"

definition Print :: "level \<Rightarrow> (tm \<times> int) option \<Rightarrow> string \<Rightarrow> log_state \<Rightarrow> log_state" where
  "Print lv now msg l = (if g_level l < lv then l else Log_Write lv now (take (LOG_BUFSIZ - 1) msg) l)"

section \<open>Numbers of a fixed width\<close>

fun dec_fixed :: "nat \<Rightarrow> nat \<Rightarrow> string" where
  "dec_fixed 0 n = []"
| "dec_fixed (Suc w) n = dec_fixed w (n div 10) @ [char_of (48 + n mod 10)]"

lemma length_dec_fixed [simp]: "length (dec_fixed w n) = w"
  by (induction w arbitrary: n) auto

lemma dec_fixed_zero: "dec_fixed w 0 = replicate w CHR ''0''"
proof (induction w)
  case (Suc w)
  have "(char_of (48 :: nat) :: char) = CHR ''0''" by code_simp
  then show ?case using Suc by (simp add: replicate_append_same)
qed simp

lemma dec_digits_fixed: "n < 10 ^ w \<Longrightarrow> 0 < w \<Longrightarrow> fmt_d w n = dec_fixed w n"
proof (induction w arbitrary: n)
  case (Suc w)
  show ?case
  proof (cases "n < 10")
    case True
    then show ?thesis by (simp add: fmt_d_def dec_of_nat.simps [of n] dec_fixed_zero)
  next
    case False
    then have w: "0 < w" using Suc.prems(1) by (cases w) auto
    have "n div 10 < 10 ^ w" using Suc.prems(1) by (simp add: less_mult_imp_div_less mult.commute)
    from Suc.IH [OF this w] show ?thesis
      using False by (simp add: fmt_d_def dec_of_nat.simps [of n])
  qed
qed simp

section \<open>The order of texts\<close>

lemma append_less_append:
  fixes xs :: "'a::linorder list"
  shows "length xs = length ys \<Longrightarrow> xs @ us < ys @ vs \<longleftrightarrow> xs < ys \<or> xs = ys \<and> us < vs"
  by (induction xs ys rule: list_induct2) auto

lemma digit_less: "a < 10 \<Longrightarrow> b < 10 \<Longrightarrow> (char_of (48 + a) :: char) < char_of (48 + b) \<longleftrightarrow> (a :: nat) < b"
  by (simp add: less_char_def)

lemma digit_eq: "a < 10 \<Longrightarrow> b < 10 \<Longrightarrow> (char_of (48 + a) :: char) = char_of (48 + b) \<longleftrightarrow> (a :: nat) = b"
  by (metis digit_less less_irrefl linorder_neqE_nat)

lemma digits_less: "b < 10 \<Longrightarrow> d < 10 \<Longrightarrow> a < c \<or> a = c \<and> b < d \<longleftrightarrow> a * 10 + b < c * 10 + (d :: nat)"
  by linarith

lemma dec_fixed_order:
  "m < 10 ^ w \<Longrightarrow> n < 10 ^ w \<Longrightarrow> (dec_fixed w m < dec_fixed w n \<longleftrightarrow> m < n) \<and> (dec_fixed w m = dec_fixed w n \<longleftrightarrow> m = n)"
proof (induction w arbitrary: m n)
  case (Suc w)
  have "m div 10 < 10 ^ w" "n div 10 < 10 ^ w"
    using Suc.prems by (simp_all add: less_mult_imp_div_less mult.commute)
  then have "(dec_fixed w (m div 10) < dec_fixed w (n div 10) \<longleftrightarrow> m div 10 < n div 10)
    \<and> (dec_fixed w (m div 10) = dec_fixed w (n div 10) \<longleftrightarrow> m div 10 = n div 10)" by (rule Suc.IH)
  then have "(dec_fixed (Suc w) m < dec_fixed (Suc w) n \<longleftrightarrow> m div 10 < n div 10 \<or> m div 10 = n div 10 \<and> m mod 10 < n mod 10)
    \<and> (dec_fixed (Suc w) m = dec_fixed (Suc w) n \<longleftrightarrow> m div 10 = n div 10 \<and> m mod 10 = n mod 10)"
    by (simp add: append_less_append digit_less digit_eq)
  moreover have "m div 10 < n div 10 \<or> m div 10 = n div 10 \<and> m mod 10 < n mod 10 \<longleftrightarrow> m < n"
    using digits_less [of "m mod 10" "n mod 10" "m div 10" "n div 10"] by simp
  moreover have "m div 10 = n div 10 \<and> m mod 10 = n mod 10 \<longleftrightarrow> m = n" by (metis div_mod_decomp)
  ultimately show ?case by argo
qed simp

text \<open>A field of fixed width, and what follows it.\<close>

lemma fixed_field_order:
  assumes "0 \<le> a" "a < 10 ^ w" "0 \<le> b" "b < 10 ^ w" "0 < w"
  shows "fmt_int w a @ us < fmt_int w b @ vs \<longleftrightarrow> a < b \<or> a = b \<and> us < vs"
proof -
  have l: "nat a < 10 ^ w" "nat b < 10 ^ w" using assms by (simp_all add: nat_less_iff)
  then have "fmt_int w a = dec_fixed w (nat a)" "fmt_int w b = dec_fixed w (nat b)"
    using assms by (simp_all add: fmt_int_def dec_digits_fixed)
  then show ?thesis using dec_fixed_order [OF l] assms(1,3) by (auto simp: append_less_append)
qed

lemma year_text: "1000 \<le> y \<Longrightarrow> y \<le> 9999 \<Longrightarrow> fmt_int 0 y = fmt_int 4 y"
proof -
  assume y: "1000 \<le> y" "y \<le> 9999"
  define n where "n = nat y"
  have n: "1000 \<le> n" "n \<le> 9999" using y by (simp_all add: n_def)
  have "100 \<le> n div 10" "10 \<le> n div 100" "1 \<le> n div 1000" "n div 1000 < 10" using n by linarith+
  then have "length (dec_of_nat n) = 4"
    by (simp add: dec_of_nat.simps [of n] dec_of_nat.simps [of "n div 10"] dec_of_nat.simps [of "n div 100"]
      dec_of_nat.simps [of "n div 1000"] div_mult2_eq [symmetric])
  then show ?thesis using y by (simp add: fmt_int_def fmt_d_def n_def)
qed

text \<open>What \<open>gettimeofday\<close> and \<open>localtime_r\<close> answer in the years of four digits.\<close>

definition valid_time :: "tm \<Rightarrow> int \<Rightarrow> bool" where
  "valid_time t usec \<longleftrightarrow> tm_year t \<in> {- 900..8099} \<and> tm_mon t \<in> {0..11} \<and> tm_mday t \<in> {1..31} \<and> tm_hour t \<in> {0..23}
     \<and> tm_min t \<in> {0..59} \<and> tm_sec t \<in> {0..60} \<and> usec \<in> {0..999999}"

definition stamp :: "tm \<Rightarrow> int \<Rightarrow> int list" where
  "stamp t usec = [tm_year t, tm_mon t, tm_mday t, tm_hour t, tm_min t, tm_sec t, usec div 1000]"

lemma valid_millis: "valid_time t usec \<Longrightarrow> 0 \<le> usec div 1000 \<and> usec div 1000 < 10 ^ 3"
proof -
  assume "valid_time t usec"
  then have "0 \<le> usec" "usec \<le> 999999" by (simp_all add: valid_time_def)
  then show ?thesis by (simp add: pos_imp_zdiv_nonneg_iff)
qed

lemma date_text_length:
  assumes "valid_time t usec"
  shows "length (date_text t usec) = 23"
proof -
  have "length (fmt_int w n) = w" if "0 \<le> n" "n < 10 ^ w" "0 < w" for w n
    using that by (simp add: fmt_int_def dec_digits_fixed nat_less_iff)
  then show ?thesis using assms valid_millis [OF assms] by (simp add: date_text_def valid_time_def year_text)
qed

text \<open>
  The time of a line is never cut off and the lines of the log sort by time: for times in the years of
  four digits, the order of the texts is the order of year, month, day, hour, minute, second and
  millisecond.
\<close>

theorem log_lines_sort:
  assumes "valid_time t usec" "valid_time t' usec'"
  shows "(GetDateTime (Some (t, usec)) < GetDateTime (Some (t', usec')) \<longleftrightarrow> stamp t usec < stamp t' usec')
    \<and> length (GetDateTime (Some (t, usec))) = 23"
proof -
  have "0 \<le> usec div 1000" "usec div 1000 < 10 ^ 3" "0 \<le> usec' div 1000" "usec' div 1000 < 10 ^ 3"
    using valid_millis assms by blast+
  then have "fmt_int 3 (usec div 1000) < fmt_int 3 (usec' div 1000) \<longleftrightarrow> usec div 1000 < usec' div 1000"
    using fixed_field_order [of "usec div 1000" 3 "usec' div 1000" "[]" "[]"] by simp
  then have "date_text t usec < date_text t' usec' \<longleftrightarrow> stamp t usec < stamp t' usec'"
    using assms by (simp add: date_text_def valid_time_def year_text fixed_field_order stamp_def add1_zle_eq)
  then show ?thesis using date_text_length [OF assms(1)] date_text_length [OF assms(2)] by (simp add: GetDateTime_def)
qed

theorem log_lines_sort_witness:
  "GetDateTime (Some (\<lparr>tm_year = 114, tm_mon = 8, tm_mday = 30, tm_hour = 23, tm_min = 59, tm_sec = 59\<rparr>, 999999))
   < GetDateTime (Some (\<lparr>tm_year = 114, tm_mon = 9, tm_mday = 1, tm_hour = 0, tm_min = 0, tm_sec = 0\<rparr>, 0))"
proof -
  let ?t = "\<lparr>tm_year = 114, tm_mon = 8, tm_mday = 30, tm_hour = 23, tm_min = 59, tm_sec = 59\<rparr>"
    and ?u = "\<lparr>tm_year = 114, tm_mon = 9, tm_mday = 1, tm_hour = 0, tm_min = 0, tm_sec = 0\<rparr>"
  have "valid_time ?t 999999" "valid_time ?u 0" by (simp_all add: valid_time_def)
  then show ?thesis using log_lines_sort [of ?t 999999 ?u 0] by (simp add: stamp_def)
qed

section \<open>What is logged\<close>

definition log_line :: "level \<times> (tm \<times> int) option \<times> string \<Rightarrow> string" where
  "log_line = (\<lambda>(lv, now, msg). GetDateTime now @ '': ['' @ log_short lv @ ''] '' @ take 16383 msg)"

definition print_all :: "(level \<times> (tm \<times> int) option \<times> string) list \<Rightarrow> log_state \<Rightarrow> log_state" where
  "print_all ps l = fold (\<lambda>(lv, now, msg). Print lv now msg) ps l"

lemma Print_to:
  assumes "fp l = Some f"
  shows "Print lv now msg l =
    (if lv \<le> g_level l then l\<lparr>files := (files l)(f := files l f @ log_line (lv, now, msg))\<rparr> else l)"
  using assms by (simp add: Print_def Log_Write_def log_line_def LOG_BUFSIZ_def not_less)

text \<open>
  The log file holds exactly the messages whose level is at most the one set, in the order printed,
  each after its time and the name of its level and cut off after 16383 characters; no other file
  changes, and nothing is written when no file is open.
\<close>

theorem log_contents:
  "files (print_all ps l) g =
    (if fp l = Some g then files l g @ concat (map log_line (filter (\<lambda>(lv, now, msg). lv \<le> g_level l) ps)) else files l g)"
proof (cases "fp l")
  case None
  then have "print_all ps l = l"
    unfolding print_all_def by (induction ps) (auto simp: Print_def Log_Write_def)
  then show ?thesis using None by simp
next
  case (Some f)
  have "files (print_all ps l) g =
    (if f = g then files l g @ concat (map log_line (filter (\<lambda>(lv, now, msg). lv \<le> g_level l) ps)) else files l g)"
    using Some unfolding print_all_def by (induction ps arbitrary: l) (auto simp: Print_to)
  then show ?thesis using Some by simp
qed

end
