(* ===== verification/App.thy ===== *)
theory App
  imports System_Server Fcgi_Log
begin

text \<open>
  The program, \<open>src/app/linear_fcgi.cc\<close>: the environment variables are read, the log is opened, the
  server is created and serves until no request is accepted any more. The environment, the file system,
  the clock of the log, the parser of the configuration, the pattern matcher, base64 and libuv are
  arguments. The lemmas say which settings result and that the program answers every request it accepts.
\<close>

section \<open>The code\<close>

definition DEFAULT_MAX_CLIENTS :: u64 where "DEFAULT_MAX_CLIENTS = 8"
definition DEFAULT_TIMEOUT :: int where "DEFAULT_TIMEOUT = 30"

record app_io =
  getenv :: "string \<Rightarrow> string option"
  can_open :: "string \<Rightarrow> bool"
  log_now :: "(tm \<times> int) option"
  config_parse :: "string \<Rightarrow> resource list option"
  pattern_match :: matcher
  base64_encode :: "bytes \<Rightarrow> string option"
  async_ret :: int
  timer_ret :: int
  thread_ret :: int

text \<open>The level, the log, and whether reading the level set \<open>errno\<close>.\<close>

definition setup_log :: "app_io \<Rightarrow> log_state \<Rightarrow> level \<times> log_state \<times> bool" where
  "setup_log io l =
     (case getenv io ''LINEAR_FCGI_LOG_FILE'' of
        None \<Rightarrow> (LOG_ERR, l, False)
      | Some fname \<Rightarrow>
          (let (level, erange) =
             (case getenv io ''LINEAR_FCGI_LOG_LEVEL'' of
                None \<Rightarrow> (LOG_ERR, False)
              | Some s \<Rightarrow> (word_of_int (fst (strtol10 (c_str s))), snd (strtol10 (c_str s))))
           in (level, Log_Enable (can_open io) fname (SetLevel level l), erange)))"

definition app_max_clients :: "app_io \<Rightarrow> u64 \<times> bool" where
  "app_max_clients io =
     (case getenv io ''LINEAR_FCGI_MAX_CLIENTS'' of
        None \<Rightarrow> (DEFAULT_MAX_CLIENTS, False)
      | Some s \<Rightarrow> (word_of_int (fst (strtol10 (c_str s))), snd (strtol10 (c_str s))))"

definition app_timeout :: "app_io \<Rightarrow> int \<times> bool" where
  "app_timeout io =
     (case getenv io ''LINEAR_FCGI_TIMEOUT'' of
        None \<Rightarrow> (DEFAULT_TIMEOUT, False)
      | Some s \<Rightarrow> (fst (strtol10 (c_str s)), snd (strtol10 (c_str s))))"

text \<open>How the program ends: the exit status with what was answered, or a failed assertion or crash.\<close>

datatype outcome = Exit int "world option" | Abort

definition new_server :: "app_io \<Rightarrow> string \<Rightarrow> int \<Rightarrow> server option" where
  "new_server io path tmo =
     (case config_parse io path of
        None \<Rightarrow> None
      | Some rs \<Rightarrow> Some \<lparr>config = Some rs, matches = pattern_match io, client_timeout = tmo, b64_encode = base64_encode io\<rparr>)"

definition server_run :: "app_io \<Rightarrow> server \<Rightarrow> exchange list \<Rightarrow> static_vars \<Rightarrow> world \<Rightarrow> outcome" where
  "server_run io s xs sv w =
     (case loop_run (async_ret io) (timer_ret io) (thread_ret io) of
        None \<Rightarrow> Abort
      | Some _ \<Rightarrow> (case serve_all s xs sv w of None \<Rightarrow> Abort | Some (sv', w') \<Rightarrow> Exit (- 1) (Some w')))"

definition app_main :: "app_io \<Rightarrow> exchange list \<Rightarrow> log_state \<Rightarrow> log_state \<times> outcome" where
  "app_main io xs l0 =
     (let (level, l1, e1) = setup_log io l0 in
      case getenv io ''LINEAR_FCGI_WEBSOCKET_CONFIG_PATH'' of
        None \<Rightarrow> (Print LOG_ERR (log_now io) (''LINEAR_FCGI_WEBSOCKET_CONFIG_PATH is required'' @ [CHR 0x0A]) l1, Exit (- 1) None)
      | Some conf \<Rightarrow>
          (let l2 = Print LOG_ERR (log_now io) (''log file: '' @ conf @ '', level: '' @ log_long level @ [CHR 0x0A]) l1;
               (cap, e2) = app_max_clients io;
               (tmo, e3) = app_timeout io
           in case new_server io conf tmo of
                None \<Rightarrow> (l2, Abort)
              | Some s \<Rightarrow>
                  (l2, server_run io s xs \<lparr>static_data = [], errno_erange = e1 \<or> e2 \<or> e3\<rparr> (storage_new (unat cap)))))"

section \<open>The settings\<close>

lemma strtol10_neg:
  assumes "n \<le> 2 ^ 63"
  shows "strtol10 (CHR ''-'' # dec_of_nat n) = (- int n, False)"
proof -
  have n: "int n \<le> 2 ^ 63" using assms by (metis of_nat_le_iff of_nat_numeral of_nat_power)
  have 1: "split_sign (dropWhile isspace (CHR ''-'' # dec_of_nat n)) = (True, dec_of_nat n)" by (simp add: ctype_defs)
  have 2: "takeWhile isdigit (dec_of_nat n) = dec_of_nat n" by (simp add: takeWhile_eq_all_conv dec_of_nat_digits)
  show ?thesis unfolding strtol10_def 1 Let_def prod.case 2 using n by simp
qed

text \<open>
  C40. The capacity: 8 unless \<open>LINEAR_FCGI_MAX_CLIENTS\<close> is set, the number it gives, and for a
  negative number its remainder modulo the size of the machine word, so that \<open>-1\<close> admits practically
  any number of sessions.
\<close>

theorem app_capacity:
  assumes "getenv io ''LINEAR_FCGI_MAX_CLIENTS'' = None \<and> cap = 8
    \<or> (\<exists>n < 2 ^ 63. getenv io ''LINEAR_FCGI_MAX_CLIENTS'' = Some (dec_of_nat n) \<and> cap = n)
    \<or> (\<exists>n \<le> 2 ^ 63. 0 < n \<and> getenv io ''LINEAR_FCGI_MAX_CLIENTS'' = Some (CHR ''-'' # dec_of_nat n) \<and> cap = 2 ^ 64 - n)"
  shows "unat (fst (app_max_clients io)) = cap"
  using assms
proof (elim disjE exE conjE)
  fix n :: nat assume n: "n \<le> 2 ^ 63" "0 < n" "getenv io ''LINEAR_FCGI_MAX_CLIENTS'' = Some (CHR ''-'' # dec_of_nat n)" "cap = 2 ^ 64 - n"
  have "c_str (CHR ''-'' # dec_of_nat n) = CHR ''-'' # dec_of_nat n" using nul_free_dec [of n] by (simp add: c_str_id)
  then have c: "fst (app_max_clients io) = - word_of_nat n" using n(3) by (simp add: app_max_clients_def strtol10_neg [OF n(1)])
  have "- word_of_nat n = (word_of_nat (2 ^ 64 - n) :: u64)" using n(1) by (simp add: of_nat_diff)
  then have "unat (- word_of_nat n :: u64) = take_bit 64 (2 ^ 64 - n)" by (simp only: unat_of_nat) (simp add: take_bit_eq_mod)
  moreover have "take_bit 64 (2 ^ 64 - n) = 2 ^ 64 - n" using n(2) by (simp add: take_bit_nat_eq_self)
  ultimately show ?thesis using c n(4) by metis
qed (auto simp: app_max_clients_def DEFAULT_MAX_CLIENTS_def c_str_id nul_free_dec strtol10_dec unat_suc_nat)

theorem app_capacity_witness:
  "unat (fst (app_max_clients \<lparr>getenv = [''LINEAR_FCGI_MAX_CLIENTS'' \<mapsto> ''-1''], can_open = (\<lambda>_. False), log_now = None,
     config_parse = (\<lambda>_. None), pattern_match = exact_match, base64_encode = (\<lambda>_. None), async_ret = 0, timer_ret = 0,
     thread_ret = 0\<rparr>)) = 2 ^ 64 - 1"
proof -
  have "''-1'' = CHR ''-'' # dec_of_nat 1" by code_simp
  then show ?thesis by (intro app_capacity disjI2 exI [of _ 1]) simp
qed

section \<open>The run\<close>

definition app_server :: "app_io \<Rightarrow> resource list \<Rightarrow> server" where
  "app_server io rs = \<lparr>config = Some rs, matches = pattern_match io, client_timeout = fst (app_timeout io),
     b64_encode = base64_encode io\<rparr>"

definition app_static :: "app_io \<Rightarrow> log_state \<Rightarrow> static_vars" where
  "app_static io l = \<lparr>static_data = [], errno_erange =
     snd (snd (setup_log io l)) \<or> snd (app_max_clients io) \<or> snd (app_timeout io)\<rparr>"

text \<open>
  C14. With a configuration that can be parsed, the program serves any sequence of requests beside its
  loop thread. What the handlers see of that thread are runs of its steps (\<open>run_follows\<close>: any number of
  steps between requests, at each return of a wait of \<open>connect\<close> and before each read of a poll, none of
  which fails; each wait has a deadline, and no body overflows its buffer). Then \<open>run\<close> returns and the
  program ends with status \<open>-1\<close>, after exactly as many answers as it accepted requests; the mutex is
  free, the table is consistent and within the capacity that was set, and the world is, printing apart,
  that of a reachable state of the two threads.
\<close>

theorem app_answers:
  assumes "getenv io ''LINEAR_FCGI_WEBSOCKET_CONFIG_PATH'' = Some path" "config_parse io path = Some rs"
    "async_ret io = 0" "timer_ret io = 0"
    "run_follows b64 (app_server io rs) xs (app_static io l) (start_system (unat (fst (app_max_clients io))))"
  shows "\<exists>w s. snd (app_main io xs l) = Exit (- 1) (Some w) \<and> length (responses w) = length xs
    \<and> storage_lock w = None \<and> storage_ok w \<and> card (dom (session w)) \<le> unat (fst (app_max_clients io))
    \<and> sys_reachable b64 (unat (fst (app_max_clients io))) s \<and> wld s = w\<lparr>responses := []\<rparr>"
proof -
  let ?n = "unat (fst (app_max_clients io))"
  have new: "wld (start_system ?n) = storage_new ?n" "mpc (start_system ?n) = MIdle" "responses (storage_new ?n) = []"
    by (simp_all add: start_system_def storage_new_def)
  obtain st w s where w: "serve_all (app_server io rs) xs (app_static io l) (storage_new ?n) = Some (st, w)"
    "leads b64 (start_system ?n) s" "mpc s = MIdle" "wld s = w\<lparr>responses := []\<rparr>" "length (responses w) = length xs"
    using serve_all_leads [OF sys_inv_start new(2) assms(5)] new by auto
  have r: "sys_reachable b64 ?n s" by (rule leads_reachable [OF reaches.reaches_init w(2)])
  then have i: "sys_inv s" "max_clients (wld s) = ?n" using sys_max.reaches_both by blast+
  then have "storage_ok (wld s)" "storage_lock (wld s) = None" using idle_facts [OF i(1) w(3)] by simp_all
  then have ok: "storage_ok w" "storage_lock w = None" "max_clients w = ?n" using i(2) w(4) by (simp_all add: frame_simps)
  have "snd (app_main io xs l) = Exit (- 1) (Some w)"
    using assms(1-4) w(1)
    by (simp add: app_main_def new_server_def server_run_def loop_run_def app_server_def app_static_def case_prod_unfold Let_def)
  moreover have "card (dom (session w)) \<le> ?n" using session_count [OF ok(1)] ok(1,3) by (simp add: storage_ok_def)
  ultimately show ?thesis using w(4,5) ok r by blast
qed

text \<open>A session is opened, with the loop thread at work, and a request of another method follows.\<close>

definition session_io :: app_io where
  "session_io = \<lparr>getenv = [''LINEAR_FCGI_WEBSOCKET_CONFIG_PATH'' \<mapsto> ''a.conf'', ''LINEAR_FCGI_MAX_CLIENTS'' \<mapsto> ''1''],
     can_open = (\<lambda>_. True), log_now = None, config_parse = (\<lambda>_. config channel_server), pattern_match = exact_match,
     base64_encode = (\<lambda>b. Some (map of_u8 b)), async_ret = 0, timer_ret = 0, thread_ret = 0\<rparr>"

definition start_log :: log_state where
  "start_log = \<lparr>g_level = LOG_OFF, fp = None, files = (\<lambda>_. [])\<rparr>"

lemma session_settings:
  "fst (app_max_clients session_io) = 1" "app_server session_io (the (config channel_server)) = channel_server"
  "static_data (app_static session_io start_log) = []"
proof -
  have "c_str ''1'' = ''1''" "fst (strtol10 ''1'') = 1" by code_simp+
  then show "fst (app_max_clients session_io) = 1" by (simp add: app_max_clients_def session_io_def)
qed (simp_all add: app_server_def session_io_def channel_server_def app_timeout_def DEFAULT_TIMEOUT_def app_static_def)

theorem app_answers_witness:
  "\<exists>w s c. snd (app_main session_io two_exchanges start_log) = Exit (- 1) (Some w) \<and> length (responses w) = 2
    \<and> sys_reachable no_b64 1 s \<and> wld s = w\<lparr>responses := []\<rparr> \<and> clients w 7 = Some c \<and> state c = CONNECTED"
proof -
  note st = session_settings(3)
  obtain w0 c where w0: "serve_all channel_server two_exchanges (app_static session_io start_log) (storage_new 1)
      = Some (app_static session_io start_log, w0)" "clients w0 7 = Some c" "state c = CONNECTED"
    using two_served [OF st] by blast
  have e: "getenv session_io ''LINEAR_FCGI_WEBSOCKET_CONFIG_PATH'' = Some ''a.conf''"
    "config_parse session_io ''a.conf'' = Some (the (config channel_server))" "async_ret session_io = 0" "timer_ret session_io = 0"
    by (simp_all add: session_io_def channel_server_def)
  have n: "unat (fst (app_max_clients session_io)) = 1" by (simp add: session_settings(1))
  have "run_follows no_b64 (app_server session_io (the (config channel_server))) two_exchanges (app_static session_io start_log)
      (start_system (unat (fst (app_max_clients session_io))))"
    unfolding session_settings(2) n by (rule two_follow [OF st])
  from app_answers [OF e this] obtain w s where w: "snd (app_main session_io two_exchanges start_log) = Exit (- 1) (Some w)"
    "length (responses w) = length two_exchanges" "sys_reachable no_b64 1 s" "wld s = w\<lparr>responses := []\<rparr>"
    unfolding n by blast
  have "snd (app_main session_io two_exchanges start_log) = Exit (- 1) (Some w0)"
    using e w0(1) session_settings(2) n
    by (simp add: app_main_def new_server_def server_run_def loop_run_def app_server_def app_static_def case_prod_unfold Let_def
        del: One_nat_def)
  then have "w = w0" using w(1) by simp
  then show ?thesis using w w0(2,3) by (auto simp: two_exchanges_def)
qed

end
