(* ===== verification/Spec2Isabelle.thy ===== *)
theory Spec2Isabelle
  imports Url_Codec Uuidgen Queue_Threads Poll_Memory System_Calm System_Server App
begin

text \<open>
  linear-fcgi is a FastCGI program that lets a browser without WebSocket talk to a TCP server: \<open>connect\<close>
  opens a session, that is a TCP connection named by a UUID, \<open>POST\<close> sends a base64 message on it,
  \<open>poll\<close> fetches what the server sent, \<open>disconnect\<close> closes it. The main thread accepts requests
  and runs one handler at a time; a second thread runs the event loop of libuv. They share the table of
  sessions under its mutex, each session under a mutex of its own, two lock-free queues per session and
  one request queue from the main thread to the loop thread.

  \<^bold>\<open>Theories and sources\<close> (under \<open>src/src\<close> unless said otherwise).
  \<^item> \<open>C_Lib\<close>: the parts of the C library the code calls: character classes, \<open>strtol\<close>,
    \<open>strtoul\<close>, the conversions of \<open>printf\<close>. \<open>Std_Map\<close>: \<open>std::map\<close>, with the locale \<open>keyed\<close>
    that states what its users rely on.
  \<^item> \<open>Url_Codec\<close>: \<open>urlendecode.c\<close>. \<open>Uuid_Impl\<close>, \<open>Uuid\<close>: \<open>uuid/\<close>, the representation
    and the generator; \<open>Uuidgen\<close>: \<open>uuid/samples/uuidgen.c\<close> and the branch of \<open>_uuid_node.c\<close> for
    macOS.
  \<^item> \<open>Lockfree_Queue\<close>, \<open>Queue_Threads\<close>: \<open>linear_fcgi_queue.h\<close>, on an explicit heap, sequentially
    and for every interleaving of producer and consumer. Elsewhere a queue is the list of its values; the
    locale \<open>fifo\<close> is interpreted on both.
  \<^item> \<open>Queries\<close>: \<open>linear_fcgi_queries.cc\<close>. \<open>Http_Response\<close>: \<open>linear_fcgi_response.cc\<close> and
    \<open>linear_fcgi_http.h\<close>. \<open>Fcgi_Request\<close>: \<open>linear_fcgi_env.cc\<close>, \<open>linear_fcgi_request.cc\<close>.
  \<^item> \<open>Client\<close>, \<open>Client_Runs\<close>: \<open>linear_fcgi_client.cc\<close>: one session, each member function cut
    into the sections it executes under the mutex of the session, and sequences of them in any order.
    \<open>Tcp_Buffer\<close>: the buffers of \<open>linear_fcgi_client.h\<close> with the memory they own, in the nodes of
    the read queue. \<open>Poll_Memory\<close>: the loop of \<open>onPoll\<close> on these buffers.
  \<^item> \<open>Client_Storage\<close>: \<open>linear_fcgi_client_storage.cc\<close>: the table. \<open>Loop\<close>:
    \<open>linear_fcgi_loop.cc\<close>: the request queue and the callbacks.
  \<^item> \<open>Server\<close>, with \<open>Server_Props\<close>, \<open>Server_Connect\<close>, \<open>Server_Poll\<close>, \<open>Server_Run\<close>:
    \<open>linear_fcgi_server.cc\<close>: the handlers as functions, their properties branch by branch, and the
    server as a whole.
  \<^item> \<open>Step_Systems\<close>, \<open>System\<close>, \<open>System_Safety\<close>, \<open>System_Props\<close>: the two threads
    together, as a step system whose steps are the sections of the member functions, the accesses to the
    request queue and the callbacks. \<open>System_Local\<close>, \<open>System_Calm\<close>: what a step does to one session,
    and the runs that are free of failures. \<open>System_Handlers\<close>, \<open>System_Server\<close>: the handlers and
    the run of \<open>Server\<close> as runs of the two threads.
  \<^item> \<open>Fcgi_Log\<close>: \<open>linear_fcgi_log.cc\<close>. \<open>App\<close>: \<open>src/app/linear_fcgi.cc\<close>.

  \<^bold>\<open>Modelling.\<close> Structs are records, enumerations datatypes, machine integers words where they can
  wrap and integers elsewhere. A failed assertion, an access outside a buffer or to a deleted object, and
  a mutex that is never released are the value \<open>None\<close> (in \<open>System\<close> the results \<open>Freed\<close> and
  \<open>ClosedTwice\<close>). What the operating system, the allocator, libuv, the resolver, FastCGI, PCRE and
  mod\_websocket (base64 and the configuration parser) answer is an argument; what a property needs of
  them is one of its hypotheses: \<open>reads_input\<close> for \<open>FCGI_fread\<close>, \<open>loop_change\<close> for what the other
  thread does to the table while a handler holds its mutex, \<open>allocator_ok\<close> and \<open>meanwhile_ok\<close> for the
  allocator and the loop thread in the memory of a poll. In \<open>Server\<close> the loop thread is a change of the
  world given as an argument, arbitrary but for those hypotheses. \<open>System\<close> has both threads and assumes
  nothing of the scheduler; what libuv owes (which requests are in flight, which handles are being read or
  closed) is kept by \<open>effect_step\<close> as its documentation describes it, and a client is an address that is
  never used twice, so that a dangling pointer stays visible. \<open>request_follows\<close> and \<open>run_follows\<close> join
  the two: the changes that the handlers see are those of steps of the loop thread, any number of them
  between requests, at each return of a wait and before each read of a poll, none of which fails.

  \<^bold>\<open>What is shown.\<close>
  \<^item> Queue: memory safety and first-in-first-out order for all interleavings; a call of \<open>produce\<close> or
    \<open>consume\<close> is an uninterrupted run of its steps.
  \<^item> Two threads (\<open>sys_inv\<close>, proved for every step): the main thread is memory safe, the table is
    consistent and within its capacity, no message is stranded, no client is left connecting, and a
    handler returns: it can always make its next step, and however its steps interleave with those of the
    loop thread it makes a bounded number of them until the next request is accepted (in a poll at most
    one for each byte below the threshold, and two). The loop thread is memory safe except for queued requests: a run in which a request
    outlives its client and a run in which a handle is closed twice are exhibited, and in every run without
    the two circumstances that lead to them no step of either thread fails. A handler of \<open>Server\<close> is a run
    that ends between requests and answers once; \<open>Server::run\<close> is one for any sequence of requests, so
    the program answers every request it accepts.
  \<^item> Sessions: the state machine; both byte streams, with the one way in which bytes are lost; which
    sessions the timer closes; the number of times a connection is closed.
  \<^item> Buffers: each owns its block and nothing else is allocated, through \<open>onRead\<close>, \<open>read\<close> and the loop
    of \<open>onPoll\<close>, which implement the operations on values of \<open>Client\<close> and \<open>Server\<close>; the one leak.
  \<^item> Server: the branches of every handler, those of a poll whatever the loop thread and the allocator
    do while it reads; a message from \<open>POST\<close> to libuv; the bound on an answer; one answer per request for
    the whole program.
  \<^item> Data: round trips of queries, responses, URL encoding and UUIDs; comparison and uniqueness of UUIDs;
    the order of log lines; which requests overflow a buffer and which replay an earlier body.

  \<^bold>\<open>Bounds.\<close> No fuel is used. The loop of \<open>onPoll\<close> ends because each turn adds a byte below
  \<open>DATA_THRESHOLD\<close>, that of \<open>_write\<close> because each turn consumes a message; \<open>on_async\<close> and
  \<open>free_loop\<close> are partial functions shown to return. The wait in \<open>connect\<close> follows the list of its
  returns, which must end at a deadline.

  \<^bold>\<open>Not modelled.\<close> Logging inside the other components (it does not change their state); memory
  models weaker than sequential consistency; the allocation of strings; \<open>mainloop\<close>, which only enters
  libuv; signals; the branch of the log for Windows; the tests.
\<close>

end
